(* ===== verification/Ruka_Prelude.thy ===== *)
theory Ruka_Prelude
  imports Main "HOL-Library.Word" "HOL-Library.AList"
begin

text \<open>
  Shared vocabulary of the development: the machine integers of the broker, byte
  strings, results of fallible Rust functions (a value, an error or a panic),
  state-passing programs with such results, big-endian integers, and the general
  facts on lists and words that the component theories use.
\<close>

section \<open>Machine types\<close>

type_synonym u8 = "8 word"
type_synonym u16 = "16 word"
type_synonym u32 = "32 word"
type_synonym u64 = "64 word"
type_synonym bytes = "u8 list"

named_theorems be_simps \<open>big-endian fields in front of a byte string\<close>
named_theorems prog_simps \<open>running state-passing programs\<close>

section \<open>Results of Rust functions\<close>

text \<open>
  A Rust function that returns a Result either returns a value, returns an error, or
  panics. \<open>obind\<close> is the question mark operator: the first error or panic is the result
  of the whole function.
\<close>

datatype ('e, 'a) outcome = Ok 'a | Err 'e | Panic

definition obind :: "('e, 'a) outcome \<Rightarrow> ('a \<Rightarrow> ('e, 'b) outcome) \<Rightarrow> ('e, 'b) outcome" where
  "obind m f = (case m of Ok a \<Rightarrow> f a | Err e \<Rightarrow> Err e | Panic \<Rightarrow> Panic)"

lemma obind_simps [simp]:
  "obind (Ok a) f = f a" "obind (Err e) f = Err e" "obind Panic f = Panic"
  by (simp_all add: obind_def)

lemma obind_assoc: "obind (obind m f) g = obind m (\<lambda>a. obind (f a) g)"
  by (cases m) simp_all

lemma obind_eq_Ok: "obind m f = Ok b \<longleftrightarrow> (\<exists>a. m = Ok a \<and> f a = Ok b)"
  by (cases m) auto

text \<open>A library call that panics on a bad argument returns no value.\<close>

definition must :: "'a option \<Rightarrow> ('e, 'a) outcome" where
  "must x = (case x of None \<Rightarrow> Panic | Some a \<Rightarrow> Ok a)"

lemma must_simps [simp]: "must None = Panic" "must (Some a) = Ok a"
  by (simp_all add: must_def)

lemma must_eq_Ok: "must x = Ok a \<longleftrightarrow> x = Some a"
  by (cases x) simp_all

section \<open>State-passing programs\<close>

text \<open>
  A method with a mutable receiver maps the state to a result and the new state. The
  state is returned on every branch: what a method changed before it failed stays
  changed, as in Rust.
\<close>

type_synonym ('s, 'e, 'a) prog = "'s \<Rightarrow> ('e, 'a) outcome \<times> 's"

definition returnp :: "'a \<Rightarrow> ('s, 'e, 'a) prog" where
  "returnp a s = (Ok a, s)"

definition failp :: "'e \<Rightarrow> ('s, 'e, 'a) prog" where
  "failp e s = (Err e, s)"

definition panicp :: "('s, 'e, 'a) prog" where
  "panicp s = (Panic, s)"

definition modifyp :: "('s \<Rightarrow> 's) \<Rightarrow> ('s, 'e, unit) prog" where
  "modifyp f s = (Ok (), f s)"

definition bindp :: "('s, 'e, 'a) prog \<Rightarrow> ('a \<Rightarrow> ('s, 'e, 'b) prog) \<Rightarrow> ('s, 'e, 'b) prog" where
  "bindp m f s =
     (case m s of
        (Ok a, t) \<Rightarrow> f a t
      | (Err e, t) \<Rightarrow> (Err e, t)
      | (Panic, t) \<Rightarrow> (Panic, t))"

text \<open>Matching on the result of a call instead of propagating it.\<close>

definition catchp ::
    "('s, 'e, 'a) prog \<Rightarrow> ('a \<Rightarrow> ('s, 'e, 'b) prog) \<Rightarrow> ('e \<Rightarrow> ('s, 'e, 'b) prog) \<Rightarrow> ('s, 'e, 'b) prog" where
  "catchp m f h s =
     (case m s of
        (Ok a, t) \<Rightarrow> f a t
      | (Err e, t) \<Rightarrow> h e t
      | (Panic, t) \<Rightarrow> (Panic, t))"

text \<open>Running a method of a field: \<open>get\<close> and \<open>upd\<close> are the field's selector and update.\<close>

definition zoom ::
    "('s \<Rightarrow> 'f) \<Rightarrow> (('f \<Rightarrow> 'f) \<Rightarrow> 's \<Rightarrow> 's) \<Rightarrow> ('f \<times> 'w, 'e, 'a) prog \<Rightarrow> ('s \<times> 'w, 'e, 'a) prog" where
  "zoom get upd m sw =
     (case m (get (fst sw), snd sw) of (r, (x, w)) \<Rightarrow> (r, (upd (\<lambda>_. x) (fst sw), w)))"

lemma returnp_simp [simp]: "returnp a s = (Ok a, s)"
  by (simp add: returnp_def)

lemma failp_simp [simp]: "failp e s = (Err e, s)"
  by (simp add: failp_def)

lemma panicp_simp [simp]: "panicp s = (Panic, s)"
  by (simp add: panicp_def)

lemma modifyp_simp [simp]: "modifyp f s = (Ok (), f s)"
  by (simp add: modifyp_def)

lemma bindp_Ok [prog_simps]: "m s = (Ok a, t) \<Longrightarrow> bindp m f s = f a t"
  by (simp add: bindp_def)

lemma bindp_Err [prog_simps]: "m s = (Err e, t) \<Longrightarrow> bindp m f s = (Err e, t)"
  by (simp add: bindp_def)

lemma bindp_Panic [prog_simps]: "m s = (Panic, t) \<Longrightarrow> bindp m f s = (Panic, t)"
  by (simp add: bindp_def)

lemma bindp_returnp [simp]: "bindp (returnp a) f s = f a s"
  by (simp add: bindp_def)

lemma bindp_assoc: "bindp (bindp m f) g s = bindp m (\<lambda>a. bindp (f a) g) s"
  by (auto simp: bindp_def split: prod.splits outcome.splits)

lemma bindp_assoc_fun: "bindp (bindp m f) g = bindp m (\<lambda>a. bindp (f a) g)"
  by (rule ext) (rule bindp_assoc)

lemma catchp_Ok [prog_simps]: "m s = (Ok a, t) \<Longrightarrow> catchp m f h s = f a t"
  by (simp add: catchp_def)

lemma catchp_Err [prog_simps]: "m s = (Err e, t) \<Longrightarrow> catchp m f h s = h e t"
  by (simp add: catchp_def)

lemma zoom_eq [prog_simps]:
  "m (get s, w) = (r, (x, w')) \<Longrightarrow> zoom get upd m (s, w) = (r, (upd (\<lambda>_. x) s, w'))"
  by (simp add: zoom_def)

section \<open>Big-endian integers\<close>

text \<open>The \<open>n\<close> bytes of a number, most significant first, and the number read back.\<close>

primrec be_bytes :: "nat \<Rightarrow> nat \<Rightarrow> bytes" where
  "be_bytes 0 v = []"
| "be_bytes (Suc n) v = of_nat (v div 256 ^ n) # be_bytes n v"

primrec be_value :: "bytes \<Rightarrow> nat" where
  "be_value [] = 0"
| "be_value (b # bs) = unat b * 256 ^ length bs + be_value bs"

lemma length_be_bytes [simp]: "length (be_bytes n v) = n"
  by (induction n) simp_all

lemma take_be_bytes [be_simps]: "take n (be_bytes n v @ r) = be_bytes n v"
  by simp

lemma drop_be_bytes [be_simps]: "drop n (be_bytes n v @ r) = r"
  by simp

lemma unat_u8_lt: "unat (b :: u8) < 256"
  using unsigned_less [of b] by simp

lemma be_value_less: "be_value bs < 256 ^ length bs"
proof (induction bs)
  case (Cons b bs)
  have "unat b * 256 ^ length bs + be_value bs < (unat b + 1) * 256 ^ length bs"
    using Cons.IH by simp
  also have "\<dots> \<le> 256 * 256 ^ length bs"
    using unat_u8_lt [of b] by (intro mult_le_mono1) simp
  finally show ?case by simp
qed simp

lemma be_value_be_bytes [be_simps]: "be_value (be_bytes n v) = v mod 256 ^ n"
proof (induction n)
  case (Suc n)
  have "v mod 256 ^ Suc n = 256 ^ n * (v div 256 ^ n mod 256) + v mod 256 ^ n"
    using mod_mult2_eq [of v "256 ^ n" 256] by (simp add: mult.commute)
  then show ?case
    using Suc by (simp add: unat_of_nat mult.commute)
qed simp

lemma zero_256: "(256 :: u8) = 0"
  by simp

lemma be_bytes_be_value [be_simps]: "be_bytes (length bs) (be_value bs) = bs"
proof (induction bs)
  case (Cons b bs)
  have less: "be_value bs < 256 ^ length bs" by (rule be_value_less)
  have hi: "(unat b * 256 ^ length bs + be_value bs) div 256 ^ length bs = unat b"
    using less by simp
  have lo: "be_bytes n (k * 256 ^ m + v) = be_bytes n v" if "n \<le> m" for n m k v
    using that
  proof (induction n)
    case (Suc n)
    have "k * 256 ^ m = 256 ^ n * (k * 256 ^ (m - n))"
      using Suc.prems by (simp add: mult.left_commute flip: power_add)
    then have "(k * 256 ^ m + v) div 256 ^ n = k * 256 ^ (m - n) + v div 256 ^ n"
      by (metis add.commute div_mult_self2 power_eq_0_iff zero_neq_numeral)
    moreover obtain d where "m - n = Suc d"
      using Suc.prems by (metis Suc_diff_Suc Suc_le_lessD)
    ultimately have "(of_nat ((k * 256 ^ m + v) div 256 ^ n) :: u8) = of_nat (v div 256 ^ n)"
      by (simp add: zero_256)
    then show ?case using Suc by simp
  qed simp
  show ?case using Cons.IH hi lo [of "length bs" "length bs" "unat b" "be_value bs"] by simp
qed simp

lemma be_bytes_inj:
  assumes "be_bytes n u = be_bytes n v" "u < 256 ^ n" "v < 256 ^ n"
  shows "u = v"
  using assms be_value_be_bytes by (metis mod_less)

section \<open>Fixed-width fields\<close>

text \<open>
  The integer held by the first \<open>n\<close> bytes of a buffer, at the width of a machine word.
\<close>

definition be_word :: "bytes \<Rightarrow> 'a :: len word" where
  "be_word bs = of_nat (be_value bs)"

definition word_be :: "'a :: len word \<Rightarrow> bytes" where
  "word_be w = be_bytes (LENGTH('a) div 8) (unat w)"

lemma length_word_be [simp]: "length (word_be (w :: 'a :: len word)) = LENGTH('a) div 8"
  by (simp add: word_be_def)

lemma word_be_not_Nil [simp]: "word_be (a :: u8) \<noteq> []" "word_be (b :: u16) \<noteq> []"
  "word_be (c :: u32) \<noteq> []" "word_be (d :: u64) \<noteq> []"
  by (simp_all flip: length_0_conv)

lemma be_word_word_be:
  assumes "8 * (LENGTH('a) div 8) = LENGTH('a)"
  shows "be_word (word_be (w :: 'a :: len word)) = w"
proof -
  have "(256 :: nat) ^ k = 2 ^ (8 * k)" for k
    by (simp add: power_mult)
  then have "(256 :: nat) ^ (LENGTH('a) div 8) = 2 ^ LENGTH('a)"
    using assms by metis
  then show ?thesis
    using unsigned_less [of w] by (simp add: be_word_def word_be_def be_value_be_bytes)
qed

lemma word_be_be_word:
  assumes "length bs = LENGTH('a) div 8" "8 * (LENGTH('a) div 8) = LENGTH('a)"
  shows "word_be (be_word bs :: 'a :: len word) = bs"
proof -
  have "(256 :: nat) ^ k = 2 ^ (8 * k)" for k
    by (simp add: power_mult)
  then have "be_value bs < 2 ^ LENGTH('a)"
    using be_value_less [of bs] assms by metis
  then show ?thesis
    using be_bytes_be_value [of bs] assms(1)
    by (simp add: be_word_def word_be_def unat_of_nat)
qed

lemma be_word_round [be_simps]:
  "be_word (word_be (a :: u8)) = a" "be_word (word_be (b :: u16)) = b"
  "be_word (word_be (c :: u32)) = c" "be_word (word_be (d :: u64)) = d"
  by (simp_all add: be_word_word_be)

lemma take_word_be [be_simps]:
  "take (Suc 0) (word_be (a :: u8) @ r) = word_be a" "take 2 (word_be (b :: u16) @ r) = word_be b"
  "take 4 (word_be (c :: u32) @ r) = word_be c" "take 8 (word_be (d :: u64) @ r) = word_be d"
  by simp_all

lemma drop_word_be [be_simps]:
  "drop (Suc 0) (word_be (a :: u8) @ r) = r" "drop 2 (word_be (b :: u16) @ r) = r"
  "drop 4 (word_be (c :: u32) @ r) = r" "drop 8 (word_be (d :: u64) @ r) = r"
  by simp_all

lemma word_be_round:
  "length bs = Suc 0 \<Longrightarrow> word_be (be_word bs :: u8) = bs"
  "length bs = 2 \<Longrightarrow> word_be (be_word bs :: u16) = bs"
  "length bs = 4 \<Longrightarrow> word_be (be_word bs :: u32) = bs"
  "length bs = 8 \<Longrightarrow> word_be (be_word bs :: u64) = bs"
  by (simp_all add: word_be_be_word)

text \<open>A long enough byte string starts with a field of each width.\<close>

lemma front_u8: "1 \<le> length b \<Longrightarrow> \<exists>(a :: u8) r. b = word_be a @ r \<and> length b = 1 + length r"
  and front_u16: "2 \<le> length b \<Longrightarrow> \<exists>(c :: u16) r. b = word_be c @ r \<and> length b = 2 + length r"
  and front_u32: "4 \<le> length b \<Longrightarrow> \<exists>(d :: u32) r. b = word_be d @ r \<and> length b = 4 + length r"
  and front_u64: "8 \<le> length b \<Longrightarrow> \<exists>(e :: u64) r. b = word_be e @ r \<and> length b = 8 + length r"
proof -
  show "\<exists>(a :: u8) r. b = word_be a @ r \<and> length b = 1 + length r" if "1 \<le> length b"
    using that word_be_round(1) [of "take 1 b"]
    by (intro exI [of _ "be_word (take 1 b)"] exI [of _ "drop 1 b"]) simp
  show "\<exists>(c :: u16) r. b = word_be c @ r \<and> length b = 2 + length r" if "2 \<le> length b"
    using that word_be_round(2) [of "take 2 b"]
    by (intro exI [of _ "be_word (take 2 b)"] exI [of _ "drop 2 b"]) simp
  show "\<exists>(d :: u32) r. b = word_be d @ r \<and> length b = 4 + length r" if "4 \<le> length b"
    using that word_be_round(3) [of "take 4 b"]
    by (intro exI [of _ "be_word (take 4 b)"] exI [of _ "drop 4 b"]) simp
  show "\<exists>(e :: u64) r. b = word_be e @ r \<and> length b = 8 + length r" if "8 \<le> length b"
    using that word_be_round(4) [of "take 8 b"]
    by (intro exI [of _ "be_word (take 8 b)"] exI [of _ "drop 8 b"]) simp
qed

text \<open>Words read as numbers: the additions and conversions that do not wrap.\<close>

lemma unat_of_nat_u32: "n < 2 ^ 32 \<Longrightarrow> unat (of_nat n :: u32) = n"
  by (simp add: unat_of_nat)

lemma unat_of_nat_u64: "n < 2 ^ 64 \<Longrightarrow> unat (of_nat n :: u64) = n"
  by (simp add: unat_of_nat)

lemma unat_add_u64: "unat a + unat b < 2 ^ 64 \<Longrightarrow> unat (a + b :: u64) = unat a + unat b"
  by (simp add: unat_word_ariths)

lemma unat_u64_less: "unat (a :: u64) < 2 ^ 64"
  using unsigned_less [of a] by simp

lemma unat_u32_less: "unat (a :: u32) < 2 ^ 32"
  using unsigned_less [of a] by simp

end
