(* ===== verification/Ruka_Channel.thy ===== *)
theory Ruka_Channel
  imports Ruka_Prelude
begin

text \<open>
  The bounded channels of \<open>tokio::sync::mpsc\<close>, a library: its operations are a parameter of the
  model. A channel is made with a capacity, and making one panics for a capacity of 0 or beyond
  the limit of the library; a send waits while the channel is full and a receive while it is
  empty. The two texts are what the library prints for a send to, and a receive from, a channel
  whose other end is gone.

  The locale states the documented behaviour that the broker relies on: the messages arrive in
  the order in which they were sent.
\<close>

record ('c, 'q) chan_ops =
  ch_new :: "nat \<Rightarrow> 'q option"
  ch_send :: "'c \<Rightarrow> 'q \<Rightarrow> 'q option"
  ch_recv :: "'q \<Rightarrow> ('c \<times> 'q) option"
  ch_send_error :: string
  ch_recv_error :: string

definition max_permits :: nat where
  "max_permits = 2 ^ 61 - 1"

locale tokio_channel =
  fixes ch :: "('c, 'q) chan_ops"
    and items :: "'q \<Rightarrow> 'c list"
    and capacity :: "'q \<Rightarrow> nat"
  assumes new_zero: "ch_new ch 0 = None"
    and new_some: "0 < n \<Longrightarrow> n \<le> max_permits \<Longrightarrow> \<exists>q. ch_new ch n = Some q"
    and new_empty: "ch_new ch n = Some q \<Longrightarrow> items q = [] \<and> capacity q = n"
    and send_full: "capacity q \<le> length (items q) \<Longrightarrow> ch_send ch c q = None"
    and send_room: "length (items q) < capacity q \<Longrightarrow>
      \<exists>q'. ch_send ch c q = Some q' \<and> items q' = items q @ [c] \<and> capacity q' = capacity q"
    and recv_empty: "items q = [] \<Longrightarrow> ch_recv ch q = None"
    and recv_first: "items q = c # cs \<Longrightarrow>
      \<exists>q'. ch_recv ch q = Some (c, q') \<and> items q' = cs \<and> capacity q' = capacity q"
begin

lemma send_cases:
  obtains "ch_send ch c q = None" "capacity q \<le> length (items q)"
  | q' where "ch_send ch c q = Some q'" "items q' = items q @ [c]" "capacity q' = capacity q"
      "length (items q) < capacity q"
proof (cases "length (items q) < capacity q")
  case True
  then show ?thesis
    using send_room [OF True, of c] that(2) by blast
next
  case False
  then show ?thesis
    using send_full [of q c] that(1) by simp
qed

lemma recv_cases:
  obtains "ch_recv ch q = None" "items q = []"
  | c q' where "ch_recv ch q = Some (c, q')" "items q = c # items q'" "capacity q' = capacity q"
proof (cases "items q")
  case Nil
  then show ?thesis
    using recv_empty by (intro that(1))
next
  case (Cons c cs)
  from recv_first [OF Cons] obtain q' where "ch_recv ch q = Some (c, q')" "items q' = cs" "capacity q' = capacity q"
    by blast
  with Cons show ?thesis
    by (intro that(2) [of c q']) simp_all
qed

text \<open>A send keeps the channel within its capacity, and what is received was the oldest message.\<close>

lemma send_within: "ch_send ch c q = Some q' \<Longrightarrow>
    items q' = items q @ [c] \<and> capacity q' = capacity q \<and> length (items q') \<le> capacity q'"
  by (rule send_cases [of c q]) auto

lemma recv_oldest: "ch_recv ch q = Some (c, q') \<Longrightarrow> items q = c # items q' \<and> capacity q' = capacity q"
  by (rule recv_cases [of q]) auto

end

text \<open>A channel as its capacity and its messages.\<close>

definition list_chan :: "('c, nat \<times> 'c list) chan_ops" where
  "list_chan =
     \<lparr> ch_new = (\<lambda>n. if 0 < n \<and> n \<le> max_permits then Some (n, []) else None),
       ch_send = (\<lambda>c (n, cs). if length cs < n then Some (n, cs @ [c]) else None),
       ch_recv = (\<lambda>(n, cs). case cs of [] \<Rightarrow> None | c # cs' \<Rightarrow> Some (c, (n, cs'))),
       ch_send_error = ''channel closed'', ch_recv_error = ''channel closed'' \<rparr>"

lemma list_chan_simps [simp]:
  "ch_new list_chan n = (if 0 < n \<and> n \<le> max_permits then Some (n, []) else None)"
  "ch_send list_chan c q = (if length (snd q) < fst q then Some (fst q, snd q @ [c]) else None)"
  "ch_recv list_chan q = (case snd q of [] \<Rightarrow> None | c # cs \<Rightarrow> Some (c, (fst q, cs)))"
  by (simp_all add: list_chan_def case_prod_beta)

interpretation listq: tokio_channel list_chan snd fst
  by unfold_locales (auto split: if_splits)

end
