(* ===== verification/Ruka_Bytes.thy ===== *)
theory Ruka_Bytes
  imports Ruka_Prelude
begin

text \<open>
  The interface of the \<open>bytes\<close> crate, as far as the broker uses it. The crate is not part
  of the repository: its functions are a parameter of every definition that calls them,
  and the locale \<open>bytes_crate\<close> states their documented behaviour. A buffer (\<open>Bytes\<close>,
  \<open>BytesMut\<close>) is its sequence of unread bytes. Writers take the value and the buffer and
  return the extended buffer; readers return the value with the remaining buffer, and
  \<open>None\<close> where the documentation says that they panic.
\<close>

record bytes_ops =
  put_u8 :: "u8 \<Rightarrow> bytes \<Rightarrow> bytes"
  put_u16 :: "u16 \<Rightarrow> bytes \<Rightarrow> bytes"
  put_u32 :: "u32 \<Rightarrow> bytes \<Rightarrow> bytes"
  put_u64 :: "u64 \<Rightarrow> bytes \<Rightarrow> bytes"
  put_slice :: "bytes \<Rightarrow> bytes \<Rightarrow> bytes"
  get_u8 :: "bytes \<Rightarrow> (u8 \<times> bytes) option"
  get_u16 :: "bytes \<Rightarrow> (u16 \<times> bytes) option"
  get_u32 :: "bytes \<Rightarrow> (u32 \<times> bytes) option"
  get_u64 :: "bytes \<Rightarrow> (u64 \<times> bytes) option"
  advance :: "nat \<Rightarrow> bytes \<Rightarrow> bytes option"
  split_to :: "nat \<Rightarrow> bytes \<Rightarrow> (bytes \<times> bytes) option"
  copy_to_bytes :: "nat \<Rightarrow> bytes \<Rightarrow> (bytes \<times> bytes) option"

text \<open>
  Documented behaviour: integers are written and read in big-endian order, \<open>put_slice\<close>
  appends, \<open>advance\<close>, \<open>split_to\<close> and \<open>copy_to_bytes\<close> take bytes from the front; a
  reader panics when fewer bytes remain than it needs.
\<close>

locale bytes_crate =
  fixes bx :: bytes_ops
  assumes put_u8: "put_u8 bx a b = b @ word_be a"
    and put_u16: "put_u16 bx c b = b @ word_be c"
    and put_u32: "put_u32 bx d b = b @ word_be d"
    and put_u64: "put_u64 bx e b = b @ word_be e"
    and put_slice: "put_slice bx s b = b @ s"
    and get_u8: "get_u8 bx b = (if length b < 1 then None else Some (be_word (take 1 b), drop 1 b))"
    and get_u16: "get_u16 bx b = (if length b < 2 then None else Some (be_word (take 2 b), drop 2 b))"
    and get_u32: "get_u32 bx b = (if length b < 4 then None else Some (be_word (take 4 b), drop 4 b))"
    and get_u64: "get_u64 bx b = (if length b < 8 then None else Some (be_word (take 8 b), drop 8 b))"
    and advance: "advance bx n b = (if length b < n then None else Some (drop n b))"
    and split_to: "split_to bx n b = (if length b < n then None else Some (take n b, drop n b))"
    and copy_to_bytes: "copy_to_bytes bx n b = (if length b < n then None else Some (take n b, drop n b))"
begin

lemmas writer_laws = put_u8 put_u16 put_u32 put_u64 put_slice

lemmas reader_laws = get_u8 get_u16 get_u32 get_u64 advance split_to copy_to_bytes

text \<open>What a writer appended, the matching reader takes off again.\<close>

lemma read_back:
  "get_u8 bx (word_be a @ r) = Some (a, r)"
  "get_u16 bx (word_be c @ r) = Some (c, r)"
  "get_u32 bx (word_be d @ r) = Some (d, r)"
  "get_u64 bx (word_be e @ r) = Some (e, r)"
  by (simp_all add: reader_laws be_simps)

lemma read_back_end:
  "get_u32 bx (word_be d) = Some (d, [])" "get_u64 bx (word_be e) = Some (e, [])"
  using read_back(3) [of d "[]"] read_back(4) [of e "[]"] by simp_all

lemma split_back: "split_to bx (length s) (s @ r) = Some (s, r)"
  and copy_back: "copy_to_bytes bx (length s) (s @ r) = Some (s, r)"
  by (simp_all add: reader_laws)

lemma advance_back: "advance bx (length s) (s @ r) = Some r"
  by (simp add: reader_laws)

text \<open>Conversely, a read that succeeds splits the buffer at the field it returns.\<close>

lemma get_u8_Some: "get_u8 bx b = Some (a, r) \<longleftrightarrow> b = word_be a @ r"
  and get_u16_Some: "get_u16 bx b = Some (c, r) \<longleftrightarrow> b = word_be c @ r"
  and get_u32_Some: "get_u32 bx b = Some (d, r) \<longleftrightarrow> b = word_be d @ r"
  and get_u64_Some: "get_u64 bx b = Some (e, r) \<longleftrightarrow> b = word_be e @ r"
  by (auto simp: reader_laws be_simps word_be_round Suc_le_eq split: if_splits)

lemma split_to_Some: "split_to bx n b = Some (s, r) \<longleftrightarrow> b = s @ r \<and> length s = n"
  and copy_to_bytes_Some: "copy_to_bytes bx n b = Some (s, r) \<longleftrightarrow> b = s @ r \<and> length s = n"
  by (auto simp: reader_laws split: if_splits)

lemma advance_length: "advance bx n b = Some r \<Longrightarrow> length b = n + length r"
  by (auto simp: reader_laws split: if_splits)

end

text \<open>An implementation of the interface on byte lists.\<close>

definition take_front :: "nat \<Rightarrow> bytes \<Rightarrow> (bytes \<times> bytes) option" where
  "take_front n b = (if length b < n then None else Some (take n b, drop n b))"

definition be_ops :: bytes_ops where
  "be_ops =
     \<lparr> put_u8 = (\<lambda>v b. b @ word_be v), put_u16 = (\<lambda>v b. b @ word_be v),
       put_u32 = (\<lambda>v b. b @ word_be v), put_u64 = (\<lambda>v b. b @ word_be v),
       put_slice = (\<lambda>s b. b @ s),
       get_u8 = (\<lambda>b. map_option (apfst be_word) (take_front 1 b)),
       get_u16 = (\<lambda>b. map_option (apfst be_word) (take_front 2 b)),
       get_u32 = (\<lambda>b. map_option (apfst be_word) (take_front 4 b)),
       get_u64 = (\<lambda>b. map_option (apfst be_word) (take_front 8 b)),
       advance = (\<lambda>n b. map_option snd (take_front n b)),
       split_to = take_front, copy_to_bytes = take_front \<rparr>"

interpretation be: bytes_crate be_ops
  by unfold_locales (simp_all add: be_ops_def take_front_def)

end
