(* ===== verification/Ruka_Text.thy ===== *)
theory Ruka_Text
  imports Ruka_Prelude
begin

text \<open>
  The text functions of the Rust standard library that the broker uses. A \<open>String\<close> is
  its UTF-8 bytes, one \<open>char\<close> of HOL (eight bits) per byte. Here are the conversion to
  and from bytes, UTF-8 validation (\<open>std::str::from_utf8\<close>), decimal printing
  (\<open>{}\<close> and \<open>{:020}\<close>), hexadecimal printing (\<open>{:02X}\<close>) and \<open>str::parse\<close> for
  unsigned integers.
\<close>

definition as_bytes :: "string \<Rightarrow> bytes" where
  "as_bytes s = map (\<lambda>c. of_nat (of_char c)) s"

definition from_bytes :: "bytes \<Rightarrow> string" where
  "from_bytes bs = map (\<lambda>b. char_of (unat b)) bs"

lemma length_as_bytes [simp]: "length (as_bytes s) = length s"
  by (simp add: as_bytes_def)

lemma length_from_bytes [simp]: "length (from_bytes s) = length s"
  by (simp add: from_bytes_def)

lemma as_bytes_Nil_iff [simp]: "as_bytes s = [] \<longleftrightarrow> s = []"
  by (simp add: as_bytes_def)

lemma from_bytes_Nil_iff [simp]: "from_bytes bs = [] \<longleftrightarrow> bs = []"
  by (simp add: from_bytes_def)

lemma from_bytes_as_bytes [simp]: "from_bytes (as_bytes s) = s"
proof -
  have "char_of (unat (of_nat (of_char c) :: u8)) = c" for c :: char
    by (simp add: unat_of_nat)
  then show ?thesis
    by (simp add: from_bytes_def as_bytes_def comp_def)
qed

lemma as_bytes_from_bytes [simp]: "as_bytes (from_bytes bs) = bs"
proof -
  have "unat b mod 256 = unat b" for b :: u8
    using unat_u8_lt [of b] by simp
  then have "(of_nat (of_char (char_of (unat b)) :: nat) :: u8) = b" for b
    by simp
  then show ?thesis
    by (simp add: from_bytes_def as_bytes_def comp_def)
qed

section \<open>UTF-8\<close>

definition in_range :: "u8 \<Rightarrow> nat \<Rightarrow> nat \<Rightarrow> bool" where
  "in_range b lo hi \<longleftrightarrow> lo \<le> unat b \<and> unat b \<le> hi"

text \<open>The second byte that a three-byte or four-byte lead accepts.\<close>

definition utf8_second :: "u8 \<Rightarrow> u8 \<Rightarrow> bool" where
  "utf8_second a b \<longleftrightarrow>
     (if unat a = 224 then in_range b 160 191
      else if unat a = 237 then in_range b 128 159
      else if unat a = 240 then in_range b 144 191
      else if unat a = 244 then in_range b 128 143
      else in_range b 128 191)"

fun utf8_valid :: "bytes \<Rightarrow> bool" where
  "utf8_valid [] = True"
| "utf8_valid (a # r) =
     (if unat a < 128 then utf8_valid r
      else if in_range a 194 223 then
        (case r of b # r' \<Rightarrow> in_range b 128 191 \<and> utf8_valid r' | _ \<Rightarrow> False)
      else if in_range a 224 239 then
        (case r of b # c # r' \<Rightarrow> utf8_second a b \<and> in_range c 128 191 \<and> utf8_valid r' | _ \<Rightarrow> False)
      else if in_range a 240 244 then
        (case r of b # c # d # r' \<Rightarrow>
           utf8_second a b \<and> in_range c 128 191 \<and> in_range d 128 191 \<and> utf8_valid r' | _ \<Rightarrow> False)
      else False)"

text \<open>The content of a \<open>String\<close> is valid UTF-8.\<close>

definition valid_string :: "string \<Rightarrow> bool" where
  "valid_string s \<longleftrightarrow> utf8_valid (as_bytes s)"

lemma utf8_valid_ascii: "(\<And>b. b \<in> set bs \<Longrightarrow> unat b < 128) \<Longrightarrow> utf8_valid bs"
  by (induction bs) simp_all

section \<open>Printing numbers\<close>

definition digit :: "nat \<Rightarrow> char" where
  "digit d = char_of (48 + d)"

fun show_nat :: "nat \<Rightarrow> string" where
  "show_nat n = (if n < 10 then [digit n] else show_nat (n div 10) @ [digit (n mod 10)])"

declare show_nat.simps [simp del]

definition show_020 :: "nat \<Rightarrow> string" where
  "show_020 n = replicate (20 - length (show_nat n)) (digit 0) @ show_nat n"

definition hex_digit :: "nat \<Rightarrow> char" where
  "hex_digit d = (if d < 10 then char_of (48 + d) else char_of (55 + d))"

definition show_02X :: "u8 \<Rightarrow> string" where
  "show_02X b = [hex_digit (unat b div 16), hex_digit (unat b mod 16)]"

section \<open>Parsing numbers\<close>

definition digit_value :: "char \<Rightarrow> nat option" where
  "digit_value c =
     (let n = of_char c in if 48 \<le> n \<and> n \<le> 57 then Some (n - 48) else None)"

fun parse_digits :: "nat \<Rightarrow> string \<Rightarrow> nat option" where
  "parse_digits acc [] = Some acc"
| "parse_digits acc (c # cs) =
     (case digit_value c of None \<Rightarrow> None | Some d \<Rightarrow> parse_digits (10 * acc + d) cs)"

text \<open>
  \<open>parse\<close> accepts an optional leading plus sign and at least one digit, and fails when
  the number does not fit the type (\<open>bound\<close> is the first number that does not).
\<close>

definition parse_uint :: "nat \<Rightarrow> string \<Rightarrow> nat option" where
  "parse_uint bound s =
     (let ds = (case s of [] \<Rightarrow> [] | c # cs \<Rightarrow> if c = CHR ''+'' then cs else s)
      in if ds = [] then None
         else case parse_digits 0 ds of
                None \<Rightarrow> None
              | Some n \<Rightarrow> if n < bound then Some n else None)"

definition parse_u64 :: "string \<Rightarrow> u64 option" where
  "parse_u64 s = map_option of_nat (parse_uint (2 ^ 64) s)"

definition parse_u32 :: "string \<Rightarrow> u32 option" where
  "parse_u32 s = map_option of_nat (parse_uint (2 ^ 32) s)"

section \<open>Printed numbers read back\<close>

lemma digit_value_digit [simp]: "d < 10 \<Longrightarrow> digit_value (digit d) = Some d"
  by (simp add: digit_value_def digit_def Let_def)

lemma digit_not_plus [simp]:
  assumes "d < 10"
  shows "digit d \<noteq> CHR ''+''"
proof
  assume "digit d = CHR ''+''"
  then have "(of_char (digit d) :: nat) = 43"
    by simp
  with assms show False
    by (simp add: digit_def)
qed

lemma parse_digits_append:
  "parse_digits acc (xs @ ys) =
     (case parse_digits acc xs of None \<Rightarrow> None | Some n \<Rightarrow> parse_digits n ys)"
  by (induction xs arbitrary: acc) (auto split: option.split)

lemma show_nat_not_Nil [simp]: "show_nat n \<noteq> []"
  by (subst show_nat.simps) simp

lemma parse_show_nat: "parse_digits 0 (show_nat n) = Some n"
proof (induction n rule: show_nat.induct)
  case (1 n)
  show ?case
  proof (cases "n < 10")
    case False
    with 1 have "parse_digits 0 (show_nat (n div 10)) = Some (n div 10)"
      by simp
    with False show ?thesis
      by (subst show_nat.simps) (simp add: parse_digits_append)
  qed (subst show_nat.simps, simp)
qed

lemma parse_digits_zeros: "parse_digits 0 (replicate k (digit 0) @ s) = parse_digits 0 s"
  by (induction k) simp_all

lemma hd_show_nat: "\<exists>d < 10. hd (show_nat n) = digit d"
proof (induction n rule: show_nat.induct)
  case (1 n)
  show ?case
  proof (cases "n < 10")
    case False
    with 1 obtain d where "d < 10" "hd (show_nat (n div 10)) = digit d"
      by blast
    with False show ?thesis
      by (subst show_nat.simps) auto
  qed (subst show_nat.simps, auto)
qed

lemma parse_uint_padded:
  assumes "n < bound"
  shows "parse_uint bound (replicate k (digit 0) @ show_nat n) = Some n"
proof -
  obtain d where d: "d < 10" "hd (show_nat n) = digit d"
    using hd_show_nat by blast
  obtain cs where cs: "show_nat n = digit d # cs"
    using d(2) by (metis list.collapse show_nat_not_Nil)
  have val: "parse_digits 0 (replicate k (digit 0) @ show_nat n) = Some n"
    by (simp add: parse_digits_zeros parse_show_nat)
  show ?thesis
    using val assms d(1) cs
    by (cases k) (simp_all add: parse_uint_def Let_def del: parse_digits.simps)
qed

lemma parse_u64_show_020 [simp]: "parse_u64 (show_020 (unat n)) = Some n"
  using parse_uint_padded [of "unat n" "2 ^ 64"] unat_u64_less [of n]
  by (simp add: parse_u64_def show_020_def)

lemma parse_u32_show_nat [simp]: "parse_u32 (show_nat (unat n)) = Some n"
  using parse_uint_padded [of "unat n" "2 ^ 32" 0] unat_u32_less [of n]
  by (simp add: parse_u32_def)

lemma show_020_inj: "show_020 (unat (m :: u64)) = show_020 (unat n) \<longleftrightarrow> m = n"
  by (metis option.inject parse_u64_show_020)

end
