(* ===== verification/Ruka_Types.thy ===== *)
theory Ruka_Types
  imports Ruka_Text
begin

text \<open>
  The types every component shares: errors (\<open>error.rs\<close>), API keys and error codes
  (\<open>protocol/types.rs\<close>), and the configuration (\<open>config.rs\<close>).
\<close>

section \<open>Errors\<close>

text \<open>
  An operating-system error has a kind, which the code never inspects beyond the failure
  itself, and the message it is displayed with.
\<close>

datatype io_kind =
    NotFound | NotADirectory | IsADirectory | InvalidInput | UnexpectedEof | StorageFull | OtherKind

datatype io_error = Io_Error io_kind string

datatype ruka_error =
    InvalidMagicByte u8
  | InvalidFrame string
  | UnknownApiKey u16
  | FrameTooShort nat nat
  | InvalidTopicName
  | MessageTooLarge
  | FrameTooLarge nat nat
  | SegmentFull u64 u64
  | OffsetNotFound u64
  | CorruptedIndex u64
  | PartitionNotFound string u32
  | Io io_error
  | ConnectionReset
  | WriteFailed string

type_synonym 'a res = "(ruka_error, 'a) outcome"

fun error_to_string :: "ruka_error \<Rightarrow> string" where
  "error_to_string (InvalidMagicByte b) =
     ''invalid magic byte: expected 0xCA, got 0x'' @ show_02X b"
| "error_to_string (InvalidFrame m) = ''invalid frame: '' @ m"
| "error_to_string (UnknownApiKey k) = ''unknown API key: '' @ show_nat (unat k)"
| "error_to_string (FrameTooShort needed have) =
     ''frame too short: need '' @ show_nat needed @ '' bytes, have '' @ show_nat have"
| "error_to_string InvalidTopicName =
     ''Topic name is invalid (not UTF-8 or exceeds max length)''"
| "error_to_string MessageTooLarge = ''Message is too large to fit in a segment''"
| "error_to_string (FrameTooLarge mx got) =
     ''frame exceeds maximum size of '' @ show_nat mx @ '' bytes (got '' @ show_nat got @ '')''"
| "error_to_string (SegmentFull current mx) =
     ''segment is full (current: '' @ show_nat (unat current) @ '' bytes, max: ''
       @ show_nat (unat mx) @ '' bytes)''"
| "error_to_string (OffsetNotFound off) =
     ''offset '' @ show_nat (unat off) @ '' not found in any segment''"
| "error_to_string (CorruptedIndex pos) =
     ''corrupted index entry at position '' @ show_nat (unat pos)"
| "error_to_string (PartitionNotFound t p) =
     ''partition '' @ t @ ''/'' @ show_nat (unat p) @ '' does not exist''"
| "error_to_string (Io e) = ''I/O error: '' @ (case e of Io_Error k m \<Rightarrow> m)"
| "error_to_string ConnectionReset = ''connection reset by peer''"
| "error_to_string (WriteFailed m) = ''write failed: '' @ m"

section \<open>Protocol constants and keys\<close>

definition MAGIC_BYTE :: u8 where "MAGIC_BYTE = 0xCA"

definition MAX_FRAME_SIZE :: nat where "MAX_FRAME_SIZE = 16 * 1024 * 1024"

definition MIN_HEADER_SIZE :: nat where "MIN_HEADER_SIZE = 17"

datatype api_key = Produce | Fetch | ProduceBatch | Error

definition api_key_try_from :: "u16 \<Rightarrow> api_key res" where
  "api_key_try_from value =
     (if value = 1 then Ok Produce
      else if value = 2 then Ok Fetch
      else if value = 3 then Ok ProduceBatch
      else if value = 4 then Ok Error
      else Err (UnknownApiKey value))"

fun as_u16 :: "api_key \<Rightarrow> u16" where
  "as_u16 Produce = 1"
| "as_u16 Fetch = 2"
| "as_u16 ProduceBatch = 3"
| "as_u16 Error = 4"

fun api_key_to_string :: "api_key \<Rightarrow> string" where
  "api_key_to_string Produce = ''PRODUCE''"
| "api_key_to_string Fetch = ''FETCH''"
| "api_key_to_string ProduceBatch = ''PRODUCE_BATCH''"
| "api_key_to_string Error = ''ERROR''"

datatype error_code =
    EC_None | EC_UnknownApiKey | EC_InvalidFrame | EC_OffsetNotFound | EC_PartitionNotFound
  | EC_StorageError | EC_MessageTooLarge | EC_ServerError

fun error_code_as_u16 :: "error_code \<Rightarrow> u16" where
  "error_code_as_u16 EC_None = 0"
| "error_code_as_u16 EC_UnknownApiKey = 1"
| "error_code_as_u16 EC_InvalidFrame = 2"
| "error_code_as_u16 EC_OffsetNotFound = 3"
| "error_code_as_u16 EC_PartitionNotFound = 4"
| "error_code_as_u16 EC_StorageError = 5"
| "error_code_as_u16 EC_MessageTooLarge = 6"
| "error_code_as_u16 EC_ServerError = 7"

definition error_code_from_u16 :: "u16 \<Rightarrow> error_code" where
  "error_code_from_u16 value =
     (if value = 0 then EC_None
      else if value = 1 then EC_UnknownApiKey
      else if value = 2 then EC_InvalidFrame
      else if value = 3 then EC_OffsetNotFound
      else if value = 4 then EC_PartitionNotFound
      else if value = 5 then EC_StorageError
      else if value = 6 then EC_MessageTooLarge
      else EC_ServerError)"

fun error_code_from_error :: "ruka_error \<Rightarrow> error_code" where
  "error_code_from_error (UnknownApiKey k) = EC_UnknownApiKey"
| "error_code_from_error (InvalidFrame m) = EC_InvalidFrame"
| "error_code_from_error (InvalidMagicByte b) = EC_InvalidFrame"
| "error_code_from_error (FrameTooShort n h) = EC_InvalidFrame"
| "error_code_from_error (FrameTooLarge n h) = EC_MessageTooLarge"
| "error_code_from_error MessageTooLarge = EC_MessageTooLarge"
| "error_code_from_error InvalidTopicName = EC_InvalidFrame"
| "error_code_from_error (OffsetNotFound off) = EC_OffsetNotFound"
| "error_code_from_error (PartitionNotFound t p) = EC_PartitionNotFound"
| "error_code_from_error (SegmentFull c m) = EC_StorageError"
| "error_code_from_error (CorruptedIndex p) = EC_StorageError"
| "error_code_from_error (Io e) = EC_StorageError"
| "error_code_from_error ConnectionReset = EC_ServerError"
| "error_code_from_error (WriteFailed m) = EC_ServerError"

lemma api_key_round [simp]: "api_key_try_from (as_u16 k) = Ok k"
  by (cases k) (simp_all add: api_key_try_from_def)

lemma api_key_try_from_Ok: "api_key_try_from v = Ok k \<longleftrightarrow> v = as_u16 k"
  by (cases k) (auto simp: api_key_try_from_def)

lemma api_key_no_panic [simp]: "api_key_try_from v \<noteq> Panic"
  by (simp add: api_key_try_from_def)

lemma error_code_round [simp]: "error_code_from_u16 (error_code_as_u16 c) = c"
  by (cases c) (simp_all add: error_code_from_u16_def)

section \<open>Configuration\<close>

datatype sync_level = SyncNone | SyncLog | SyncLogAndIndex

record broker_config =
  port :: u16
  host :: string
  data_dir :: string
  segment_max_bytes :: u64
  default_partitions :: u32
  cfg_sync_level :: sync_level
  channel_capacity :: nat

definition broker_config_default :: broker_config where
  "broker_config_default =
     \<lparr> port = 9092, host = ''127.0.0.1'', data_dir = ''./data'',
       segment_max_bytes = 10 * 1024 * 1024, default_partitions = 1,
       cfg_sync_level = SyncLogAndIndex, channel_capacity = 1024 \<rparr>"

end
