(* ===== verification/Ruka_Record.thy ===== *)
theory Ruka_Record
  imports Ruka_Bytes Ruka_Types
begin

text \<open>
  Log records: \<open>Record\<close> of \<open>storage/segment.rs\<close>. A missing key or value is written as the
  length \<open>u32::MAX\<close>. The decoder trusts the lengths inside a record: it checks that the
  buffer holds the announced record, but reads key and value with calls that panic when
  their own lengths reach past the buffer.
\<close>

record log_record =
  lr_offset :: u64
  lr_timestamp_ms :: u64
  lr_key :: "bytes option"
  lr_value :: "bytes option"

definition opt_len :: "bytes option \<Rightarrow> nat" where
  "opt_len x = (case x of None \<Rightarrow> 0 | Some k \<Rightarrow> length k)"

definition put_opt :: "bytes_ops \<Rightarrow> bytes option \<Rightarrow> bytes \<Rightarrow> bytes" where
  "put_opt bx x dst =
     (case x of
        Some k \<Rightarrow> put_slice bx k (put_u32 bx (of_nat (length k)) dst)
      | None \<Rightarrow> put_u32 bx 0xFFFFFFFF dst)"

definition record_encode :: "bytes_ops \<Rightarrow> log_record \<Rightarrow> bytes \<Rightarrow> bytes" where
  "record_encode bx r dst =
     (let key_len = opt_len (lr_key r);
          val_len = opt_len (lr_value r);
          record_len = 4 + 8 + 8 + 4 + key_len + 4 + val_len;
          dst = put_u32 bx (of_nat record_len) dst;
          dst = put_u64 bx (lr_offset r) dst;
          dst = put_u64 bx (lr_timestamp_ms r) dst;
          dst = put_opt bx (lr_key r) dst
      in put_opt bx (lr_value r) dst)"

definition get_opt :: "bytes_ops \<Rightarrow> bytes \<Rightarrow> (bytes option \<times> bytes) res" where
  "get_opt bx src =
     obind (must (get_u32 bx src)) (\<lambda>(len, src).
     if len = 0xFFFFFFFF then Ok (None, src)
     else obind (must (split_to bx (unat len) src)) (\<lambda>(k, src). Ok (Some k, src)))"

text \<open>\<open>Record::decode\<close> once the buffer is known to hold the announced record.\<close>

definition record_decode_body :: "bytes_ops \<Rightarrow> bytes \<Rightarrow> (log_record \<times> bytes) res" where
  "record_decode_body bx src =
     obind (must (advance bx 4 src)) (\<lambda>src.
     obind (must (get_u64 bx src)) (\<lambda>(offset, src).
     obind (must (get_u64 bx src)) (\<lambda>(timestamp_ms, src).
     obind (get_opt bx src) (\<lambda>(key, src).
     obind (get_opt bx src) (\<lambda>(val, src).
     Ok (\<lparr> lr_offset = offset, lr_timestamp_ms = timestamp_ms, lr_key = key, lr_value = val \<rparr>,
         src))))))"

definition record_decode :: "bytes_ops \<Rightarrow> bytes \<Rightarrow> log_record option res \<times> bytes" where
  "record_decode bx src =
     (if length src < 4 then (Ok None, src)
      else case get_u32 bx src of
        None \<Rightarrow> (Panic, src)
      | Some (len, _) \<Rightarrow>
         (let record_len = unat len in
          if record_len < 28 then (Err (InvalidFrame ''Record length too small''), src)
          else if length src < record_len then (Ok None, src)
          else case record_decode_body bx src of
            Ok (r, src) \<Rightarrow> (Ok (Some r), src)
          | Err e \<Rightarrow> (Err e, src)
          | Panic \<Rightarrow> (Panic, src)))"

section \<open>The layout of a record\<close>

definition record_len :: "log_record \<Rightarrow> nat" where
  "record_len r = 28 + opt_len (lr_key r) + opt_len (lr_value r)"

definition opt_field :: "bytes option \<Rightarrow> bytes" where
  "opt_field x =
     (case x of Some k \<Rightarrow> word_be (of_nat (length k) :: u32) @ k | None \<Rightarrow> word_be (0xFFFFFFFF :: u32))"

definition record_bytes :: "log_record \<Rightarrow> bytes" where
  "record_bytes r =
     word_be (of_nat (record_len r) :: u32) @ word_be (lr_offset r) @ word_be (lr_timestamp_ms r) @
     opt_field (lr_key r) @ opt_field (lr_value r)"

text \<open>The records whose length fits the 32-bit length field.\<close>

definition wf_record :: "log_record \<Rightarrow> bool" where
  "wf_record r \<longleftrightarrow> record_len r < 2 ^ 32"

lemma length_opt_field [simp]: "length (opt_field x) = 4 + opt_len x"
  by (simp add: opt_field_def opt_len_def split: option.split)

lemma length_record_bytes [simp]: "length (record_bytes r) = record_len r"
  by (simp add: record_bytes_def record_len_def)

lemma record_len_ge: "28 \<le> record_len r"
  by (simp add: record_len_def)

lemma record_bytes_not_Nil [simp]: "record_bytes r \<noteq> []"
  by (simp add: record_bytes_def)

lemma record_len_u32: "wf_record r \<Longrightarrow> unat (of_nat (record_len r) :: u32) = record_len r"
  by (simp add: wf_record_def unat_of_nat_u32)

lemma take_record_bytes: "4 \<le> n \<Longrightarrow> take 4 (take n (record_bytes r)) = word_be (of_nat (record_len r) :: u32)"
  by (simp add: record_bytes_def min_def)

context bytes_crate
begin

lemma record_encode_eq: "record_encode bx r dst = dst @ record_bytes r"
  by (simp add: record_encode_def put_opt_def record_bytes_def opt_field_def opt_len_def record_len_def
      writer_laws Let_def add.assoc split: option.split)

lemma get_opt_field:
  assumes "opt_len x < 0xFFFFFFFF"
  shows "get_opt bx (opt_field x @ rest) = Ok (x, rest)"
proof (cases x)
  case (Some k)
  have len: "length k < 0xFFFFFFFF"
    using assms Some by (simp add: opt_len_def)
  then have u: "unat (of_nat (length k) :: u32) = length k"
    by (intro unat_of_nat_u32) simp
  have "(of_nat (length k) :: u32) \<noteq> 0xFFFFFFFF"
  proof
    assume "(of_nat (length k) :: u32) = 0xFFFFFFFF"
    then have "unat (of_nat (length k) :: u32) = 0xFFFFFFFF" by simp
    with u len show False by simp
  qed
  then show ?thesis
    using Some u by (simp add: get_opt_def opt_field_def read_back split_back)
qed (simp add: get_opt_def opt_field_def read_back)

lemma record_decode_bytes:
  assumes "wf_record r"
  shows "record_decode bx (record_bytes r @ rest) = (Ok (Some r), rest)"
proof -
  have "opt_len (lr_key r) < 0xFFFFFFFF" "opt_len (lr_value r) < 0xFFFFFFFF"
    using assms by (simp_all add: wf_record_def record_len_def)
  note fields = this [THEN get_opt_field]
  have skip: "advance bx 4 (word_be (of_nat (record_len r) :: u32) @ b) = Some b" for b
    using advance_back [of "word_be (of_nat (record_len r) :: u32)" b] by simp
  have "record_decode_body bx (record_bytes r @ rest) = Ok (r, rest)"
    by (simp add: record_decode_body_def record_bytes_def skip read_back fields)
  moreover have "get_u32 bx (record_bytes r @ rest) =
      Some (of_nat (record_len r), drop 4 (record_bytes r @ rest))"
    by (simp add: record_bytes_def read_back be_simps)
  ultimately show ?thesis
    using record_len_ge [of r] record_len_u32 [OF assms]
    by (simp add: record_decode_def Let_def)
qed

text \<open>A record that is cut off is reported as incomplete and left in the buffer.\<close>

lemma record_decode_prefix:
  assumes "wf_record r" "n < record_len r"
  shows "record_decode bx (take n (record_bytes r)) = (Ok None, take n (record_bytes r))"
proof (cases "n < 4")
  case True
  then have "length (take n (record_bytes r)) < 4" by simp
  then show ?thesis by (simp add: record_decode_def)
next
  case False
  have "take 4 (take n (record_bytes r)) = word_be (of_nat (record_len r) :: u32)"
    using False by (intro take_record_bytes) simp
  then have "get_u32 bx (take n (record_bytes r)) =
      Some (of_nat (record_len r), drop 4 (take n (record_bytes r)))"
    using False assms(2) by (simp add: get_u32 be_simps)
  then show ?thesis
    using False assms record_len_ge [of r] record_len_u32 [OF assms(1)]
    by (simp add: record_decode_def Let_def)
qed

text \<open>What a successful decode consumed.\<close>

lemma get_opt_length:
  assumes "get_opt bx b = Ok (x, r)"
  shows "length b = 4 + opt_len x + length r"
  using assms
  by (auto simp: get_opt_def obind_eq_Ok must_eq_Ok get_u32_Some split_to_Some opt_len_def
      split: if_splits)

lemma record_decode_length:
  assumes "record_decode bx b = (Ok (Some r), rest)"
  shows "length b = record_len r + length rest"
proof -
  from assms have "record_decode_body bx b = Ok (r, rest)"
    by (auto simp: record_decode_def Let_def split: if_splits option.splits outcome.splits)
  then obtain b1 off b2 ts b3 key b4 val where
    "advance bx 4 b = Some b1" "get_u64 bx b1 = Some (off, b2)" "get_u64 bx b2 = Some (ts, b3)"
    "get_opt bx b3 = Ok (key, b4)" "get_opt bx b4 = Ok (val, rest)"
    and r: "r = \<lparr> lr_offset = off, lr_timestamp_ms = ts, lr_key = key, lr_value = val \<rparr>"
    by (auto simp: record_decode_body_def obind_eq_Ok must_eq_Ok)
  then show ?thesis
    by (auto simp: get_u64_Some record_len_def dest!: get_opt_length advance_length)
qed

end

text \<open>
  The position in \<open>src\<close> at which the length-prefixed field that starts at \<open>n\<close> ends, and the
  announced records whose key and value reach past the end of the buffer: the decoder does not
  report these as corrupted, it panics on them, and on nothing else.
\<close>

definition field_end :: "nat \<Rightarrow> bytes \<Rightarrow> nat" where
  "field_end n src =
     (let len = be_word (take 4 (drop n src)) :: u32
      in n + 4 + (if len = 0xFFFFFFFF then 0 else unat len))"

definition overlong :: "bytes \<Rightarrow> bool" where
  "overlong src \<longleftrightarrow>
     28 \<le> unat (be_word (take 4 src) :: u32) \<and> unat (be_word (take 4 src) :: u32) \<le> length src \<and>
     length src < field_end (field_end 20 src) src"

lemma field_end_ge: "n + 4 \<le> field_end n src"
  by (simp add: field_end_def Let_def)

context bytes_crate
begin

lemma get_opt_cases:
  "get_opt bx (drop n src) =
    (if length src < field_end n src then Panic
     else Ok (if be_word (take 4 (drop n src)) = (0xFFFFFFFF :: u32) then None
              else Some (take (field_end n src - n - 4) (drop (n + 4) src)), drop (field_end n src) src))"
  by (auto simp: get_opt_def get_u32 split_to field_end_def Let_def add.commute add.left_commute)

lemma record_decode_panics_iff: "fst (record_decode bx src) = Panic \<longleftrightarrow> overlong src"
proof (cases "length src < 28")
  case True
  then show ?thesis
    by (auto simp: record_decode_def get_u32 Let_def overlong_def)
next
  case False
  have "record_decode_body bx src = Panic \<longleftrightarrow> length src < field_end (field_end 20 src) src"
    using False get_opt_cases [of 20 src] get_opt_cases [of "field_end 20 src" src]
      field_end_ge [of "field_end 20 src" src]
    by (auto simp: record_decode_body_def advance get_u64)
  then show ?thesis
    using False
    by (auto simp: record_decode_def get_u32 Let_def overlong_def split: outcome.split)
qed

end

section \<open>Properties of records\<close>

text \<open>C29: A record appended to a buffer and decoded again is the same record, including the
  difference between a missing and an empty key or value, and the decoder consumes exactly
  its bytes; every strict prefix of it is reported as incomplete and left in place.\<close>

theorem record_roundtrip:
  assumes "bytes_crate bx" "wf_record r"
  shows "\<exists>b. record_encode bx r dst = dst @ b \<and>
    record_decode bx (b @ rest) = (Ok (Some r), rest) \<and>
    (\<forall>n < length b. record_decode bx (take n b) = (Ok None, take n b))"
  using bytes_crate.record_decode_bytes [OF assms] bytes_crate.record_decode_prefix [OF assms]
    bytes_crate.record_encode_eq [OF assms(1)]
  by (intro exI [of _ "record_bytes r"]) simp

definition sample_record :: log_record where
  "sample_record = \<lparr> lr_offset = 3, lr_timestamp_ms = 9, lr_key = None, lr_value = Some [] \<rparr>"

theorem record_roundtrip_witness:
  "wf_record sample_record \<and>
   (\<exists>b. record_encode be_ops sample_record [1] = [1] @ b \<and>
     record_decode be_ops (b @ [2]) = (Ok (Some sample_record), [2]) \<and>
     (\<forall>n < length b. record_decode be_ops (take n b) = (Ok None, take n b)))"
proof -
  have "wf_record sample_record"
    by (simp add: wf_record_def record_len_def sample_record_def opt_len_def)
  then show ?thesis
    using record_roundtrip [OF be.bytes_crate_axioms] by blast
qed

end
