(* ===== verification/Ruka_Fs.thy ===== *)
theory Ruka_Fs
  imports Ruka_Types
begin

text \<open>
  The part of \<open>std::fs\<close>, \<open>std::path\<close> and \<open>std::time\<close> that the storage engine uses: a world
  of directories and files, file handles with a cursor, and the calls on them. A file
  remembers what it holds and what of it has been forced to disk.

  A system call may fail and a read may be short. Which calls do is decided by the
  list \<open>choices\<close> of the world: every call takes the next choice, and an exhausted list
  means that the calls succeed. \<open>quiet\<close> is a world without failures.
\<close>

type_synonym path = "string list"

datatype node = DirNode | FileNode bytes bytes

datatype choice = Normal | Fault io_error nat | Short nat

record world =
  nodes :: "(path \<times> node) list"
  choices :: "choice list"
  clock :: u64

record file_handle =
  fpath :: path
  cursor :: nat
  append_mode :: bool

definition quiet :: "world \<Rightarrow> bool" where
  "quiet w \<longleftrightarrow> choices w = []"

definition content :: "world \<Rightarrow> path \<Rightarrow> bytes option" where
  "content w p = (case map_of (nodes w) p of Some (FileNode c d) \<Rightarrow> Some c | _ \<Rightarrow> None)"

definition durable :: "world \<Rightarrow> path \<Rightarrow> bytes option" where
  "durable w p = (case map_of (nodes w) p of Some (FileNode c d) \<Rightarrow> Some d | _ \<Rightarrow> None)"

definition is_dir :: "world \<Rightarrow> path \<Rightarrow> bool" where
  "is_dir w p \<longleftrightarrow> p = [] \<or> map_of (nodes w) p = Some DirNode"

definition path_exists :: "world \<Rightarrow> path \<Rightarrow> bool" where
  "path_exists w p \<longleftrightarrow> p = [] \<or> map_of (nodes w) p \<noteq> None"

definition set_node :: "path \<Rightarrow> node \<Rightarrow> world \<Rightarrow> world" where
  "set_node p n w = w \<lparr> nodes := AList.update p n (nodes w) \<rparr>"

definition bytes_at :: "world \<Rightarrow> path \<Rightarrow> bytes" where
  "bytes_at w p = (case content w p of Some c \<Rightarrow> c | None \<Rightarrow> [])"

definition durable_at :: "world \<Rightarrow> path \<Rightarrow> bytes" where
  "durable_at w p = (case durable w p of Some d \<Rightarrow> d | None \<Rightarrow> [])"

definition set_content :: "path \<Rightarrow> bytes \<Rightarrow> world \<Rightarrow> world" where
  "set_content p c w = set_node p (FileNode c (durable_at w p)) w"

section \<open>Failures\<close>

text \<open>A call that does nothing when it fails.\<close>

definition sys :: "('s \<times> world, ruka_error, 'a) prog \<Rightarrow> ('s \<times> world, ruka_error, 'a) prog" where
  "sys m sw =
     (case choices (snd sw) of
        [] \<Rightarrow> m sw
      | Fault e n # cs \<Rightarrow> (Err (Io e), (fst sw, (snd sw) \<lparr> choices := cs \<rparr>))
      | c # cs \<Rightarrow> m (fst sw, (snd sw) \<lparr> choices := cs \<rparr>))"

lemma sys_quiet [prog_simps]: "quiet w \<Longrightarrow> sys m (s, w) = m (s, w)"
  by (simp add: sys_def quiet_def)

section \<open>Calls on an open file\<close>

text \<open>
  Writing puts the data at the cursor, or at the end of a file opened for appending, and
  leaves the cursor behind it; a gap before the cursor is filled with zeros.
\<close>

definition overwrite :: "nat \<Rightarrow> bytes \<Rightarrow> bytes \<Rightarrow> bytes" where
  "overwrite pos data c =
     take pos c @ replicate (pos - length c) 0 @ data @ drop (pos + length data) c"

definition write_bytes :: "bytes \<Rightarrow> file_handle \<times> world \<Rightarrow> file_handle \<times> world" where
  "write_bytes data fw =
     (let f = fst fw; w = snd fw;
          c = bytes_at w (fpath f);
          pos = (if append_mode f then length c else cursor f)
      in if data = [] then fw
         else (f \<lparr> cursor := pos + length data \<rparr>, set_content (fpath f) (overwrite pos data c) w))"

text \<open>\<open>write_all\<close> that fails may have written a part of the data.\<close>

definition write_all :: "bytes \<Rightarrow> (file_handle \<times> world, ruka_error, unit) prog" where
  "write_all data fw =
     (if data = [] then (Ok (), fw)
      else case choices (snd fw) of
        [] \<Rightarrow> (Ok (), write_bytes data fw)
      | Fault e n # cs \<Rightarrow>
          (Err (Io e), write_bytes (take n data) (fst fw, (snd fw) \<lparr> choices := cs \<rparr>))
      | c # cs \<Rightarrow> (Ok (), write_bytes data (fst fw, (snd fw) \<lparr> choices := cs \<rparr>)))"

definition read_bytes :: "nat \<Rightarrow> (file_handle \<times> world, ruka_error, bytes) prog" where
  "read_bytes n fw =
     (let data = take n (drop (cursor (fst fw)) (bytes_at (snd fw) (fpath (fst fw))))
      in (Ok data, ((fst fw) \<lparr> cursor := cursor (fst fw) + length data \<rparr>, snd fw)))"

text \<open>\<open>Read::read\<close> into a buffer of \<open>n\<close> bytes returns at least one byte unless the cursor is at the end.\<close>

definition file_read :: "nat \<Rightarrow> (file_handle \<times> world, ruka_error, bytes) prog" where
  "file_read n fw =
     (case choices (snd fw) of
        [] \<Rightarrow> read_bytes n fw
      | Normal # cs \<Rightarrow> read_bytes n (fst fw, (snd fw) \<lparr> choices := cs \<rparr>)
      | Short k # cs \<Rightarrow> read_bytes (min n (Suc k)) (fst fw, (snd fw) \<lparr> choices := cs \<rparr>)
      | Fault e k # cs \<Rightarrow> (Err (Io e), (fst fw, (snd fw) \<lparr> choices := cs \<rparr>)))"

definition eof_error :: ruka_error where
  "eof_error = Io (Io_Error UnexpectedEof ''failed to fill whole buffer'')"

definition read_exact :: "nat \<Rightarrow> (file_handle \<times> world, ruka_error, bytes) prog" where
  "read_exact n =
     sys (bindp (read_bytes n) (\<lambda>data. if length data < n then failp eof_error else returnp data))"

definition read_to_end :: "(file_handle \<times> world, ruka_error, bytes) prog" where
  "read_to_end = sys (\<lambda>fw. read_bytes (length (bytes_at (snd fw) (fpath (fst fw)))) fw)"

text \<open>A seek target that does not fit the signed 64-bit file offset is refused.\<close>

definition seek_start :: "u64 \<Rightarrow> (file_handle \<times> world, ruka_error, unit) prog" where
  "seek_start pos =
     sys (\<lambda>fw. if 2 ^ 63 \<le> unat pos
               then (Err (Io (Io_Error InvalidInput ''Invalid argument'')), fw)
               else (Ok (), ((fst fw) \<lparr> cursor := unat pos \<rparr>, snd fw)))"

definition seek_end :: "(file_handle \<times> world, ruka_error, unit) prog" where
  "seek_end =
     sys (\<lambda>fw. (Ok (), ((fst fw) \<lparr> cursor := length (bytes_at (snd fw) (fpath (fst fw))) \<rparr>, snd fw)))"

definition metadata_len :: "(file_handle \<times> world, ruka_error, u64) prog" where
  "metadata_len = sys (\<lambda>fw. (Ok (of_nat (length (bytes_at (snd fw) (fpath (fst fw))))), fw))"

definition set_len :: "u64 \<Rightarrow> (file_handle \<times> world, ruka_error, unit) prog" where
  "set_len n =
     sys (\<lambda>fw. let c = bytes_at (snd fw) (fpath (fst fw)) in
       (Ok (), (fst fw, set_content (fpath (fst fw))
          (take (unat n) c @ replicate (unat n - length c) 0) (snd fw))))"

text \<open>\<open>flush\<close> on a \<open>File\<close> does nothing; \<open>sync_data\<close> forces the content to disk.\<close>

definition file_flush :: "(file_handle \<times> world, ruka_error, unit) prog" where
  "file_flush = returnp ()"

definition sync_data :: "(file_handle \<times> world, ruka_error, unit) prog" where
  "sync_data =
     sys (\<lambda>fw. let c = bytes_at (snd fw) (fpath (fst fw)) in
       (Ok (), (fst fw, set_node (fpath (fst fw)) (FileNode c c) (snd fw))))"

section \<open>Calls on paths\<close>

text \<open>A call on a path keeps no other state.\<close>

type_synonym 'a path_prog = "(unit \<times> world, ruka_error, 'a) prog"

definition file_open :: "bool \<Rightarrow> bool \<Rightarrow> bool \<Rightarrow> path \<Rightarrow> file_handle path_prog" where
  "file_open create trunc app p =
     sys (\<lambda>uw. let w = snd uw; f = \<lparr> fpath = p, cursor = 0, append_mode = app \<rparr> in
       case map_of (nodes w) p of
         Some (FileNode c d) \<Rightarrow> (Ok f, ((), if trunc then set_content p [] w else w))
       | Some DirNode \<Rightarrow> (Err (Io (Io_Error IsADirectory ''Is a directory'')), uw)
       | None \<Rightarrow>
           if create \<and> p \<noteq> [] \<and> is_dir w (butlast p)
           then (Ok f, ((), set_node p (FileNode [] []) w))
           else (Err (Io (Io_Error NotFound ''No such file or directory'')), uw))"

fun make_dirs :: "path \<Rightarrow> string list \<Rightarrow> world \<Rightarrow> unit res \<times> world" where
  "make_dirs q [] w = (Ok (), w)"
| "make_dirs q (c # cs) w =
     (case map_of (nodes w) (q @ [c]) of
        None \<Rightarrow> make_dirs (q @ [c]) cs (set_node (q @ [c]) DirNode w)
      | Some DirNode \<Rightarrow> make_dirs (q @ [c]) cs w
      | Some (FileNode x d) \<Rightarrow> (Err (Io (Io_Error NotADirectory ''Not a directory'')), w))"

definition create_dir_all :: "path \<Rightarrow> unit path_prog" where
  "create_dir_all p = sys (\<lambda>uw. case make_dirs [] p (snd uw) of (r, w) \<Rightarrow> (r, ((), w)))"

text \<open>The names in a directory, in the order the file system keeps them.\<close>

definition read_dir :: "path \<Rightarrow> string list path_prog" where
  "read_dir p =
     sys (\<lambda>uw. if is_dir (snd uw) p
       then (Ok (map last (filter (\<lambda>q. q \<noteq> [] \<and> butlast q = p) (remdups (map fst (nodes (snd uw)))))), uw)
       else (Err (Io (Io_Error NotFound ''No such file or directory'')), uw))"

section \<open>Paths\<close>

text \<open>
  A path is the list of its components; an absolute path starts with the root
  component. Empty components and current-directory components disappear, and joining an
  absolute path replaces the base.
\<close>

fun split_slash :: "string \<Rightarrow> string \<Rightarrow> string list" where
  "split_slash acc [] = [acc]"
| "split_slash acc (c # cs) =
     (if c = CHR ''/'' then acc # split_slash [] cs else split_slash (acc @ [c]) cs)"

definition components :: "string \<Rightarrow> path" where
  "components s = filter (\<lambda>c. c \<noteq> [] \<and> c \<noteq> ''.'') (split_slash [] s)"

definition path_join :: "path \<Rightarrow> string \<Rightarrow> path" where
  "path_join base s =
     (case s of c # cs \<Rightarrow> if c = CHR ''/'' then ''/'' # components s else base @ components s
      | [] \<Rightarrow> base)"

text \<open>Stem and extension of a file name: the parts before and after the last dot.\<close>

definition split_ext :: "string \<Rightarrow> string \<times> string option" where
  "split_ext name =
     (let ext = rev (takeWhile (\<lambda>c. c \<noteq> CHR ''.'') (rev name));
          before = dropWhile (\<lambda>c. c \<noteq> CHR ''.'') (rev name)
      in if name = ''..'' \<or> before = [] \<or> tl before = [] then (name, None)
         else (rev (tl before), Some ext))"

section \<open>Facts about the world\<close>

named_theorems fs_simps \<open>what the calls leave in the world\<close>

lemma map_of_set_node [fs_simps]: "map_of (nodes (set_node p n w)) = (map_of (nodes w))(p \<mapsto> n)"
  by (simp add: set_node_def update_conv')

lemma content_set_content [fs_simps]:
  "content (set_content p c w) q = (if q = p then Some c else content w q)"
  by (simp add: content_def set_content_def fs_simps)

lemma durable_set_content [fs_simps]:
  "durable (set_content p c w) q = (if q = p then Some (durable_at w p) else durable w q)"
  by (simp add: durable_def set_content_def fs_simps)

lemma content_set_node [fs_simps]:
  "content (set_node p (FileNode c d) w) q = (if q = p then Some c else content w q)"
  "content (set_node p DirNode w) q = (if q = p then None else content w q)"
  by (simp_all add: content_def fs_simps)

lemma durable_set_node [fs_simps]:
  "durable (set_node p (FileNode c d) w) q = (if q = p then Some d else durable w q)"
  by (simp add: durable_def fs_simps)

lemma is_dir_set_content [fs_simps]:
  "is_dir (set_content p c w) q \<longleftrightarrow> q = [] \<or> q \<noteq> p \<and> is_dir w q"
  by (auto simp: is_dir_def set_content_def fs_simps)

lemma is_dir_set_node [fs_simps]:
  "is_dir (set_node p (FileNode c d) w) q \<longleftrightarrow> q = [] \<or> q \<noteq> p \<and> is_dir w q"
  by (auto simp: is_dir_def fs_simps)

lemma choices_set_content [fs_simps]:
  "choices (set_content p c w) = choices w" "choices (set_node p n w) = choices w"
  by (simp_all add: set_content_def set_node_def)

lemma clock_set_content [fs_simps]:
  "clock (set_content p c w) = clock w" "clock (set_node p n w) = clock w"
  by (simp_all add: set_content_def set_node_def)

lemma quiet_set_content [fs_simps]:
  "quiet (set_content p c w) \<longleftrightarrow> quiet w" "quiet (set_node p n w) \<longleftrightarrow> quiet w"
  by (simp_all add: quiet_def fs_simps)

lemma bytes_at_Some: "content w p = Some c \<Longrightarrow> bytes_at w p = c"
  by (simp add: bytes_at_def)

lemma bytes_at_set_content [fs_simps]:
  "bytes_at (set_content p c w) q = (if q = p then c else bytes_at w q)"
  by (simp add: bytes_at_def fs_simps)

lemma overwrite_end [simp]: "overwrite (length c) data c = c @ data"
  by (simp add: overwrite_def)

section \<open>Calls that succeed\<close>

lemma write_all_end [prog_simps]:
  assumes "quiet w" "content w (fpath f) = Some c" "append_mode f \<or> cursor f = length c" "data \<noteq> []"
  shows "write_all data (f, w) =
    (Ok (), (f \<lparr> cursor := length c + length data \<rparr>, set_content (fpath f) (c @ data) w))"
  using assms by (auto simp: write_all_def write_bytes_def quiet_def bytes_at_Some Let_def)

lemma file_read_quiet [prog_simps]:
  assumes "quiet w" "content w (fpath f) = Some c"
  shows "file_read n (f, w) =
    (Ok (take n (drop (cursor f) c)),
     (f \<lparr> cursor := cursor f + length (take n (drop (cursor f) c)) \<rparr>, w))"
  using assms by (simp add: file_read_def read_bytes_def quiet_def bytes_at_Some Let_def)

lemma read_exact_quiet [prog_simps]:
  assumes "quiet w" "content w (fpath f) = Some c" "n \<le> length (drop (cursor f) c)"
  shows "read_exact n (f, w) =
    (Ok (take n (drop (cursor f) c)), (f \<lparr> cursor := cursor f + n \<rparr>, w))"
  using assms
  by (simp add: read_exact_def read_bytes_def sys_quiet bytes_at_Some bindp_def Let_def)

lemma read_to_end_quiet [prog_simps]:
  assumes "quiet w" "content w (fpath f) = Some c" "cursor f = 0"
  shows "read_to_end (f, w) = (Ok c, (f \<lparr> cursor := length c \<rparr>, w))"
  using assms by (simp add: read_to_end_def read_bytes_def sys_quiet bytes_at_Some Let_def)

lemma seek_start_quiet [prog_simps]:
  assumes "quiet w" "unat pos < 2 ^ 63"
  shows "seek_start pos (f, w) = (Ok (), (f \<lparr> cursor := unat pos \<rparr>, w))"
  using assms by (simp add: seek_start_def sys_quiet)

lemma seek_end_quiet [prog_simps]:
  assumes "quiet w" "content w (fpath f) = Some c"
  shows "seek_end (f, w) = (Ok (), (f \<lparr> cursor := length c \<rparr>, w))"
  using assms by (simp add: seek_end_def sys_quiet bytes_at_Some)

lemma metadata_len_quiet [prog_simps]:
  assumes "quiet w" "content w (fpath f) = Some c"
  shows "metadata_len (f, w) = (Ok (of_nat (length c)), (f, w))"
  using assms by (simp add: metadata_len_def sys_quiet bytes_at_Some)

lemma sync_data_quiet [prog_simps]:
  assumes "quiet w" "content w (fpath f) = Some c"
  shows "sync_data (f, w) = (Ok (), (f, set_node (fpath f) (FileNode c c) w))"
  using assms by (simp add: sync_data_def sys_quiet bytes_at_Some)

lemma set_len_quiet [prog_simps]:
  assumes "quiet w" "content w (fpath f) = Some c" "unat n \<le> length c"
  shows "set_len n (f, w) = (Ok (), (f, set_content (fpath f) (take (unat n) c) w))"
  using assms by (simp add: set_len_def sys_quiet bytes_at_Some Let_def)

end
