(* ===== verification/Ruka_Search.thy ===== *)
theory Ruka_Search
  imports Ruka_Prelude
begin

text \<open>
  \<open>slice::binary_search_by_key\<close> of the standard library: the loop that halves the range,
  and the contract that the index and the partition rely on, as a locale. The contract
  is what the documentation promises for a slice sorted by the key.
\<close>

datatype search_result = Found nat | Missing nat

function search_loop :: "('a \<Rightarrow> 'k :: linorder) \<Rightarrow> 'k \<Rightarrow> 'a list \<Rightarrow> nat \<Rightarrow> nat \<Rightarrow> nat" where
  "search_loop key t xs base sz =
     (if sz \<le> 1 then base
      else let half = sz div 2; mid = base + half
           in search_loop key t xs (if t < key (xs ! mid) then base else mid) (sz - half))"
  by pat_completeness auto
termination
  by (relation "measure (\<lambda>(key, t, xs, base, sz). sz)") auto

declare search_loop.simps [simp del]

definition binary_search_by_key :: "('a \<Rightarrow> 'k :: linorder) \<Rightarrow> 'k \<Rightarrow> 'a list \<Rightarrow> search_result" where
  "binary_search_by_key key t xs =
     (if xs = [] then Missing 0
      else let base = search_loop key t xs 0 (length xs)
           in if key (xs ! base) = t then Found base
              else if key (xs ! base) < t then Missing (base + 1)
              else Missing base)"

section \<open>The contract of a search\<close>

locale sorted_search =
  fixes search :: "('a \<Rightarrow> 'k :: linorder) \<Rightarrow> 'k \<Rightarrow> 'a list \<Rightarrow> search_result"
  assumes found: "search key t xs = Found i \<Longrightarrow> i < length xs \<and> key (xs ! i) = t"
    and missing: "\<lbrakk> sorted (map key xs); search key t xs = Missing i \<rbrakk> \<Longrightarrow>
      i \<le> length xs \<and> (\<forall>j < i. key (xs ! j) < t) \<and>
      (\<forall>j. i \<le> j \<and> j < length xs \<longrightarrow> t < key (xs ! j))"
begin

text \<open>With strictly increasing keys the search finds the one element that has the key.\<close>

lemma search_Found_iff:
  assumes "sorted_wrt (<) (map key xs)"
  shows "search key t xs = Found i \<longleftrightarrow> i < length xs \<and> key (xs ! i) = t"
proof
  assume "search key t xs = Found i"
  then show "i < length xs \<and> key (xs ! i) = t" by (rule found)
next
  assume i: "i < length xs \<and> key (xs ! i) = t"
  have srt: "sorted (map key xs)"
    using assms by (rule strict_sorted_imp_sorted)
  show "search key t xs = Found i"
  proof (cases "search key t xs")
    case (Found j)
    then have "j < length xs" "map key xs ! j = map key xs ! i"
      using found i by fastforce+
    moreover have "distinct (map key xs)"
      using assms strict_sorted_iff by blast
    ultimately have "j = i"
      using i by (metis length_map nth_eq_iff_index_eq)
    with Found show ?thesis by simp
  next
    case (Missing j)
    with missing [OF srt this] i show ?thesis
      by (metis less_irrefl linorder_not_less)
  qed
qed

lemma search_Found:
  assumes "sorted_wrt (<) (map key xs)" "i < length xs"
  shows "search key (key (xs ! i)) xs = Found i"
  using assms by (simp add: search_Found_iff)

lemma search_not_in:
  assumes "t \<notin> key ` set xs"
  shows "\<exists>i. search key t xs = Missing i"
proof (cases "search key t xs")
  case (Found i)
  then show ?thesis
    using found assms by (metis imageI nth_mem)
qed simp

text \<open>Where the key is missing, the insertion point follows the last smaller element.\<close>

lemma search_floor:
  assumes "sorted (map key xs)" "search key t xs = Missing (Suc i)"
  shows "i < length xs" "key (xs ! i) < t" "\<And>j. i < j \<Longrightarrow> j < length xs \<Longrightarrow> t < key (xs ! j)"
  using missing [OF assms] by (simp_all add: Suc_le_eq)

end

section \<open>The loop meets the contract\<close>

lemma search_loop_range:
  assumes "0 < sz" "base + sz \<le> length xs"
  shows "search_loop key t xs base sz < length xs"
  using assms
proof (induction key t xs base sz rule: search_loop.induct)
  case (1 key t xs base sz)
  show ?case
  proof (cases "sz \<le> 1")
    case True
    with "1.prems" show ?thesis
      by (subst search_loop.simps) simp
  next
    case False
    have "search_loop key t xs (if t < key (xs ! (base + sz div 2)) then base else base + sz div 2)
        (sz - sz div 2) < length xs"
      using False "1.prems" by (intro "1.IH" [OF False refl refl]) auto
    with False show ?thesis
      by (subst search_loop.simps) (simp add: Let_def)
  qed
qed

lemma search_loop_bracket:
  assumes "sorted (map key xs)" "0 < sz" "base + sz \<le> length xs"
    "\<forall>j < base. key (xs ! j) \<le> t" "base = 0 \<or> key (xs ! base) \<le> t"
    "\<forall>j. base + sz \<le> j \<and> j < length xs \<longrightarrow> t < key (xs ! j)"
    "b = search_loop key t xs base sz"
  shows "(\<forall>j < b. key (xs ! j) \<le> t) \<and> (b = 0 \<or> key (xs ! b) \<le> t) \<and>
    (\<forall>j. b < j \<and> j < length xs \<longrightarrow> t < key (xs ! j))"
  using assms
proof (induction key t xs base sz rule: search_loop.induct)
  case (1 key t xs base sz)
  show ?case
  proof (cases "sz \<le> 1")
    case True
    with "1.prems" have "sz = 1" "b = base"
      by (simp_all add: search_loop.simps [of key t xs base sz])
    with "1.prems" show ?thesis by simp
  next
    case False
    define half mid where "half = sz div 2" and "mid = base + half"
    have half: "0 < half" "half < sz"
      using False by (simp_all add: half_def)
    have mid: "mid < length xs"
      using half "1.prems"(3) by (simp add: mid_def)
    have mono: "key (xs ! i) \<le> key (xs ! j)" if "i \<le> j" "j < length xs" for i j
      using "1.prems"(1) that by (simp add: sorted_iff_nth_mono)
    have b: "b = search_loop key t xs (if t < key (xs ! mid) then base else mid) (sz - half)"
      using False "1.prems"(7)
      by (simp add: search_loop.simps [of key t xs base sz] half_def mid_def Let_def)
    let ?base = "if t < key (xs ! mid) then base else mid"
    have below: "key (xs ! j) \<le> t" if "j \<le> mid" "\<not> t < key (xs ! mid)" for j
      using mono [of j mid] that mid by simp
    have above: "t < key (xs ! j)" if "mid \<le> j" "j < length xs" "t < key (xs ! mid)" for j
      using mono [of mid j] that by simp
    have h1: "0 < sz - half" and h2: "?base + (sz - half) \<le> length xs"
      using half "1.prems"(3) by (auto simp: mid_def)
    have h3: "\<forall>j < ?base. key (xs ! j) \<le> t"
      using below "1.prems"(4) by simp
    have h4: "?base = 0 \<or> key (xs ! ?base) \<le> t"
      using "1.prems"(5) by (simp add: not_less)
    have "mid \<le> base + (sz - half)" "mid + (sz - half) = base + sz"
      using half by (simp_all add: mid_def half_def)
    then have h5: "\<forall>j. ?base + (sz - half) \<le> j \<and> j < length xs \<longrightarrow> t < key (xs ! j)"
      using above "1.prems"(6) by auto
    show ?thesis
      by (rule "1.IH" [OF False half_def mid_def "1.prems"(1) h1 h2 h3 h4 h5 b])
  qed
qed

lemma binary_search_found:
  assumes "binary_search_by_key key t xs = Found i"
  shows "i < length xs \<and> key (xs ! i) = t"
  using assms search_loop_range [of "length xs" 0 xs key t]
  by (auto simp: binary_search_by_key_def Let_def split: if_splits)

lemma binary_search_missing:
  assumes "sorted (map key xs)" "binary_search_by_key key t xs = Missing i"
  shows "i \<le> length xs \<and> (\<forall>j < i. key (xs ! j) < t) \<and>
    (\<forall>j. i \<le> j \<and> j < length xs \<longrightarrow> t < key (xs ! j))"
proof (cases "xs = []")
  case False
  define b where "b = search_loop key t xs 0 (length xs)"
  have b: "b < length xs"
    using search_loop_range [of "length xs" 0 xs key t] False by (simp add: b_def)
  have "(\<forall>j < b. key (xs ! j) \<le> t) \<and> (b = 0 \<or> key (xs ! b) \<le> t) \<and>
      (\<forall>j. b < j \<and> j < length xs \<longrightarrow> t < key (xs ! j))"
    by (rule search_loop_bracket [OF assms(1) _ _ _ _ _ b_def]) (use False in auto)
  then have bracket: "\<forall>j < b. key (xs ! j) \<le> t" "b = 0 \<or> key (xs ! b) \<le> t"
      "\<forall>j. b < j \<and> j < length xs \<longrightarrow> t < key (xs ! j)"
    by auto
  have neq: "key (xs ! b) \<noteq> t"
    using assms(2) False by (auto simp: binary_search_by_key_def b_def Let_def split: if_splits)
  have lower: "key (xs ! j) \<noteq> t" if "j < b" for j
  proof
    assume "key (xs ! j) = t"
    moreover have "key (xs ! j) \<le> key (xs ! b)"
      using assms(1) that b by (simp add: sorted_iff_nth_mono)
    ultimately show False
      using bracket(2) neq that by auto
  qed
  show ?thesis
  proof (cases "key (xs ! b) < t")
    case True
    then have "i = b + 1"
      using assms(2) False neq by (auto simp: binary_search_by_key_def b_def Let_def)
    moreover have "key (xs ! j) < t" if "j < b + 1" for j
    proof (cases "j = b")
      case False
      then have "j < b" using that by simp
      then show ?thesis
        using bracket(1) lower order.not_eq_order_implies_strict by blast
    qed (use True in simp)
    ultimately show ?thesis
      using bracket(3) b by (simp add: Suc_le_eq)
  next
    case False'': False
    then have i: "i = b" "b = 0"
      using assms(2) False neq bracket(2) by (auto simp: binary_search_by_key_def b_def Let_def)
    have "t < key (xs ! 0)"
      using False'' neq i(2) by (simp add: not_less order.not_eq_order_implies_strict)
    then have "t < key (xs ! j)" if "j < length xs" for j
      using bracket(3) i that by (cases j) auto
    with i show ?thesis by simp
  qed
qed (use assms in \<open>simp add: binary_search_by_key_def\<close>)

end
