(* ===== verification/Ruka_Index.thy ===== *)
theory Ruka_Index
  imports Ruka_Fs Ruka_Search
begin

text \<open>
  The companion index of a segment: \<open>storage/index.rs\<close>. The index file is the sequence of
  its sixteen-byte entries; the same entries are held in memory and searched there.
\<close>

definition INDEX_ENTRY_SIZE :: nat where "INDEX_ENTRY_SIZE = 16"

record index_entry =
  ie_offset :: u64
  ie_position :: u64

definition entry_encode :: "index_entry \<Rightarrow> bytes" where
  "entry_encode e = word_be (ie_offset e) @ word_be (ie_position e)"

definition entry_decode :: "bytes \<Rightarrow> index_entry" where
  "entry_decode buf =
     \<lparr> ie_offset = be_word (take 8 buf), ie_position = be_word (take 8 (drop 8 buf)) \<rparr>"

record index =
  ix_path :: path
  ix_file :: file_handle
  ix_entries :: "index_entry list"

text \<open>Running a method on a local variable that is dropped if the function fails.\<close>

definition with_local :: "'x \<Rightarrow> ('x \<times> world, 'e, 'a) prog \<Rightarrow> ('s \<times> world, 'e, 'a \<times> 'x) prog" where
  "with_local x m sw =
     (case m (x, snd sw) of
        (Ok a, (y, w)) \<Rightarrow> (Ok (a, y), (fst sw, w))
      | (Err e, (y, w)) \<Rightarrow> (Err e, (fst sw, w))
      | (Panic, (y, w)) \<Rightarrow> (Panic, (fst sw, w)))"

definition index_create :: "path \<Rightarrow> index path_prog" where
  "index_create p =
     bindp (file_open True True False p) (\<lambda>file.
     returnp \<lparr> ix_path = p, ix_file = file, ix_entries = [] \<rparr>)"

fun read_entries :: "nat \<Rightarrow> index_entry list \<Rightarrow> (file_handle \<times> world, ruka_error, index_entry list) prog" where
  "read_entries 0 entries = returnp entries"
| "read_entries (Suc n) entries =
     bindp (read_exact INDEX_ENTRY_SIZE) (\<lambda>buf. read_entries n (entries @ [entry_decode buf]))"

text \<open>The body of \<open>Index::load\<close> after the file has been opened.\<close>

definition index_load_entries :: "(file_handle \<times> world, ruka_error, index_entry list) prog" where
  "index_load_entries =
     bindp metadata_len (\<lambda>len.
     let file_len = unat len in
     if file_len mod INDEX_ENTRY_SIZE \<noteq> 0 then failp (CorruptedIndex len)
     else bindp (seek_start 0) (\<lambda>_.
       bindp (read_entries (file_len div INDEX_ENTRY_SIZE) []) (\<lambda>entries.
       bindp seek_end (\<lambda>_. returnp entries))))"

definition index_load :: "path \<Rightarrow> index path_prog" where
  "index_load p =
     bindp (file_open False False False p) (\<lambda>file.
     bindp (with_local file index_load_entries) (\<lambda>(entries, file).
     returnp \<lparr> ix_path = p, ix_file = file, ix_entries = entries \<rparr>))"

definition index_append :: "u64 \<Rightarrow> u64 \<Rightarrow> (index \<times> world, ruka_error, unit) prog" where
  "index_append offset position =
     (let entry = \<lparr> ie_offset = offset, ie_position = position \<rparr> in
      bindp (zoom ix_file ix_file_update (write_all (entry_encode entry))) (\<lambda>_.
      modifyp (\<lambda>(ix, w). (ix \<lparr> ix_entries := ix_entries ix @ [entry] \<rparr>, w))))"

definition index_lookup :: "index \<Rightarrow> u64 \<Rightarrow> u64 option" where
  "index_lookup ix target_offset =
     (case binary_search_by_key ie_offset target_offset (ix_entries ix) of
        Found idx \<Rightarrow> Some (ie_position (ix_entries ix ! idx))
      | Missing _ \<Rightarrow> None)"

definition index_lookup_floor :: "index \<Rightarrow> u64 \<Rightarrow> index_entry option" where
  "index_lookup_floor ix target_offset =
     (case binary_search_by_key ie_offset target_offset (ix_entries ix) of
        Found idx \<Rightarrow> Some (ix_entries ix ! idx)
      | Missing 0 \<Rightarrow> None
      | Missing (Suc i) \<Rightarrow> Some (ix_entries ix ! i))"

definition index_flush :: "(index \<times> world, ruka_error, unit) prog" where
  "index_flush = zoom ix_file ix_file_update file_flush"

definition index_sync :: "(index \<times> world, ruka_error, unit) prog" where
  "index_sync = zoom ix_file ix_file_update sync_data"

definition entry_count :: "index \<Rightarrow> nat" where
  "entry_count ix = length (ix_entries ix)"

section \<open>Encoding of entries\<close>

lemma length_entry_encode [simp]: "length (entry_encode e) = 16"
  by (simp add: entry_encode_def)

lemma entry_encode_not_Nil [simp]: "entry_encode e \<noteq> []"
  by (simp add: entry_encode_def)

lemma entry_decode_encode [simp]: "entry_decode (entry_encode e) = e"
  by (simp add: entry_decode_def entry_encode_def be_simps)

definition entries_bytes :: "index_entry list \<Rightarrow> bytes" where
  "entries_bytes es = concat (map entry_encode es)"

lemma length_entries_bytes [simp]: "length (entries_bytes es) = 16 * length es"
  by (induction es) (simp_all add: entries_bytes_def)

lemma entries_bytes_append [simp]: "entries_bytes (es @ fs) = entries_bytes es @ entries_bytes fs"
  by (simp add: entries_bytes_def)

lemma entries_bytes_single [simp]: "entries_bytes [e] = entry_encode e"
  by (simp add: entries_bytes_def)

lemma entries_bytes_Nil [simp]: "entries_bytes [] = []"
  by (simp add: entries_bytes_def)

lemma entries_bytes_Cons: "entries_bytes (e # es) = entry_encode e @ entries_bytes es"
  by (simp add: entries_bytes_def)

section \<open>The index and its file\<close>

text \<open>
  The index invariant: the file holds exactly the entries in memory, the handle stands at
  its end (the file is not opened for appending), and offsets increase.
\<close>

definition index_ok :: "index \<Rightarrow> world \<Rightarrow> bool" where
  "index_ok ix w \<longleftrightarrow>
     content w (fpath (ix_file ix)) = Some (entries_bytes (ix_entries ix)) \<and>
     cursor (ix_file ix) = length (entries_bytes (ix_entries ix)) \<and>
     sorted_wrt (<) (map ie_offset (ix_entries ix))"

text \<open>The mapping that the entries stand for.\<close>

definition index_map :: "index \<Rightarrow> u64 \<rightharpoonup> u64" where
  "index_map ix = map_of (map (\<lambda>e. (ie_offset e, ie_position e)) (ix_entries ix))"

interpretation entry_search: sorted_search
  "binary_search_by_key :: (index_entry \<Rightarrow> u64) \<Rightarrow> u64 \<Rightarrow> index_entry list \<Rightarrow> search_result"
  by unfold_locales (rule binary_search_found binary_search_missing; assumption)+

lemma entry_map_of:
  assumes "sorted_wrt (<) (map ie_offset es)" "i < length es"
  shows "map_of (map (\<lambda>e. (ie_offset e, ie_position e)) es) (ie_offset (es ! i)) =
    Some (ie_position (es ! i))"
proof -
  have "distinct (map ie_offset es)"
    using assms(1) strict_sorted_iff by blast
  then have "distinct (map fst (map (\<lambda>e. (ie_offset e, ie_position e)) es))"
    by (simp add: comp_def)
  then show ?thesis
    using assms(2) by (intro map_of_is_SomeI) auto
qed

lemma index_lookup_map:
  assumes "sorted_wrt (<) (map ie_offset (ix_entries ix))"
  shows "index_lookup ix t = index_map ix t"
proof (cases "t \<in> ie_offset ` set (ix_entries ix)")
  case True
  then obtain i where i: "i < length (ix_entries ix)" "ie_offset (ix_entries ix ! i) = t"
    by (metis image_iff in_set_conv_nth)
  then have "binary_search_by_key ie_offset t (ix_entries ix) = Found i"
    using assms entry_search.search_Found_iff by blast
  with i entry_map_of [OF assms i(1)] show ?thesis
    by (simp add: index_lookup_def index_map_def)
next
  case False
  then obtain i where "binary_search_by_key ie_offset t (ix_entries ix) = Missing i"
    using entry_search.search_not_in by blast
  moreover have "index_map ix t = None"
    using False by (auto simp: index_map_def map_of_eq_None_iff)
  ultimately show ?thesis
    by (simp add: index_lookup_def)
qed

lemma index_append_ok:
  assumes "quiet w" "index_ok ix w"
    "ix' = ix \<lparr> ix_file := (ix_file ix) \<lparr> cursor := 16 * length (ix_entries ix) + 16 \<rparr>,
      ix_entries := ix_entries ix @ [\<lparr> ie_offset = off, ie_position = pos \<rparr>] \<rparr>"
  shows "index_append off pos (ix, w) =
    (Ok (), (ix', set_content (fpath (ix_file ix)) (entries_bytes (ix_entries ix')) w))"
  using assms
  by (simp add: index_append_def index_ok_def prog_simps Let_def)

lemma index_ok_append:
  assumes "index_ok ix w" "\<forall>e \<in> set (ix_entries ix). ie_offset e < off"
    "ix' = ix \<lparr> ix_file := (ix_file ix) \<lparr> cursor := 16 * length (ix_entries ix) + 16 \<rparr>,
      ix_entries := ix_entries ix @ [\<lparr> ie_offset = off, ie_position = pos \<rparr>] \<rparr>"
  shows "index_ok ix' (set_content (fpath (ix_file ix)) (entries_bytes (ix_entries ix')) w)"
  using assms by (simp add: index_ok_def fs_simps sorted_wrt_append)

section \<open>Loading an index\<close>

lemma with_local_Ok [prog_simps]:
  "m (x, w) = (Ok a, (y, w')) \<Longrightarrow> with_local x m (s, w) = (Ok (a, y), (s, w'))"
  by (simp add: with_local_def)

lemma with_local_Err [prog_simps]:
  "m (x, w) = (Err e, (y, w')) \<Longrightarrow> with_local x m (s, w) = (Err e, (s, w'))"
  by (simp add: with_local_def)

lemma read_entries_quiet:
  assumes "quiet w" "content w (fpath f) = Some c" "drop (cursor f) c = entries_bytes es @ rest"
  shows "read_entries (length es) acc (f, w) =
    (Ok (acc @ es), (f \<lparr> cursor := cursor f + 16 * length es \<rparr>, w))"
  using assms
proof (induction es arbitrary: acc f)
  case (Cons e es)
  let ?f = "f \<lparr> cursor := cursor f + 16 \<rparr>"
  have "read_exact 16 (f, w) = (Ok (entry_encode e), (?f, w))"
    using read_exact_quiet [OF Cons.prems(1,2), of 16] Cons.prems(3)
    by (simp add: entries_bytes_Cons)
  moreover have "drop (cursor ?f) c = entries_bytes es @ rest"
    using arg_cong [OF Cons.prems(3), of "drop 16"]
    by (simp add: entries_bytes_Cons add.commute)
  ultimately show ?case
    using Cons.IH [of ?f "acc @ [e]"] Cons.prems(1,2)
    by (simp add: prog_simps INDEX_ENTRY_SIZE_def)
qed simp

lemma entries_of_length: "length c = 16 * k \<Longrightarrow> \<exists>es. c = entries_bytes es"
proof (induction k arbitrary: c)
  case (Suc n)
  have "\<exists>es. drop 16 c = entries_bytes es"
    by (rule Suc.IH) (simp add: Suc.prems)
  then obtain es where es: "drop 16 c = entries_bytes es" ..
  obtain a r where a: "c = word_be (a :: u64) @ r" "length c = 8 + length r"
    using front_u64 [of c] Suc.prems by auto
  obtain b r' where b: "r = word_be (b :: u64) @ r'"
    using front_u64 [of r] Suc.prems a by auto
  have "c = entries_bytes (\<lparr> ie_offset = a, ie_position = b \<rparr> # es)"
    using a(1) b es by (simp add: entries_bytes_Cons entry_encode_def)
  then show ?case by blast
qed (auto intro: exI [of _ "[]"])

lemma entries_of_bytes:
  assumes "length c mod 16 = 0"
  shows "\<exists>es. c = entries_bytes es"
proof (rule entries_of_length)
  show "length c = 16 * (length c div 16)"
    using assms mult_div_mod_eq [of 16 "length c"] by linarith
qed

lemma file_open_existing:
  assumes "quiet w" "content w p = Some c"
  shows "file_open create False app p (u, w) =
    (Ok \<lparr> fpath = p, cursor = 0, append_mode = app \<rparr>, ((), w))"
  using assms
  by (auto simp: file_open_def sys_quiet content_def Let_def split: option.splits node.splits)

lemma file_open_missing:
  assumes "quiet w" "map_of (nodes w) p = None"
  shows "\<exists>e. file_open False trunc app p (u, w) = (Err (Io e), (u, w))"
  using assms by (auto simp: file_open_def sys_quiet Let_def)

lemma file_open_new:
  assumes "quiet w" "map_of (nodes w) p = None" "p \<noteq> []" "is_dir w (butlast p)"
  shows "file_open True trunc app p (u, w) =
    (Ok \<lparr> fpath = p, cursor = 0, append_mode = app \<rparr>, ((), set_node p (FileNode [] []) w))"
  using assms by (simp add: file_open_def sys_quiet Let_def)

lemma file_open_truncate:
  assumes "quiet w" "content w p = Some c"
  shows "file_open True True app p (u, w) =
    (Ok \<lparr> fpath = p, cursor = 0, append_mode = app \<rparr>, ((), set_content p [] w))"
  using assms
  by (auto simp: file_open_def sys_quiet content_def Let_def split: option.splits node.splits)

definition loaded_index :: "path \<Rightarrow> index_entry list \<Rightarrow> index" where
  "loaded_index p es =
     \<lparr> ix_path = p, ix_file = \<lparr> fpath = p, cursor = 16 * length es, append_mode = False \<rparr>,
       ix_entries = es \<rparr>"

lemma loaded_index_entries: "ix_entries (loaded_index p es) = es"
  by (simp add: loaded_index_def)

lemma index_load_ok:
  assumes "quiet w" "content w p = Some (entries_bytes es)" "16 * length es < 2 ^ 64"
  shows "index_load p (u, w) = (Ok (loaded_index p es), (u, w))"
proof -
  let ?f = "\<lparr> fpath = p, cursor = 0, append_mode = False \<rparr>"
  have "unat (of_nat (16 * length es) :: u64) = 16 * length es"
    using assms(3) by (rule unat_of_nat_u64)
  then have "index_load_entries (?f, w) = (Ok es, (?f \<lparr> cursor := 16 * length es \<rparr>, w))"
    using assms(1,2) read_entries_quiet [OF assms(1), of ?f "entries_bytes es" es "[]" "[]"]
    by (simp add: index_load_entries_def prog_simps INDEX_ENTRY_SIZE_def Let_def)
  then show ?thesis
    using file_open_existing [OF assms(1,2), of False False u]
    by (simp add: index_load_def prog_simps loaded_index_def)
qed

lemma index_load_corrupt:
  assumes "quiet w" "content w p = Some c" "length c < 2 ^ 64" "length c mod 16 \<noteq> 0"
  shows "index_load p (u, w) = (Err (CorruptedIndex (of_nat (length c))), ((), w))"
proof -
  let ?f = "\<lparr> fpath = p, cursor = 0, append_mode = False \<rparr>"
  have "index_load_entries (?f, w) = (Err (CorruptedIndex (of_nat (length c))), (?f, w))"
    using assms unat_of_nat_u64 [OF assms(3)]
    by (simp add: index_load_entries_def prog_simps INDEX_ENTRY_SIZE_def Let_def)
  then show ?thesis
    using file_open_existing [OF assms(1,2), of False False u]
    by (simp add: index_load_def prog_simps)
qed

lemma index_load_missing:
  assumes "quiet w" "map_of (nodes w) p = None"
  shows "\<exists>e. index_load p (u, w) = (Err (Io e), (u, w))"
  using file_open_missing [OF assms, of False False u]
  by (auto simp: index_load_def prog_simps)

lemma index_ok_loaded:
  assumes "content w p = Some (entries_bytes es)" "sorted_wrt (<) (map ie_offset es)"
  shows "index_ok (loaded_index p es) w"
  using assms by (simp add: index_ok_def loaded_index_def)

section \<open>Properties of the index\<close>

text \<open>C37: Appending an entry with a new largest offset succeeds, keeps memory and file in step,
  and changes what lookups return at that offset only: the index behaves as the finite map
  from offsets to positions that its entries spell out.\<close>

theorem index_append_refines_map:
  assumes "quiet w" "index_ok ix w" "\<forall>e \<in> set (ix_entries ix). ie_offset e < off"
  shows "\<exists>ix' w'. index_append off pos (ix, w) = (Ok (), (ix', w')) \<and> index_ok ix' w' \<and>
    index_lookup ix' = (index_lookup ix)(off \<mapsto> pos)"
proof -
  define ix' where "ix' = ix \<lparr> ix_file := (ix_file ix) \<lparr> cursor := 16 * length (ix_entries ix) + 16 \<rparr>,
      ix_entries := ix_entries ix @ [\<lparr> ie_offset = off, ie_position = pos \<rparr>] \<rparr>"
  let ?w = "set_content (fpath (ix_file ix)) (entries_bytes (ix_entries ix')) w"
  have ok: "index_ok ix' ?w"
    using index_ok_append [OF assms(2,3) ix'_def] .
  have "index_map ix off = None"
    using assms(3) by (auto simp: index_map_def map_of_eq_None_iff)
  then have "index_map ix' t = ((index_map ix)(off \<mapsto> pos)) t" for t
    by (auto simp: index_map_def ix'_def map_add_def split: option.split)
  then have "index_lookup ix' t = ((index_lookup ix)(off \<mapsto> pos)) t" for t
    using ok assms(2) by (simp add: index_ok_def index_lookup_map)
  then show ?thesis
    using index_append_ok [OF assms(1,2) ix'_def] ok by blast
qed

definition index_world :: "index_entry list \<Rightarrow> world" where
  "index_world es =
     \<lparr> nodes = [([''i''], FileNode (entries_bytes es) [])], choices = [], clock = 0 \<rparr>"

lemma index_world_facts:
  "quiet (index_world es)" "content (index_world es) [''i''] = Some (entries_bytes es)"
  by (simp_all add: quiet_def index_world_def content_def)

definition two_entries :: "index_entry list" where
  "two_entries = [\<lparr> ie_offset = 3, ie_position = 0 \<rparr>, \<lparr> ie_offset = 5, ie_position = 40 \<rparr>]"

lemma sorted_two_entries: "sorted_wrt (<) (map ie_offset two_entries)"
  by (simp add: two_entries_def)

theorem index_append_refines_map_witness:
  "\<exists>ix' w'. index_append 9 77 (loaded_index [''i''] two_entries, index_world two_entries) =
      (Ok (), (ix', w')) \<and> index_ok ix' w' \<and>
    index_lookup ix' = (index_lookup (loaded_index [''i''] two_entries))(9 \<mapsto> 77)"
  by (rule index_append_refines_map)
    (simp_all add: index_world_facts index_ok_loaded sorted_two_entries,
     simp add: loaded_index_def two_entries_def)

text \<open>\<open>lookup_floor\<close> returns the entry with the largest indexed offset that is not above the
  target, and nothing exactly when every indexed offset is above it.\<close>

lemma index_lookup_floor_greatest:
  assumes "sorted_wrt (<) (map ie_offset (ix_entries ix))"
  shows "case index_lookup_floor ix t of
      None \<Rightarrow> \<forall>e \<in> set (ix_entries ix). t < ie_offset e
    | Some e \<Rightarrow> e \<in> set (ix_entries ix) \<and> ie_offset e \<le> t \<and>
        (\<forall>e' \<in> set (ix_entries ix). ie_offset e' \<le> t \<longrightarrow> ie_offset e' \<le> ie_offset e)"
proof -
  let ?es = "ix_entries ix"
  have srt: "sorted (map ie_offset ?es)"
    using assms by (rule strict_sorted_imp_sorted)
  show ?thesis
  proof (cases "binary_search_by_key ie_offset t ?es")
    case (Found i)
    then show ?thesis
      using entry_search.found [OF Found] by (auto simp: index_lookup_floor_def)
  next
    case (Missing n)
    show ?thesis
    proof (cases n)
      case 0
      then show ?thesis
        using entry_search.missing [OF srt Missing] Missing
        by (auto simp: index_lookup_floor_def in_set_conv_nth)
    next
      case (Suc i)
      have i: "i < length ?es" "ie_offset (?es ! i) < t"
        and above: "\<And>j. i < j \<Longrightarrow> j < length ?es \<Longrightarrow> t < ie_offset (?es ! j)"
        using entry_search.search_floor [OF srt] Missing Suc by auto
      have "ie_offset (?es ! j) \<le> ie_offset (?es ! i)"
        if "j < length ?es" "ie_offset (?es ! j) \<le> t" for j
      proof -
        have "j \<le> i"
          using above [of j] that by (meson leD leI)
        then show ?thesis
          using srt i(1) by (simp add: sorted_iff_nth_mono)
      qed
      then show ?thesis
        using i Missing Suc by (auto simp: index_lookup_floor_def in_set_conv_nth)
    qed
  qed
qed

text \<open>C38: Loading an index file gives back exactly the entries whose encodings it holds, and a
  handle that stands at the end for further appends; a file whose length is not a multiple
  of the entry size is reported as corrupted, with its length.\<close>

theorem index_load_reads_file:
  assumes "quiet w" "content w p = Some c" "length c < 2 ^ 64"
  shows "if length c mod INDEX_ENTRY_SIZE = 0
    then \<exists>es. c = entries_bytes es \<and> index_load p (u, w) = (Ok (loaded_index p es), (u, w))
    else index_load p (u, w) = (Err (CorruptedIndex (of_nat (length c))), (u, w))"
proof (cases "length c mod 16 = 0")
  case True
  from entries_of_bytes [OF this] obtain es where "c = entries_bytes es" ..
  with True show ?thesis
    using index_load_ok [of w p es u] assms by (auto simp: INDEX_ENTRY_SIZE_def)
next
  case False
  then show ?thesis
    using index_load_corrupt [OF assms] by (simp add: INDEX_ENTRY_SIZE_def)
qed

theorem index_load_reads_file_witness:
  "if length (entries_bytes two_entries) mod INDEX_ENTRY_SIZE = 0
    then \<exists>es. entries_bytes two_entries = entries_bytes es \<and>
      index_load [''i''] ((), index_world two_entries) =
        (Ok (loaded_index [''i''] es), ((), index_world two_entries))
    else index_load [''i''] ((), index_world two_entries) =
      (Err (CorruptedIndex (of_nat (length (entries_bytes two_entries)))), ((), index_world two_entries))"
  by (rule index_load_reads_file) (simp_all add: index_world_facts, simp add: two_entries_def)

end
