(* ===== verification/Ruka_Segment.thy ===== *)
theory Ruka_Segment
  imports Ruka_Record Ruka_Index
begin

text \<open>
  Segments: \<open>storage/segment.rs\<close>. A segment is a log file with its index; methods with a
  mutable receiver are programs over the segment and the world.
\<close>

record segment =
  sg_base_offset :: u64
  sg_log_file :: file_handle
  sg_index :: index
  sg_current_size :: u64
  sg_next_offset :: u64
  sg_max_bytes :: u64
  sg_sync_level :: sync_level

definition log_path :: "path \<Rightarrow> u64 \<Rightarrow> path" where
  "log_path dir base_offset = dir @ [show_020 (unat base_offset) @ ''.log'']"

definition index_path :: "path \<Rightarrow> u64 \<Rightarrow> path" where
  "index_path dir base_offset = dir @ [show_020 (unat base_offset) @ ''.index'']"

definition segment_create :: "path \<Rightarrow> u64 \<Rightarrow> u64 \<Rightarrow> sync_level \<Rightarrow> segment path_prog" where
  "segment_create dir base_offset max_bytes sync =
     bindp (create_dir_all dir) (\<lambda>_.
     bindp (file_open True False True (log_path dir base_offset)) (\<lambda>log_file.
     bindp (index_create (index_path dir base_offset)) (\<lambda>ix.
     returnp \<lparr> sg_base_offset = base_offset, sg_log_file = log_file, sg_index = ix,
       sg_current_size = 0, sg_next_offset = base_offset, sg_max_bytes = max_bytes,
       sg_sync_level = sync \<rparr>)))"

text \<open>
  The recovery loop of \<open>Segment::load\<close>: records are decoded from the front of the log until one
  is incomplete or malformed. It returns the next offset and the number of valid bytes.
  Every decoded record shortens the buffer (\<open>record_decode_shorter\<close>), so the last branch
  is never taken.
\<close>

function recover_loop ::
    "bytes_ops \<Rightarrow> bool \<Rightarrow> bytes \<Rightarrow> u64 \<Rightarrow> nat \<Rightarrow> (index \<times> world, ruka_error, u64 \<times> nat) prog" where
  "recover_loop bx rebuild_index src current_offset valid_bytes =
     (case record_decode bx src of
        (Ok (Some r), src') \<Rightarrow>
          if length src' < length src then
            (let rec_len = length src - length src' in
             bindp (if rebuild_index then index_append (lr_offset r) (of_nat valid_bytes) else returnp ())
               (\<lambda>_. recover_loop bx rebuild_index src' (lr_offset r + 1) (valid_bytes + rec_len)))
          else panicp
      | (Ok None, src') \<Rightarrow> returnp (current_offset, valid_bytes)
      | (Err e, src') \<Rightarrow> returnp (current_offset, valid_bytes)
      | (Panic, src') \<Rightarrow> panicp)"
  by pat_completeness auto
termination
  by (relation "measure (\<lambda>(bx, rebuild, src, off, valid). length src)") auto

declare recover_loop.simps [simp del]

definition segment_load :: "bytes_ops \<Rightarrow> path \<Rightarrow> u64 \<Rightarrow> u64 \<Rightarrow> sync_level \<Rightarrow> segment path_prog" where
  "segment_load bx dir base_offset max_bytes sync =
     bindp (file_open False False False (log_path dir base_offset)) (\<lambda>log_file.
     bindp (catchp (index_load (index_path dir base_offset)) returnp
              (\<lambda>_. index_create (index_path dir base_offset))) (\<lambda>ix.
     bindp (with_local log_file metadata_len) (\<lambda>(file_len, log_file).
     bindp (with_local log_file (bindp (seek_start 0) (\<lambda>_. read_to_end))) (\<lambda>(buf, log_file).
     let rebuild_index = (entry_count ix = 0 \<and> file_len > 0) in
     bindp (with_local ix (recover_loop bx rebuild_index buf base_offset 0))
       (\<lambda>((current_offset, valid_bytes), ix).
     bindp (with_local log_file
              (if valid_bytes < unat file_len then set_len (of_nat valid_bytes) else returnp ()))
       (\<lambda>(_, log_file).
     bindp (with_local ix (if rebuild_index then index_flush else returnp ())) (\<lambda>(_, ix).
     bindp (with_local log_file seek_end) (\<lambda>(_, log_file).
     returnp \<lparr> sg_base_offset = base_offset, sg_log_file = log_file, sg_index = ix,
       sg_current_size = of_nat valid_bytes, sg_next_offset = current_offset,
       sg_max_bytes = max_bytes, sg_sync_level = sync \<rparr>))))))))"

text \<open>The two synchronisation points of an append.\<close>

definition sync_log :: "(segment \<times> world, ruka_error, unit) prog" where
  "sync_log sw =
     (if sg_sync_level (fst sw) = SyncLog \<or> sg_sync_level (fst sw) = SyncLogAndIndex
      then zoom sg_log_file sg_log_file_update sync_data sw else (Ok (), sw))"

definition sync_index :: "(segment \<times> world, ruka_error, unit) prog" where
  "sync_index sw =
     (if sg_sync_level (fst sw) = SyncLogAndIndex
      then zoom sg_index sg_index_update index_sync sw else (Ok (), sw))"

definition segment_append ::
    "bytes_ops \<Rightarrow> bytes option \<Rightarrow> bytes option \<Rightarrow> (segment \<times> world, ruka_error, u64) prog" where
  "segment_append bx key val sw =
     (let s = fst sw;
          rec_len = 4 + 8 + 8 + 4 + opt_len key + 4 + opt_len val in
      if of_nat rec_len > sg_max_bytes s then (Err MessageTooLarge, sw)
      else if sg_current_size s + of_nat rec_len > sg_max_bytes s \<and> sg_current_size s > 0
      then (Err (SegmentFull (sg_current_size s) (sg_max_bytes s)), sw)
      else
        let offset = sg_next_offset s;
            record = \<lparr> lr_offset = offset, lr_timestamp_ms = clock (snd sw),
                       lr_key = key, lr_value = val \<rparr>;
            data = record_encode bx record [];
            physical_position = sg_current_size s in
        bindp (zoom sg_log_file sg_log_file_update (write_all data)) (\<lambda>_.
        bindp sync_log (\<lambda>_.
        bindp (zoom sg_index sg_index_update (index_append offset physical_position)) (\<lambda>_.
        bindp sync_index (\<lambda>_.
        bindp (modifyp (\<lambda>(s, w).
          (s \<lparr> sg_current_size := sg_current_size s + of_nat (length data),
               sg_next_offset := sg_next_offset s + 1 \<rparr>, w))) (\<lambda>_.
        returnp offset))))) sw)"

text \<open>
  The loop of \<open>append_batch\<close> over the payloads; its state is the encoded data, the next
  physical position and offset, the index entries and the number of records.
\<close>

fun batch_loop ::
    "bytes_ops \<Rightarrow> u64 \<Rightarrow> u64 \<Rightarrow> u64 \<Rightarrow> bytes list \<Rightarrow> bytes \<Rightarrow> u64 \<Rightarrow> u64 \<Rightarrow> (u64 \<times> u64) list \<Rightarrow> nat \<Rightarrow>
     (bytes \<times> u64 \<times> (u64 \<times> u64) list \<times> nat) res" where
  "batch_loop bx max_bytes current_size ts [] buf pos off entries count =
     Ok (buf, off, entries, count)"
| "batch_loop bx max_bytes current_size ts (payload # payloads) buf pos off entries count =
     (let rec_len = 28 + of_nat (length payload) in
      if rec_len > max_bytes then Err MessageTooLarge
      else if pos + rec_len > max_bytes then
        (if count > 0 then Ok (buf, off, entries, count)
         else Err (SegmentFull current_size max_bytes))
      else
        let record = \<lparr> lr_offset = off, lr_timestamp_ms = ts, lr_key = None, lr_value = Some payload \<rparr>;
            buf' = record_encode bx record buf;
            bytes_added = of_nat (length buf' - length buf) in
        batch_loop bx max_bytes current_size ts payloads buf' (pos + bytes_added) (off + 1)
          (entries @ [(off, pos)]) (count + 1))"

fun append_entries :: "(u64 \<times> u64) list \<Rightarrow> (index \<times> world, ruka_error, unit) prog" where
  "append_entries [] = returnp ()"
| "append_entries ((off, pos) # es) = bindp (index_append off pos) (\<lambda>_. append_entries es)"

definition segment_append_batch ::
    "bytes_ops \<Rightarrow> bytes list \<Rightarrow> (segment \<times> world, ruka_error, u64 \<times> nat) prog" where
  "segment_append_batch bx payloads sw =
     (let s = fst sw in
      if payloads = [] then (Ok (sg_next_offset s, 0), sw)
      else case batch_loop bx (sg_max_bytes s) (sg_current_size s) (clock (snd sw)) payloads []
             (sg_current_size s) (sg_next_offset s) [] 0 of
        Err e \<Rightarrow> (Err e, sw)
      | Panic \<Rightarrow> (Panic, sw)
      | Ok (data, current_offset, index_entries, appended_count) \<Rightarrow>
          if data = [] then (Ok (sg_next_offset s, appended_count), sw)
          else
            bindp (zoom sg_log_file sg_log_file_update (write_all data)) (\<lambda>_.
            bindp sync_log (\<lambda>_.
            bindp (zoom sg_index sg_index_update (append_entries index_entries)) (\<lambda>_.
            bindp sync_index (\<lambda>_.
            bindp (modifyp (\<lambda>(s, w).
              (s \<lparr> sg_current_size := sg_current_size s + of_nat (length data),
                   sg_next_offset := current_offset \<rparr>, w))) (\<lambda>_.
            returnp (sg_next_offset s, appended_count)))))) sw)"

text \<open>Reading the whole record that starts at the cursor, by its length prefix.\<close>

definition read_exact_record :: "(segment \<times> world, ruka_error, bytes) prog" where
  "read_exact_record =
     bindp (zoom sg_log_file sg_log_file_update (read_exact 4)) (\<lambda>len_buf.
     let rec_len = unat (be_word len_buf :: u32) in
     if rec_len < 4 then panicp
     else bindp (zoom sg_log_file sg_log_file_update (read_exact (rec_len - 4))) (\<lambda>rest.
       returnp (len_buf @ rest)))"

definition segment_read_at ::
    "bytes_ops \<Rightarrow> u64 \<Rightarrow> (segment \<times> world, ruka_error, log_record option) prog" where
  "segment_read_at bx offset sw =
     (let s = fst sw in
      if offset < sg_base_offset s \<or> offset \<ge> sg_next_offset s then (Ok None, sw)
      else case index_lookup (sg_index s) offset of
        None \<Rightarrow> (Ok None, sw)
      | Some position \<Rightarrow>
          bindp (zoom sg_log_file sg_log_file_update (seek_start position)) (\<lambda>_.
          bindp (zoom sg_log_file sg_log_file_update (file_read 4096)) (\<lambda>chunk.
          let exact =
            bindp (zoom sg_log_file sg_log_file_update (seek_start position)) (\<lambda>_.
            bindp read_exact_record (\<lambda>full_buf.
            case fst (record_decode bx full_buf) of
              Ok r \<Rightarrow> returnp r | Err e \<Rightarrow> failp e | Panic \<Rightarrow> panicp)) in
          case fst (record_decode bx chunk) of
            Err e \<Rightarrow> failp e
          | Panic \<Rightarrow> panicp
          | Ok (Some r) \<Rightarrow> if lr_offset r = offset then returnp (Some r) else exact
          | Ok None \<Rightarrow> exact)) sw)"

text \<open>The loop of \<open>read_batch\<close> over the chunk that was read.\<close>

function batch_scan ::
    "bytes_ops \<Rightarrow> u64 \<Rightarrow> nat \<Rightarrow> bytes \<Rightarrow> log_record list \<Rightarrow> nat \<Rightarrow> log_record list res" where
  "batch_scan bx offset max_bytes src records total_bytes =
     (if length src < 4 then Ok records
      else case get_u32 bx src of
        None \<Rightarrow> Panic
      | Some (len, _) \<Rightarrow>
         (let rec_len = unat len in
          if length src < rec_len then Ok records
          else if total_bytes + rec_len > max_bytes \<and> records \<noteq> [] then Ok records
          else case record_decode bx src of
            (Ok (Some r), src') \<Rightarrow>
              if length src' < length src then
                (if lr_offset r \<ge> offset
                 then batch_scan bx offset max_bytes src' (records @ [r]) (total_bytes + rec_len)
                 else batch_scan bx offset max_bytes src' records total_bytes)
              else Panic
          | (Ok None, src') \<Rightarrow> Ok records
          | (Err e, src') \<Rightarrow> Ok records
          | (Panic, src') \<Rightarrow> Panic))"
  by pat_completeness auto
termination
  by (relation "measure (\<lambda>(bx, off, mx, src, rs, t). length src)") auto

declare batch_scan.simps [simp del]

definition segment_read_batch ::
    "bytes_ops \<Rightarrow> u64 \<Rightarrow> u32 \<Rightarrow> (segment \<times> world, ruka_error, log_record list) prog" where
  "segment_read_batch bx offset max_bytes sw =
     (let s = fst sw in
      if offset < sg_base_offset s \<or> offset \<ge> sg_next_offset s then (Ok [], sw)
      else case index_lookup (sg_index s) offset of
        None \<Rightarrow> (Ok [], sw)
      | Some position \<Rightarrow>
          bindp (zoom sg_log_file sg_log_file_update (seek_start position)) (\<lambda>_.
          bindp (zoom sg_log_file sg_log_file_update
                   (file_read (if unat max_bytes < 1024 * 1024 then 1024 * 1024 else unat max_bytes)))
            (\<lambda>chunk.
          case batch_scan bx offset (unat max_bytes) chunk [] 0 of
            Err e \<Rightarrow> failp e
          | Panic \<Rightarrow> panicp
          | Ok records \<Rightarrow>
              if records = [] \<and> chunk \<noteq> [] then
                bindp (zoom sg_log_file sg_log_file_update (seek_start position)) (\<lambda>_.
                catchp read_exact_record (\<lambda>full_buf.
                  case fst (record_decode bx full_buf) of
                    Ok (Some r) \<Rightarrow> returnp (if lr_offset r \<ge> offset then [r] else [])
                  | Ok None \<Rightarrow> returnp []
                  | Err e \<Rightarrow> returnp []
                  | Panic \<Rightarrow> panicp) (\<lambda>_. returnp []))
              else returnp records)) sw)"

definition segment_is_full :: "segment \<Rightarrow> bool" where
  "segment_is_full s \<longleftrightarrow> sg_current_size s \<ge> sg_max_bytes s"

definition segment_flush :: "(segment \<times> world, ruka_error, unit) prog" where
  "segment_flush =
     bindp (zoom sg_log_file sg_log_file_update file_flush) (\<lambda>_.
     zoom sg_index sg_index_update index_flush)"

definition segment_sync :: "(segment \<times> world, ruka_error, unit) prog" where
  "segment_sync =
     bindp (zoom sg_log_file sg_log_file_update sync_data) (\<lambda>_.
     zoom sg_index sg_index_update index_sync)"

end
