(* ===== verification/Ruka_Log.thy ===== *)
theory Ruka_Log
  imports Ruka_Record Ruka_Index
begin

text \<open>
  The content of a segment as a list of records: the bytes of the log, the index entries
  that belong to it, consecutive offsets, and the prefix of a log that fits a byte budget.
  These are the abstract views that the segment and partition theories refine.
\<close>

definition log_bytes :: "log_record list \<Rightarrow> bytes" where
  "log_bytes rs = concat (map record_bytes rs)"

fun entries_at :: "nat \<Rightarrow> log_record list \<Rightarrow> index_entry list" where
  "entries_at pos [] = []"
| "entries_at pos (r # rs) =
     \<lparr> ie_offset = lr_offset r, ie_position = of_nat pos \<rparr> # entries_at (pos + record_len r) rs"

fun offsets_from :: "u64 \<Rightarrow> log_record list \<Rightarrow> bool" where
  "offsets_from b [] = True"
| "offsets_from b (r # rs) = (lr_offset r = b \<and> offsets_from (b + 1) rs)"

text \<open>The longest prefix within a budget of bytes, and the variant that always takes one record.\<close>

fun greedy :: "nat \<Rightarrow> log_record list \<Rightarrow> log_record list" where
  "greedy budget [] = []"
| "greedy budget (r # rs) =
     (if record_len r \<le> budget then r # greedy (budget - record_len r) rs else [])"

fun batch_prefix :: "nat \<Rightarrow> log_record list \<Rightarrow> log_record list" where
  "batch_prefix budget [] = []"
| "batch_prefix budget (r # rs) = r # greedy (budget - record_len r) rs"

section \<open>Bytes of a log\<close>

lemma log_bytes_simps [simp]:
  "log_bytes [] = []" "log_bytes (r # rs) = record_bytes r @ log_bytes rs"
  "log_bytes (rs @ ss) = log_bytes rs @ log_bytes ss"
  by (simp_all add: log_bytes_def)

lemma log_bytes_take_drop: "log_bytes rs = log_bytes (take i rs) @ log_bytes (drop i rs)"
  by (metis append_take_drop_id log_bytes_simps(3))

lemma drop_log_bytes: "drop (length (log_bytes (take i rs))) (log_bytes rs) = log_bytes (drop i rs)"
  using log_bytes_take_drop [of rs i] by simp

lemma length_log_bytes_take: "length (log_bytes (take i rs)) \<le> length (log_bytes rs)"
  using log_bytes_take_drop [of rs i] by simp

lemma log_bytes_empty_iff [simp]: "log_bytes rs = [] \<longleftrightarrow> rs = []"
  by (cases rs) simp_all

lemma log_bytes_drop_nth:
  "i < length rs \<Longrightarrow> log_bytes (drop i rs) = record_bytes (rs ! i) @ log_bytes (drop (Suc i) rs)"
  by (simp flip: Cons_nth_drop_Suc)

section \<open>Entries of a log\<close>

lemma length_entries_at [simp]: "length (entries_at pos rs) = length rs"
  by (induction pos rs rule: entries_at.induct) simp_all

lemma entries_at_append:
  "entries_at pos (rs @ ss) = entries_at pos rs @ entries_at (pos + length (log_bytes rs)) ss"
  by (induction pos rs rule: entries_at.induct) (simp_all add: add.assoc)

lemma entries_at_nth:
  "i < length rs \<Longrightarrow> entries_at pos rs ! i =
     \<lparr> ie_offset = lr_offset (rs ! i), ie_position = of_nat (pos + length (log_bytes (take i rs))) \<rparr>"
proof (induction pos rs arbitrary: i rule: entries_at.induct)
  case (2 pos r rs)
  then show ?case by (cases i) (simp_all add: add.assoc)
qed simp

lemma entries_at_offsets [simp]: "map ie_offset (entries_at pos rs) = map lr_offset rs"
  by (induction pos rs rule: entries_at.induct) simp_all

section \<open>Consecutive offsets\<close>

lemma offsets_from_append:
  "offsets_from b (rs @ ss) \<longleftrightarrow> offsets_from b rs \<and> offsets_from (b + of_nat (length rs)) ss"
  by (induction b rs rule: offsets_from.induct) (simp_all add: add.assoc)

lemma offsets_from_prefix: "offsets_from b (rs @ ss) \<Longrightarrow> offsets_from b rs"
  by (simp add: offsets_from_append)

lemma offsets_from_nth:
  "offsets_from b rs \<Longrightarrow> i < length rs \<Longrightarrow> lr_offset (rs ! i) = b + of_nat i"
proof (induction b rs arbitrary: i rule: offsets_from.induct)
  case (2 b r rs)
  then show ?case by (cases i) (simp_all add: add.assoc)
qed simp

lemma offsets_from_drop: "offsets_from b rs \<Longrightarrow> i \<le> length rs \<Longrightarrow> offsets_from (b + of_nat i) (drop i rs)"
  using offsets_from_append [of b "take i rs" "drop i rs"] by (simp add: min_absorb2)

lemma unat_offset: "unat b + i < 2 ^ 64 \<Longrightarrow> unat (b + of_nat i :: u64) = unat b + i"
  by (simp add: unat_add_u64 unat_of_nat_u64)

lemma offset_from_unat: "unat b = unat a + n \<Longrightarrow> a + of_nat n = (b :: u64)"
  by (metis of_nat_add of_nat_unat ucast_id)

lemma offset_less_iff:
  assumes "unat b + i < 2 ^ 64" "unat b + j < 2 ^ 64"
  shows "b + of_nat i < (b + of_nat j :: u64) \<longleftrightarrow> i < j"
  using assms by (simp add: word_less_nat_alt unat_offset)

lemma offset_eq_iff:
  assumes "unat b + i < 2 ^ 64" "unat b + j < 2 ^ 64"
  shows "b + of_nat i = (b + of_nat j :: u64) \<longleftrightarrow> i = j"
  using assms by (metis add_left_cancel unat_offset)

lemma offsets_from_sorted:
  assumes "offsets_from b rs" "unat b + length rs < 2 ^ 64"
  shows "sorted_wrt (<) (map lr_offset rs)"
  using assms by (auto simp: sorted_wrt_iff_nth_less offsets_from_nth offset_less_iff)

text \<open>An offset between the first and the next one belongs to a record.\<close>

lemma offset_in_range:
  assumes "b \<le> t" "t < (b + of_nat n :: u64)" "unat b + n < 2 ^ 64"
  shows "\<exists>i < n. t = b + of_nat i"
proof -
  have "unat b \<le> unat t" "unat t < unat b + n"
    using assms by (simp_all add: word_le_nat_alt word_less_nat_alt unat_offset)
  then have "unat (b + of_nat (unat t - unat b)) = unat t"
    using assms(3) by (subst unat_offset) simp_all
  then have "t = b + of_nat (unat t - unat b)"
    by (metis word_unat_eq_iff)
  moreover have "unat t - unat b < n"
    using \<open>unat b \<le> unat t\<close> \<open>unat t < unat b + n\<close> by simp
  ultimately show ?thesis by blast
qed

lemma offset_range_iff:
  assumes "i < n" "unat b + n < 2 ^ 64"
  shows "\<not> b + of_nat i < b" "b + of_nat i < (b + of_nat n :: u64)"
  using assms by (simp_all add: word_less_nat_alt unat_offset)

section \<open>Prefixes within a budget\<close>

lemma greedy_prefix: "\<exists>k. greedy budget rs = take k rs"
proof (induction budget rs rule: greedy.induct)
  case (2 budget r rs)
  show ?case
  proof (cases "record_len r \<le> budget")
    case True
    with 2 obtain k where "greedy (budget - record_len r) rs = take k rs" by blast
    with True have "greedy budget (r # rs) = take (Suc k) (r # rs)" by simp
    then show ?thesis by blast
  next
    case False
    then have "greedy budget (r # rs) = take 0 (r # rs)" by simp
    then show ?thesis by blast
  qed
qed simp

lemma greedy_length_le: "length (greedy n rs) \<le> length rs"
  using greedy_prefix [of n rs] by auto

lemma greedy_take: "greedy n rs = take (length (greedy n rs)) rs"
  using greedy_prefix [of n rs] by (metis length_take min.cobounded2 min_def take_all_iff take_take)

lemma record_len_pos [simp]: "0 < record_len r"
  using record_len_ge [of r] by simp

lemma greedy_0 [simp]: "greedy 0 rs = []"
  by (cases rs) simp_all

lemma greedy_bound: "length (log_bytes (greedy budget rs)) \<le> budget"
  by (induction budget rs rule: greedy.induct) auto

lemma batch_prefix_prefix: "\<exists>k. batch_prefix budget rs = take k rs"
proof (cases rs)
  case (Cons r rs')
  obtain k where "greedy (budget - record_len r) rs' = take k rs'"
    using greedy_prefix by blast
  with Cons have "batch_prefix budget rs = take (Suc k) rs" by simp
  then show ?thesis by blast
qed simp

section \<open>Looking up an offset\<close>

definition record_at :: "u64 \<Rightarrow> log_record list \<Rightarrow> log_record option" where
  "record_at off rs = find (\<lambda>r. lr_offset r = off) rs"

lemma record_at_simps [simp]:
  "record_at off [] = None"
  "record_at off (r # rs) = (if lr_offset r = off then Some r else record_at off rs)"
  by (simp_all add: record_at_def)

lemma record_at_None: "record_at off rs = None \<longleftrightarrow> off \<notin> lr_offset ` set rs"
  by (auto simp: record_at_def find_None_iff)

lemma record_at_append:
  "record_at off (rs @ ss) = (case record_at off rs of Some r \<Rightarrow> Some r | None \<Rightarrow> record_at off ss)"
  by (induction rs) simp_all

lemma record_at_nth:
  assumes "sorted_wrt (<) (map lr_offset rs)" "i < length rs"
  shows "record_at (lr_offset (rs ! i)) rs = Some (rs ! i)"
  using assms
proof (induction rs arbitrary: i)
  case (Cons r rs)
  then show ?case by (cases i) (auto simp: less_imp_neq)
qed simp

section \<open>The contract of an append-only log\<close>

text \<open>
  What a client of a segment or of a partition relies on. \<open>ok\<close> relates the state to the
  records in it; an append that is not refused adds one record behind them, and a read
  returns the record with the given offset.
\<close>

locale append_log =
  fixes ok :: "'s \<Rightarrow> log_record list \<Rightarrow> bool"
    and admits :: "'s \<Rightarrow> bytes option \<Rightarrow> bytes option \<Rightarrow> bool"
    and app :: "bytes option \<Rightarrow> bytes option \<Rightarrow> ('s, ruka_error, u64) prog"
    and rd :: "u64 \<Rightarrow> ('s, ruka_error, log_record option) prog"
  assumes increasing: "ok s rs \<Longrightarrow> sorted_wrt (<) (map lr_offset rs)"
    and read_law: "ok s rs \<Longrightarrow> \<exists>s'. rd off s = (Ok (record_at off rs), s') \<and> ok s' rs"
    and append_law: "ok s rs \<Longrightarrow> admits s k v \<Longrightarrow>
      (\<exists>e s'. app k v s = (Err e, s') \<and> ok s' rs) \<or>
      (\<exists>off ts s'. app k v s = (Ok off, s') \<and>
        ok s' (rs @ [\<lparr> lr_offset = off, lr_timestamp_ms = ts, lr_key = k, lr_value = v \<rparr>]))"
begin

lemma append_fresh:
  assumes "ok s rs" "admits s k v" "app k v s = (Ok off, s')"
  shows "\<exists>ts. ok s' (rs @ [\<lparr> lr_offset = off, lr_timestamp_ms = ts, lr_key = k, lr_value = v \<rparr>]) \<and>
    (\<forall>r \<in> set rs. lr_offset r < off)"
proof -
  obtain ts where ts: "ok s' (rs @ [\<lparr> lr_offset = off, lr_timestamp_ms = ts, lr_key = k, lr_value = v \<rparr>])"
    using append_law [OF assms(1,2)] assms(3) by auto
  with increasing [OF ts] show ?thesis
    by (auto simp: sorted_wrt_append)
qed

text \<open>An appended record is what the next read at its offset returns.\<close>

lemma read_own_append:
  assumes "ok s rs" "admits s k v" "app k v s = (Ok off, s')"
  shows "\<exists>ts. fst (rd off s') =
    Ok (Some \<lparr> lr_offset = off, lr_timestamp_ms = ts, lr_key = k, lr_value = v \<rparr>)"
proof -
  obtain ts where ts: "ok s' (rs @ [\<lparr> lr_offset = off, lr_timestamp_ms = ts, lr_key = k, lr_value = v \<rparr>])"
    and new: "\<forall>r \<in> set rs. lr_offset r < off"
    using append_fresh [OF assms] by blast
  have "record_at off rs = None"
    using new by (auto simp: record_at_None)
  then show ?thesis
    using read_law [OF ts, of off] by (auto simp: record_at_append)
qed

text \<open>Appends and reads never change what a read at another offset returns.\<close>

lemma append_keeps_reads:
  assumes "ok s rs" "admits s k v" "app k v s = (Ok off, s')" "o' \<noteq> off"
  shows "fst (rd o' s') = fst (rd o' s)"
proof -
  obtain ts where ts: "ok s' (rs @ [\<lparr> lr_offset = off, lr_timestamp_ms = ts, lr_key = k, lr_value = v \<rparr>])"
    using append_fresh [OF assms(1-3)] by blast
  show ?thesis
    using read_law [OF ts, of o'] read_law [OF assms(1), of o'] assms(4)
    by (auto simp: record_at_append split: option.splits)
qed

lemma read_keeps_reads: "ok s rs \<Longrightarrow> fst (rd o' (snd (rd off s))) = fst (rd o' s)"
  using read_law by (metis fst_conv snd_conv)

lemma failed_append_keeps_reads:
  assumes "ok s rs" "admits s k v" "app k v s = (Err e, s')"
  shows "fst (rd o' s') = fst (rd o' s)"
proof -
  have "ok s' rs"
    using append_law [OF assms(1,2)] assms(3) by auto
  then show ?thesis
    using read_law assms(1) by (metis fst_conv)
qed

end

end
