(* ===== verification/Ruka_Segment_Inv.thy ===== *)
theory Ruka_Segment_Inv
  imports Ruka_Segment Ruka_Log
begin

text \<open>
  What the methods of \<open>storage/segment.rs\<close> do, in terms of the list of records that a segment
  holds: the representation invariant, appends of one record and of a batch, and reads of
  one record and of a batch.
\<close>

section \<open>The representation of a list of records\<close>

text \<open>
  \<open>segment_holds\<close> relates a segment to the records in it: the log file is their encodings,
  every record has its index entry, offsets are consecutive, and the counters agree with
  the file. It says nothing about the cursor and is all that reads rely on.
\<close>

definition segment_holds :: "segment \<Rightarrow> world \<Rightarrow> log_record list \<Rightarrow> bool" where
  "segment_holds s w rs \<longleftrightarrow>
     content w (fpath (sg_log_file s)) = Some (log_bytes rs) \<and>
     ix_entries (sg_index s) = entries_at 0 rs \<and>
     offsets_from (sg_base_offset s) rs \<and>
     sg_next_offset s = sg_base_offset s + of_nat (length rs) \<and>
     unat (sg_base_offset s) + length rs < 2 ^ 64 \<and>
     sg_current_size s = of_nat (length (log_bytes rs)) \<and>
     length (log_bytes rs) < 2 ^ 63 \<and>
     unat (sg_max_bytes s) < 2 ^ 63 \<and>
     (\<forall>r \<in> set rs. wf_record r)"

text \<open>
  Appending needs in addition that a write goes to the end of the log, and an index that
  is in step with its own, different, file.
\<close>

definition segment_ok :: "segment \<Rightarrow> world \<Rightarrow> log_record list \<Rightarrow> bool" where
  "segment_ok s w rs \<longleftrightarrow>
     segment_holds s w rs \<and>
     (append_mode (sg_log_file s) \<or> cursor (sg_log_file s) = length (log_bytes rs)) \<and>
     index_ok (sg_index s) w \<and>
     fpath (sg_log_file s) \<noteq> fpath (ix_file (sg_index s))"

definition seg_files :: "segment \<Rightarrow> path set" where
  "seg_files s = {fpath (sg_log_file s), fpath (ix_file (sg_index s))}"

text \<open>A step of the world that changes the given paths only and leaves it without failures.\<close>

definition only_touches :: "path set \<Rightarrow> world \<Rightarrow> world \<Rightarrow> bool" where
  "only_touches ps w w' \<longleftrightarrow>
     quiet w' \<and> clock w' = clock w \<and> (\<forall>q. q \<notin> ps \<longrightarrow> map_of (nodes w') q = map_of (nodes w) q)"

text \<open>The parts of a segment that no operation changes.\<close>

definition same_segment :: "segment \<Rightarrow> segment \<Rightarrow> bool" where
  "same_segment s s' \<longleftrightarrow>
     sg_base_offset s' = sg_base_offset s \<and> sg_max_bytes s' = sg_max_bytes s \<and>
     sg_sync_level s' = sg_sync_level s \<and> seg_files s' = seg_files s \<and>
     fpath (sg_log_file s') = fpath (sg_log_file s) \<and>
     append_mode (sg_log_file s') = append_mode (sg_log_file s)"

definition at_cursor :: "nat \<Rightarrow> segment \<Rightarrow> segment" where
  "at_cursor c s = s \<lparr> sg_log_file := (sg_log_file s) \<lparr> cursor := c \<rparr> \<rparr>"

lemma at_cursor_simps [simp]:
  "sg_base_offset (at_cursor c s) = sg_base_offset s" "sg_index (at_cursor c s) = sg_index s"
  "sg_next_offset (at_cursor c s) = sg_next_offset s" "sg_max_bytes (at_cursor c s) = sg_max_bytes s"
  "sg_current_size (at_cursor c s) = sg_current_size s"
  "sg_sync_level (at_cursor c s) = sg_sync_level s"
  "sg_log_file (at_cursor c s) = (sg_log_file s) \<lparr> cursor := c \<rparr>"
  "at_cursor d (at_cursor c s) = at_cursor d s" "seg_files (at_cursor c s) = seg_files s"
  by (simp_all add: at_cursor_def seg_files_def)

lemma at_cursor_same [simp]: "same_segment s (at_cursor c s)"
  by (simp add: same_segment_def)

lemma segment_holds_at_cursor [simp]: "segment_holds (at_cursor c s) w rs = segment_holds s w rs"
  by (simp add: segment_holds_def)

lemma segment_ok_at_cursor:
  "segment_ok s w rs \<Longrightarrow> append_mode (sg_log_file s) \<Longrightarrow> segment_ok (at_cursor c s) w rs"
  by (simp add: segment_ok_def)

lemma only_touches_refl: "quiet w \<Longrightarrow> only_touches ps w w"
  by (simp add: only_touches_def)

lemma only_touches_trans:
  "only_touches ps w w' \<Longrightarrow> only_touches qs w' w'' \<Longrightarrow> only_touches (ps \<union> qs) w w''"
  by (simp add: only_touches_def)

lemma only_touches_again: "only_touches ps w w' \<Longrightarrow> only_touches ps w' w'' \<Longrightarrow> only_touches ps w w''"
  by (simp add: only_touches_def)

lemma only_touches_mono: "only_touches ps w w' \<Longrightarrow> ps \<subseteq> qs \<Longrightarrow> only_touches qs w w'"
  by (auto simp: only_touches_def)

lemma only_touches_set [intro]:
  "quiet w \<Longrightarrow> only_touches {p} w (set_content p c w)"
  "quiet w \<Longrightarrow> only_touches {p} w (set_node p n w)"
  by (simp_all add: only_touches_def fs_simps set_content_def)

lemma only_touches_content:
  "only_touches ps w w' \<Longrightarrow> p \<notin> ps \<Longrightarrow> content w' p = content w p"
  by (simp add: only_touches_def content_def)

lemma only_touches_durable:
  "only_touches ps w w' \<Longrightarrow> p \<notin> ps \<Longrightarrow> durable w' p = durable w p"
  by (simp add: only_touches_def durable_def)

lemma only_touches_quiet: "only_touches ps w w' \<Longrightarrow> quiet w'"
  by (simp add: only_touches_def)

text \<open>A segment is not affected by what happens to other files.\<close>

lemma segment_ok_other:
  assumes "segment_ok s w rs" "only_touches ps w w'" "seg_files s \<inter> ps = {}"
  shows "segment_ok s w' rs"
  using assms only_touches_content [OF assms(2)]
  by (auto simp: segment_ok_def segment_holds_def index_ok_def seg_files_def)

lemma same_segment_trans: "same_segment s s' \<Longrightarrow> same_segment s' s'' \<Longrightarrow> same_segment s s''"
  by (simp add: same_segment_def)

lemma zoom_log [prog_simps]:
  "m (sg_log_file s, w) = (r, (sg_log_file s \<lparr> cursor := c \<rparr>, w')) \<Longrightarrow>
   zoom sg_log_file sg_log_file_update m (s, w) = (r, (at_cursor c s, w'))"
  by (simp add: zoom_def at_cursor_def)

section \<open>Appending records\<close>

text \<open>The common part of both appends: write the log, sync it, write the index, sync it.\<close>

definition store_records ::
    "bytes \<Rightarrow> (u64 \<times> u64) list \<Rightarrow> (segment \<times> world, ruka_error, unit) prog" where
  "store_records data es =
     bindp (zoom sg_log_file sg_log_file_update (write_all data)) (\<lambda>_.
     bindp sync_log (\<lambda>_.
     bindp (zoom sg_index sg_index_update (append_entries es)) (\<lambda>_.
     sync_index)))"

abbreviation entry_pairs :: "index_entry list \<Rightarrow> (u64 \<times> u64) list" where
  "entry_pairs es \<equiv> map (\<lambda>e. (ie_offset e, ie_position e)) es"

abbreviation grown_index :: "index \<Rightarrow> index_entry list \<Rightarrow> index" where
  "grown_index ix es \<equiv>
     ix \<lparr> ix_file := (ix_file ix) \<lparr> cursor := 16 * length (ix_entries ix @ es) \<rparr>,
          ix_entries := ix_entries ix @ es \<rparr>"

lemma append_entries_ok:
  assumes "quiet w" "index_ok ix w" "sorted_wrt (<) (map ie_offset (ix_entries ix @ es))"
  shows "\<exists>w'. append_entries (entry_pairs es) (ix, w) = (Ok (), (grown_index ix es, w')) \<and>
    index_ok (grown_index ix es) w' \<and> only_touches {fpath (ix_file ix)} w w'"
  using assms
proof (induction es arbitrary: ix w)
  case Nil
  then have "ix = grown_index ix []"
    by (simp add: index_ok_def)
  with Nil show ?case by (metis append_entries.simps(1) list.simps(8) only_touches_refl returnp_simp)
next
  case (Cons e es)
  let ?ix = "grown_index ix [e]"
  let ?w = "set_content (fpath (ix_file ix)) (entries_bytes (ix_entries ?ix)) w"
  have below: "\<forall>d \<in> set (ix_entries ix). ie_offset d < ie_offset e"
    using Cons.prems(3) by (simp add: sorted_wrt_append)
  have step: "index_append (ie_offset e) (ie_position e) (ix, w) = (Ok (), (?ix, ?w))"
    by (rule index_append_ok [OF Cons.prems(1,2)]) simp
  have ok: "index_ok ?ix ?w"
    by (rule index_ok_append [OF Cons.prems(2) below, where pos = "ie_position e"]) simp
  have q: "quiet ?w"
    using Cons.prems(1) by (simp add: fs_simps)
  have srt: "sorted_wrt (<) (map ie_offset (ix_entries ?ix @ es))"
    using Cons.prems(3) by simp
  obtain w' where w': "append_entries (entry_pairs es) (?ix, ?w) = (Ok (), (grown_index ?ix es, w'))"
    "index_ok (grown_index ?ix es) w'" "only_touches {fpath (ix_file ix)} ?w w'"
    using Cons.IH [OF q ok srt] by auto
  have "only_touches {fpath (ix_file ix)} w w'"
    using only_touches_trans [OF only_touches_set(1) [OF Cons.prems(1)] w'(3)] by simp
  with w' step show ?case
    by (auto simp: prog_simps)
qed

text \<open>Forcing a file to disk keeps what the files hold.\<close>

lemma sync_data_ok:
  assumes "quiet w" "content w (fpath f) = Some c"
  shows "\<exists>w'. sync_data (f, w) = (Ok (), (f, w')) \<and> content w' = content w \<and>
    only_touches {fpath f} w w' \<and> durable w' (fpath f) = Some c"
  using assms
  by (intro exI [of _ "set_node (fpath f) (FileNode c c) w"])
    (auto simp: sync_data_quiet fs_simps)

lemma sync_log_ok:
  assumes "quiet w" "content w (fpath (sg_log_file s)) = Some c"
  shows "\<exists>w'. sync_log (s, w) = (Ok (), (s, w')) \<and> content w' = content w \<and>
    only_touches {fpath (sg_log_file s)} w w' \<and>
    (sg_sync_level s \<noteq> SyncNone \<longrightarrow> durable w' (fpath (sg_log_file s)) = Some c)"
proof (cases "sg_sync_level s = SyncNone")
  case False
  obtain w' where w': "sync_data (sg_log_file s, w) = (Ok (), (sg_log_file s, w'))"
    "content w' = content w" "only_touches {fpath (sg_log_file s)} w w'"
    "durable w' (fpath (sg_log_file s)) = Some c"
    using sync_data_ok [OF assms] by blast
  have "sync_log (s, w) = (Ok (), (s, w'))"
    using False w'(1) by (cases "sg_sync_level s") (simp_all add: sync_log_def prog_simps)
  with w' show ?thesis by blast
qed (use assms in \<open>simp add: sync_log_def only_touches_refl\<close>)

lemma sync_index_ok:
  assumes "quiet w" "content w (fpath (ix_file (sg_index s))) = Some c"
  shows "\<exists>w'. sync_index (s, w) = (Ok (), (s, w')) \<and> content w' = content w \<and>
    only_touches {fpath (ix_file (sg_index s))} w w' \<and>
    (sg_sync_level s = SyncLogAndIndex \<longrightarrow> durable w' (fpath (ix_file (sg_index s))) = Some c)"
proof (cases "sg_sync_level s = SyncLogAndIndex")
  case True
  obtain w' where w': "sync_data (ix_file (sg_index s), w) = (Ok (), (ix_file (sg_index s), w'))"
    "content w' = content w" "only_touches {fpath (ix_file (sg_index s))} w w'"
    "durable w' (fpath (ix_file (sg_index s))) = Some c"
    using sync_data_ok [OF assms] by blast
  have "sync_index (s, w) = (Ok (), (s, w'))"
    using True w'(1) by (simp add: sync_index_def index_sync_def prog_simps)
  with w' show ?thesis by blast
qed (use assms in \<open>simp add: sync_index_def only_touches_refl\<close>)

text \<open>
  What storing new records leaves: the files hold the longer list, and depending on the
  synchronisation level the log, or both files, are on disk.
\<close>

definition on_disk :: "segment \<Rightarrow> world \<Rightarrow> bool" where
  "on_disk s w \<longleftrightarrow>
     (sg_sync_level s \<noteq> SyncNone \<longrightarrow>
        durable w (fpath (sg_log_file s)) = content w (fpath (sg_log_file s))) \<and>
     (sg_sync_level s = SyncLogAndIndex \<longrightarrow>
        durable w (fpath (ix_file (sg_index s))) = content w (fpath (ix_file (sg_index s))))"

definition grown :: "segment \<Rightarrow> log_record list \<Rightarrow> log_record list \<Rightarrow> segment" where
  "grown s rs ns =
     s \<lparr> sg_log_file := (sg_log_file s) \<lparr> cursor := length (log_bytes (rs @ ns)) \<rparr>,
         sg_index := grown_index (sg_index s) (entries_at (length (log_bytes rs)) ns) \<rparr>"

lemma holds_sorted:
  assumes "segment_holds s w rs"
  shows "sorted_wrt (<) (map lr_offset rs)"
  using assms offsets_from_sorted by (auto simp: segment_holds_def)

lemma write_all_at:
  assumes "quiet w" "content w (fpath f) = Some c" "data \<noteq> []"
    "pos = (if append_mode f then length c else cursor f)"
  shows "write_all data (f, w) =
    (Ok (), (f \<lparr> cursor := pos + length data \<rparr>, set_content (fpath f) (overwrite pos data c) w))"
  using assms by (simp add: write_all_def write_bytes_def quiet_def bytes_at_Some Let_def)

lemma store_records_at:
  assumes q: "quiet w" and c: "content w (fpath (sg_log_file s)) = Some c"
    and ix: "index_ok (sg_index s) w" and neq: "fpath (sg_log_file s) \<noteq> fpath (ix_file (sg_index s))"
    and data: "data \<noteq> []" and srt: "sorted_wrt (<) (map ie_offset (ix_entries (sg_index s) @ es))"
    and pos: "pos = (if append_mode (sg_log_file s) then length c else cursor (sg_log_file s))"
    and s': "s' = (at_cursor (pos + length data) s) \<lparr> sg_index := grown_index (sg_index s) es \<rparr>"
  shows "\<exists>w'. store_records data (entry_pairs es) (s, w) = (Ok (), (s', w')) \<and>
    content w' (fpath (sg_log_file s)) = Some (overwrite pos data c) \<and>
    index_ok (sg_index s') w' \<and> only_touches (seg_files s) w w' \<and> on_disk s' w'"
proof -
  let ?f = "sg_log_file s" and ?ix = "sg_index s" and ?c = "overwrite pos data c"
  let ?s1 = "at_cursor (pos + length data) s"
  define w1 where "w1 = set_content (fpath ?f) ?c w"
  have step1: "zoom sg_log_file sg_log_file_update (write_all data) (s, w) = (Ok (), (?s1, w1))"
    using write_all_at [OF q c data pos] by (intro zoom_log) (simp add: w1_def)
  have c1: "content w1 (fpath (sg_log_file ?s1)) = Some ?c" and q1: "quiet w1"
    using q by (simp_all add: w1_def fs_simps)
  obtain w2 where w2: "sync_log (?s1, w1) = (Ok (), (?s1, w2))" "content w2 = content w1"
    "only_touches {fpath ?f} w1 w2"
    "sg_sync_level s \<noteq> SyncNone \<longrightarrow> durable w2 (fpath ?f) = Some ?c"
    using sync_log_ok [OF q1 c1] by auto
  have "content w2 (fpath (ix_file ?ix)) = content w (fpath (ix_file ?ix))"
    using neq w2(2) by (auto simp: w1_def fs_simps)
  then have "index_ok ?ix w2"
    using ix by (simp add: index_ok_def)
  then obtain w3 where w3: "append_entries (entry_pairs es) (?ix, w2) = (Ok (), (sg_index s', w3))"
    "index_ok (sg_index s') w3" "only_touches {fpath (ix_file ?ix)} w2 w3"
    using append_entries_ok [OF only_touches_quiet [OF w2(3)] _ srt] by (auto simp: s')
  have step3: "zoom sg_index sg_index_update (append_entries (entry_pairs es)) (?s1, w2) = (Ok (), (s', w3))"
    using w3(1) by (simp add: zoom_def s')
  have c3: "content w3 (fpath (ix_file (sg_index s'))) = Some (entries_bytes (ix_entries ?ix @ es))"
    using w3(2) by (simp add: index_ok_def s')
  obtain w4 where w4: "sync_index (s', w3) = (Ok (), (s', w4))"
    "content w4 = content w3" "only_touches {fpath (ix_file ?ix)} w3 w4"
    "sg_sync_level s = SyncLogAndIndex \<longrightarrow>
       durable w4 (fpath (ix_file ?ix)) = Some (entries_bytes (ix_entries ?ix @ es))"
    using sync_index_ok [OF only_touches_quiet [OF w3(3)] c3] by (auto simp: s')
  have late: "only_touches {fpath (ix_file ?ix)} w2 w4"
    using only_touches_trans [OF w3(3) w4(3)] by simp
  have neq': "fpath ?f \<notin> {fpath (ix_file ?ix)}"
    using neq by simp
  have run: "store_records data (entry_pairs es) (s, w) = (Ok (), (s', w4))"
    using step1 w2(1) step3 w4(1) by (simp add: store_records_def bindp_Ok)
  have log4: "content w4 (fpath ?f) = Some ?c"
    using only_touches_content [OF late neq'] w2(2) c1 by simp
  have "only_touches (seg_files s) w w4"
    using only_touches_trans [OF only_touches_trans [OF only_touches_set(1) [OF q] w2(3) [unfolded w1_def]] late]
    by (simp add: seg_files_def insert_commute)
  moreover have "index_ok (sg_index s') w4"
    using w3(2) w4(2) by (simp add: index_ok_def)
  moreover have "on_disk s' w4"
    using only_touches_durable [OF late neq'] w2(4) w4(2,4) c3 log4
    by (simp add: on_disk_def s')
  ultimately show ?thesis
    using run log4 by blast
qed

lemma store_records_ok:
  assumes ok: "segment_ok s w rs" and q: "quiet w" and ns: "ns \<noteq> []"
    and offs: "offsets_from (sg_next_offset s) ns" "unat (sg_base_offset s) + length (rs @ ns) < 2 ^ 64"
  shows "\<exists>w'. store_records (log_bytes ns) (entry_pairs (entries_at (length (log_bytes rs)) ns)) (s, w) =
      (Ok (), (grown s rs ns, w')) \<and>
    content w' (fpath (sg_log_file s)) = Some (log_bytes (rs @ ns)) \<and>
    index_ok (sg_index (grown s rs ns)) w' \<and>
    only_touches (seg_files s) w w' \<and> on_disk (grown s rs ns) w'"
proof -
  let ?es = "entries_at (length (log_bytes rs)) ns"
  note inv = ok [unfolded segment_ok_def segment_holds_def]
  have "sorted_wrt (<) (map ie_offset (ix_entries (sg_index s) @ ?es))"
    using inv offs offsets_from_sorted [of "sg_base_offset s" "rs @ ns"]
    by (simp add: offsets_from_append)
  moreover have "length (log_bytes rs) =
      (if append_mode (sg_log_file s) then length (log_bytes rs) else cursor (sg_log_file s))"
    using inv by auto
  moreover have "grown s rs ns = (at_cursor (length (log_bytes rs) + length (log_bytes ns)) s)
      \<lparr> sg_index := grown_index (sg_index s) ?es \<rparr>"
    by (simp add: grown_def at_cursor_def)
  ultimately show ?thesis
    using store_records_at [OF q, of s "log_bytes rs" "log_bytes ns" ?es] inv ns by simp
qed

text \<open>With the counters advanced, the longer list is represented again.\<close>

definition advanced :: "segment \<Rightarrow> log_record list \<Rightarrow> log_record list \<Rightarrow> segment" where
  "advanced s rs ns =
     (grown s rs ns) \<lparr> sg_current_size := sg_current_size s + of_nat (length (log_bytes ns)),
        sg_next_offset := sg_next_offset s + of_nat (length ns) \<rparr>"

lemma grown_simps [simp]:
  "sg_base_offset (grown s rs ns) = sg_base_offset s" "sg_max_bytes (grown s rs ns) = sg_max_bytes s"
  "sg_sync_level (grown s rs ns) = sg_sync_level s" "seg_files (grown s rs ns) = seg_files s"
  "sg_current_size (grown s rs ns) = sg_current_size s" "sg_next_offset (grown s rs ns) = sg_next_offset s"
  "sg_log_file (grown s rs ns) = (sg_log_file s) \<lparr> cursor := length (log_bytes (rs @ ns)) \<rparr>"
  by (simp_all add: grown_def seg_files_def)

lemma advanced_simps [simp]:
  "sg_base_offset (advanced s rs ns) = sg_base_offset s" "sg_max_bytes (advanced s rs ns) = sg_max_bytes s"
  "sg_sync_level (advanced s rs ns) = sg_sync_level s" "seg_files (advanced s rs ns) = seg_files s"
  "sg_log_file (advanced s rs ns) = (sg_log_file s) \<lparr> cursor := length (log_bytes (rs @ ns)) \<rparr>"
  "sg_index (advanced s rs ns) = sg_index (grown s rs ns)"
  "sg_next_offset (advanced s rs ns) = sg_next_offset s + of_nat (length ns)"
  by (simp_all add: advanced_def seg_files_def grown_def)

lemma same_segment_advanced [simp]: "same_segment s (advanced s rs ns)"
  by (simp add: same_segment_def)

text \<open>
  The hypotheses under which records can be added: they continue the offsets, fit their
  length field, and neither the size nor the offsets overflow.
\<close>

definition may_follow :: "segment \<Rightarrow> log_record list \<Rightarrow> log_record list \<Rightarrow> bool" where
  "may_follow s rs ns \<longleftrightarrow>
     ns \<noteq> [] \<and> offsets_from (sg_next_offset s) ns \<and>
     unat (sg_base_offset s) + length (rs @ ns) < 2 ^ 64 \<and>
     length (log_bytes (rs @ ns)) < 2 ^ 63 \<and> (\<forall>r \<in> set ns. wf_record r)"

lemma segment_ok_advanced:
  assumes "segment_ok s w rs" "may_follow s rs ns"
    "content w' (fpath (sg_log_file s)) = Some (log_bytes (rs @ ns))"
    "index_ok (sg_index (grown s rs ns)) w'"
  shows "segment_ok (advanced s rs ns) w' (rs @ ns)"
proof -
  have "segment_holds (advanced s rs ns) w' (rs @ ns)"
    using assms unfolding segment_ok_def segment_holds_def may_follow_def
    by (simp add: offsets_from_append entries_at_append advanced_def) (auto simp: grown_def)
  then show ?thesis
    using assms unfolding segment_ok_def by (simp add: grown_def)
qed

lemma commit_records:
  assumes ok: "segment_ok s w rs" and q: "quiet w" and ns: "may_follow s rs ns"
    and upd: "\<And>w'. upd (grown s rs ns, w') = (advanced s rs ns, w')"
  shows "\<exists>w'. bindp (store_records (log_bytes ns) (entry_pairs (entries_at (length (log_bytes rs)) ns)))
      (\<lambda>_. bindp (modifyp upd) (\<lambda>_. returnp res)) (s, w) = (Ok res, (advanced s rs ns, w')) \<and>
    segment_ok (advanced s rs ns) w' (rs @ ns) \<and> only_touches (seg_files s) w w' \<and>
    on_disk (advanced s rs ns) w'"
proof -
  obtain w' where w': "store_records (log_bytes ns) (entry_pairs (entries_at (length (log_bytes rs)) ns)) (s, w) =
      (Ok (), (grown s rs ns, w'))"
    "content w' (fpath (sg_log_file s)) = Some (log_bytes (rs @ ns))"
    "index_ok (sg_index (grown s rs ns)) w'"
    "only_touches (seg_files s) w w'" "on_disk (grown s rs ns) w'"
    using store_records_ok [OF ok q] ns unfolding may_follow_def by blast
  have "bindp (modifyp upd) (\<lambda>_. returnp res) (grown s rs ns, w') = (Ok res, (advanced s rs ns, w'))"
    by (simp add: bindp_def upd)
  then show ?thesis
    using w' segment_ok_advanced [OF ok ns w'(2,3)] by (simp add: bindp_Ok w'(1) on_disk_def)
qed

lemma append_as_store:
  "bindp (zoom sg_log_file sg_log_file_update (write_all data)) (\<lambda>_.
   bindp sync_log (\<lambda>_.
   bindp (zoom sg_index sg_index_update (append_entries es)) (\<lambda>_.
   bindp sync_index m))) sw = bindp (store_records data es) m sw"
  unfolding store_records_def by (simp add: bindp_assoc_fun)

lemma append_entries_single: "append_entries [(off, pos)] = index_append off pos"
proof
  show "append_entries [(off, pos)] sw = index_append off pos sw" for sw
    by (auto simp: bindp_def split: prod.split outcome.split)
qed

subsection \<open>One record\<close>

definition new_record :: "segment \<Rightarrow> world \<Rightarrow> bytes option \<Rightarrow> bytes option \<Rightarrow> log_record" where
  "new_record s w key val =
     \<lparr> lr_offset = sg_next_offset s, lr_timestamp_ms = clock w, lr_key = key, lr_value = val \<rparr>"

lemma new_record_simps [simp]:
  "lr_offset (new_record s w k v) = sg_next_offset s" "lr_key (new_record s w k v) = k"
  "lr_value (new_record s w k v) = v" "lr_timestamp_ms (new_record s w k v) = clock w"
  by (simp_all add: new_record_def)

lemma record_len_new: "record_len (new_record s w k v) = 28 + opt_len k + opt_len v"
  by (simp add: record_len_def)

text \<open>The two size tests of the code, as comparisons of numbers.\<close>

lemma of_nat_u64_gt: "n < 2 ^ 64 \<Longrightarrow> m < of_nat n \<longleftrightarrow> unat (m :: u64) < n"
  by (simp add: word_less_nat_alt unat_of_nat_u64)

lemma holds_next:
  assumes "segment_holds s w rs"
  shows "unat (sg_next_offset s) = unat (sg_base_offset s) + length rs"
  using assms by (auto simp: segment_holds_def unat_offset)

lemma holds_size:
  assumes "segment_holds s w rs" "n < 2 ^ 32"
  shows "sg_max_bytes s < sg_current_size s + of_nat n \<longleftrightarrow> unat (sg_max_bytes s) < length (log_bytes rs) + n"
    "0 < sg_current_size s \<longleftrightarrow> rs \<noteq> []"
proof -
  have "length (log_bytes rs) < 2 ^ 63" and cur: "sg_current_size s = of_nat (length (log_bytes rs))"
    using assms(1) by (simp_all add: segment_holds_def)
  then have sum: "length (log_bytes rs) + n < 2 ^ 64" and small: "length (log_bytes rs) < 2 ^ 64"
    using assms(2) by simp_all
  show "sg_max_bytes s < sg_current_size s + of_nat n \<longleftrightarrow> unat (sg_max_bytes s) < length (log_bytes rs) + n"
    using of_nat_u64_gt [OF sum, of "sg_max_bytes s"] by (simp add: cur)
  show "0 < sg_current_size s \<longleftrightarrow> rs \<noteq> []"
    using of_nat_u64_gt [OF small, of 0] by (simp add: cur)
qed

definition too_large :: "segment \<Rightarrow> log_record \<Rightarrow> bool" where
  "too_large s r \<longleftrightarrow> unat (sg_max_bytes s) < record_len r"

definition no_room :: "segment \<Rightarrow> log_record list \<Rightarrow> log_record \<Rightarrow> bool" where
  "no_room s rs r \<longleftrightarrow> rs \<noteq> [] \<and> unat (sg_max_bytes s) < length (log_bytes rs) + record_len r"

lemma may_follow_one:
  assumes "segment_holds s w rs" "wf_record r" "lr_offset r = sg_next_offset s"
    "unat (sg_next_offset s) + 1 < 2 ^ 64" "\<not> no_room s rs r"
  shows "may_follow s rs [r]"
  using assms
  by (auto simp: may_follow_def segment_holds_def no_room_def wf_record_def unat_offset)

context bytes_crate
begin

lemma segment_append_unfold:
  assumes "segment_holds s w0 rs" "wf_record (new_record s w key val)"
  shows "segment_append bx key val (s, w) =
     (let r = new_record s w key val in
      if too_large s r then (Err MessageTooLarge, (s, w))
      else if no_room s rs r then (Err (SegmentFull (sg_current_size s) (sg_max_bytes s)), (s, w))
      else bindp (store_records (record_bytes r) [(sg_next_offset s, sg_current_size s)])
        (\<lambda>_. bindp (modifyp (\<lambda>(s, w).
          (s \<lparr> sg_current_size := sg_current_size s + of_nat (record_len r),
               sg_next_offset := sg_next_offset s + 1 \<rparr>, w))) (\<lambda>_.
        returnp (sg_next_offset s))) (s, w))"
proof -
  let ?n = "28 + opt_len key + opt_len val"
  have n: "?n < 2 ^ 32"
    using assms(2) by (simp add: wf_record_def record_len_new)
  then have large: "sg_max_bytes s < of_nat ?n \<longleftrightarrow> too_large s (new_record s w key val)"
    using of_nat_u64_gt [of ?n "sg_max_bytes s"] by (simp add: too_large_def record_len_new)
  have full: "sg_max_bytes s < sg_current_size s + of_nat ?n \<and> 0 < sg_current_size s \<longleftrightarrow>
      no_room s rs (new_record s w key val)"
    using holds_size [OF assms(1) n] by (auto simp: no_room_def record_len_new)
  have len: "4 + 8 + 8 + 4 + opt_len key + 4 + opt_len val = ?n" by simp
  show ?thesis
    unfolding segment_append_def Let_def fst_conv snd_conv len large full
    by (simp add: record_encode_eq append_as_store [of _ "[(_, _)]", unfolded append_entries_single]
        flip: new_record_def)
qed

lemma segment_append_stores:
  assumes "segment_ok s w rs" "quiet w" "wf_record (new_record s w key val)"
    "unat (sg_next_offset s) + 1 < 2 ^ 64"
    "\<not> too_large s (new_record s w key val)" "\<not> no_room s rs (new_record s w key val)"
  shows "\<exists>s' w'. segment_append bx key val (s, w) = (Ok (sg_next_offset s), (s', w')) \<and>
    segment_ok s' w' (rs @ [new_record s w key val]) \<and> same_segment s s' \<and>
    only_touches (seg_files s) w w' \<and> on_disk s' w'"
proof -
  let ?r = "new_record s w key val"
  have holds: "segment_holds s w rs"
    using assms(1) by (simp add: segment_ok_def)
  have pos: "sg_current_size s = of_nat (length (log_bytes rs))"
    using holds by (simp add: segment_holds_def)
  let ?upd = "\<lambda>(s, w). (s \<lparr> sg_current_size := sg_current_size s + of_nat (record_len ?r),
    sg_next_offset := sg_next_offset s + 1 \<rparr>, w :: world)"
  have follow: "may_follow s rs [?r]"
    using may_follow_one [OF holds assms(3) _ assms(4,6)] by simp
  have upd: "?upd (grown s rs [?r], w') = (advanced s rs [?r], w')" for w'
    by (simp add: advanced_def)
  obtain w' where w': "bindp (store_records (log_bytes [?r])
        (entry_pairs (entries_at (length (log_bytes rs)) [?r])))
      (\<lambda>_. bindp (modifyp ?upd) (\<lambda>_. returnp (sg_next_offset s))) (s, w) =
      (Ok (sg_next_offset s), (advanced s rs [?r], w'))"
    "segment_ok (advanced s rs [?r]) w' (rs @ [?r])" "only_touches (seg_files s) w w'"
    "on_disk (advanced s rs [?r]) w'"
    using commit_records [where upd = ?upd and res = "sg_next_offset s", OF assms(1,2) follow upd]
    by blast
  have "segment_append bx key val (s, w) = (Ok (sg_next_offset s), (advanced s rs [?r], w'))"
    using w'(1) assms(5,6) by (simp add: segment_append_unfold [OF holds assms(3)] pos Let_def)
  with w'(2-4) show ?thesis
    using same_segment_advanced by blast
qed

end

subsection \<open>A batch of records\<close>

text \<open>The records that a batch of payloads becomes: no key, one timestamp, consecutive offsets.\<close>

fun stamp :: "u64 \<Rightarrow> u64 \<Rightarrow> bytes list \<Rightarrow> log_record list" where
  "stamp ts off [] = []"
| "stamp ts off (p # ps) =
     \<lparr> lr_offset = off, lr_timestamp_ms = ts, lr_key = None, lr_value = Some p \<rparr> # stamp ts (off + 1) ps"

definition wf_payload :: "bytes \<Rightarrow> bool" where
  "wf_payload p \<longleftrightarrow> 28 + length p < 2 ^ 32"

lemma length_stamp [simp]: "length (stamp ts off ps) = length ps"
  by (induction ts off ps rule: stamp.induct) simp_all

lemma offsets_from_stamp: "offsets_from off (stamp ts off ps)"
  by (induction ts off ps rule: stamp.induct) simp_all

lemma stamp_values: "map lr_value (stamp ts off ps) = map Some ps"
  by (induction ts off ps rule: stamp.induct) simp_all

lemma stamp_take: "take n (stamp ts off ps) = stamp ts off (take n ps)"
proof (induction ts off ps arbitrary: n rule: stamp.induct)
  case (2 ts off p ps)
  then show ?case by (cases n) simp_all
qed simp

lemma greedy_nonempty:
  assumes "greedy (mx - n) rs \<noteq> []"
  shows "n + length (log_bytes (greedy (mx - n) rs)) \<le> mx"
proof -
  have "0 < mx - n"
    using assms by (metis greedy_0 gr_zeroI)
  then show ?thesis
    using greedy_bound [of "mx - n" rs] by simp
qed

lemma wf_stamp: "\<forall>p \<in> set ps. wf_payload p \<Longrightarrow> r \<in> set (stamp ts off ps) \<Longrightarrow> wf_record r"
  by (induction ts off ps rule: stamp.induct)
    (auto simp: wf_payload_def wf_record_def record_len_def opt_len_def)

text \<open>
  What the loop over the payloads computes: the longest prefix that fits behind the
  current position. The payload after it decides the outcome when nothing fits or when it
  is larger than any segment.
\<close>

definition batch_outcome ::
    "u64 \<Rightarrow> u64 \<Rightarrow> bytes list \<Rightarrow> bytes \<Rightarrow> nat \<Rightarrow> u64 \<Rightarrow> (u64 \<times> u64) list \<Rightarrow> nat \<Rightarrow> log_record list \<Rightarrow>
     (bytes \<times> u64 \<times> (u64 \<times> u64) list \<times> nat) res" where
  "batch_outcome mx cur payloads buf pos off entries count ns =
     (let rest = drop (length ns) payloads in
      if rest \<noteq> [] \<and> unat mx < 28 + length (hd rest) then Err MessageTooLarge
      else if rest \<noteq> [] \<and> ns = [] \<and> count = 0 then Err (SegmentFull cur mx)
      else Ok (buf @ log_bytes ns, off + of_nat (length ns),
        entries @ entry_pairs (entries_at pos ns), count + length ns))"

lemma size_tests:
  assumes "n < 2 ^ 32" "pos < 2 ^ 63"
  shows "(mx :: u64) < 28 + of_nat n \<longleftrightarrow> unat mx < 28 + n"
    "(mx :: u64) < of_nat pos + (28 + of_nat n) \<longleftrightarrow> unat mx < pos + (28 + n)"
  using assms of_nat_u64_gt [of "28 + n" mx] of_nat_u64_gt [of "pos + (28 + n)" mx] by simp_all

context bytes_crate
begin

lemma batch_loop_outcome:
  assumes "\<forall>p \<in> set payloads. wf_payload p" "pos < 2 ^ 63" "unat mx < 2 ^ 63"
  shows "batch_loop bx mx cur ts payloads buf (of_nat pos) off entries count =
    batch_outcome mx cur payloads buf pos off entries count
      (greedy (unat mx - pos) (stamp ts off payloads))"
  using assms(1,2)
proof (induction payloads arbitrary: buf pos off entries count)
  case (Cons p ps)
  let ?r = "\<lparr> lr_offset = off, lr_timestamp_ms = ts, lr_key = None, lr_value = Some p \<rparr>"
  have len: "record_len ?r = 28 + length p"
    by (simp add: record_len_def opt_len_def)
  have "length p < 2 ^ 32"
    using Cons.prems(1) by (simp add: wf_payload_def)
  note tests = size_tests [OF this Cons.prems(2)]
  show ?case
  proof (cases "unat mx < pos + (28 + length p)")
    case True
    then have "\<not> record_len ?r \<le> unat mx - pos"
      using len by simp
    then show ?thesis
      using True tests by (simp add: batch_outcome_def Let_def)
  next
    case False
    then have fits: "record_len ?r \<le> unat mx - pos" and small: "\<not> unat mx < 28 + length p"
      using len by simp_all
    have pos': "pos + (28 + length p) < 2 ^ 63"
      using False assms(3) by simp
    have "batch_loop bx mx cur ts (p # ps) buf (of_nat pos) off entries count =
        batch_loop bx mx cur ts ps (buf @ record_bytes ?r) (of_nat (pos + (28 + length p))) (off + 1)
          (entries @ [(off, of_nat pos)]) (count + 1)"
      using False small tests len by (simp add: Let_def record_encode_eq)
    also have "\<dots> = batch_outcome mx cur ps (buf @ record_bytes ?r) (pos + (28 + length p)) (off + 1)
        (entries @ [(off, of_nat pos)]) (count + 1)
        (greedy (unat mx - (pos + (28 + length p))) (stamp ts (off + 1) ps))"
      using Cons.IH [OF _ pos'] Cons.prems(1) by simp
    also have "\<dots> = batch_outcome mx cur (p # ps) buf pos off entries count
        (?r # greedy (unat mx - (pos + (28 + length p))) (stamp ts (off + 1) ps))"
      by (simp add: batch_outcome_def Let_def len add.assoc)
    finally show ?thesis
      using fits len by simp
  qed
qed (simp add: batch_outcome_def)

end

text \<open>The records that one call of \<open>append_batch\<close> takes from the front of the payloads.\<close>

definition batch_taken :: "segment \<Rightarrow> world \<Rightarrow> log_record list \<Rightarrow> bytes list \<Rightarrow> log_record list" where
  "batch_taken s w rs payloads =
     greedy (unat (sg_max_bytes s) - length (log_bytes rs)) (stamp (clock w) (sg_next_offset s) payloads)"

lemma batch_taken_take:
  "batch_taken s w rs payloads =
     take (length (batch_taken s w rs payloads)) (stamp (clock w) (sg_next_offset s) payloads)"
  unfolding batch_taken_def by (rule greedy_take)

lemma length_batch_taken: "length (batch_taken s w rs payloads) \<le> length payloads"
  using greedy_length_le [of "unat (sg_max_bytes s) - length (log_bytes rs)"
      "stamp (clock w) (sg_next_offset s) payloads"]
  by (simp add: batch_taken_def)

lemma may_follow_batch:
  assumes "segment_holds s w rs" "\<forall>p \<in> set payloads. wf_payload p"
    "unat (sg_next_offset s) + length payloads < 2 ^ 64" "batch_taken s w rs payloads \<noteq> []"
  shows "may_follow s rs (batch_taken s w rs payloads)"
proof -
  let ?ns = "batch_taken s w rs payloads" and ?all = "stamp (clock w) (sg_next_offset s) payloads"
  have all: "?all = ?ns @ drop (length ?ns) ?all"
    using batch_taken_take by (metis append_take_drop_id)
  have "offsets_from (sg_next_offset s) ?ns"
    using offsets_from_stamp [of "sg_next_offset s" "clock w" payloads] all offsets_from_prefix by metis
  moreover have "\<forall>r \<in> set ?ns. wf_record r"
    using wf_stamp [OF assms(2)] all by (metis Un_iff set_append)
  moreover have "unat (sg_base_offset s) + length (rs @ ?ns) < 2 ^ 64"
    using assms(1,3) length_batch_taken [of s w rs payloads]
    by (simp add: segment_holds_def unat_offset)
  moreover have "length (log_bytes (rs @ ?ns)) < 2 ^ 63"
    using assms(1) greedy_bound [of "unat (sg_max_bytes s) - length (log_bytes rs)" ?all]
    by (auto simp: segment_holds_def batch_taken_def)
  ultimately show ?thesis
    using assms(4) by (simp add: may_follow_def)
qed

context bytes_crate
begin

lemma segment_append_batch_unfold:
  assumes "segment_holds s w rs" "\<forall>p \<in> set payloads. wf_payload p" "payloads \<noteq> []"
    "ns = batch_taken s w rs payloads"
  shows "segment_append_batch bx payloads (s, w) =
     (let rest = drop (length ns) payloads in
      if rest \<noteq> [] \<and> unat (sg_max_bytes s) < 28 + length (hd rest) then (Err MessageTooLarge, (s, w))
      else if ns = [] then (Err (SegmentFull (sg_current_size s) (sg_max_bytes s)), (s, w))
      else bindp (store_records (log_bytes ns) (entry_pairs (entries_at (length (log_bytes rs)) ns)))
        (\<lambda>_. bindp (modifyp (\<lambda>(s', w).
          (s' \<lparr> sg_current_size := sg_current_size s' + of_nat (length (log_bytes ns)),
                sg_next_offset := sg_next_offset s + of_nat (length ns) \<rparr>, w))) (\<lambda>_.
        returnp (sg_next_offset s, length ns))) (s, w))"
proof -
  have "length (log_bytes rs) < 2 ^ 63" "unat (sg_max_bytes s) < 2 ^ 63"
    and pos: "sg_current_size s = of_nat (length (log_bytes rs))"
    using assms(1) by (simp_all add: segment_holds_def)
  then have "batch_loop bx (sg_max_bytes s) (sg_current_size s) (clock w) payloads []
      (sg_current_size s) (sg_next_offset s) [] 0 =
    batch_outcome (sg_max_bytes s) (sg_current_size s) payloads [] (length (log_bytes rs))
      (sg_next_offset s) [] 0 ns"
    using batch_loop_outcome [OF assms(2)] assms(4) by (simp add: batch_taken_def)
  then show ?thesis
    using assms(3) by (auto simp: segment_append_batch_def batch_outcome_def Let_def append_as_store)
qed

lemma segment_append_batch_stores:
  assumes "segment_ok s w rs" "quiet w" "\<forall>p \<in> set payloads. wf_payload p"
    "unat (sg_next_offset s) + length payloads < 2 ^ 64" "ns = batch_taken s w rs payloads" "ns \<noteq> []"
    "drop (length ns) payloads \<noteq> [] \<Longrightarrow> 28 + length (hd (drop (length ns) payloads)) \<le> unat (sg_max_bytes s)"
  shows "\<exists>s' w'. segment_append_batch bx payloads (s, w) =
      (Ok (sg_next_offset s, length ns), (s', w')) \<and>
    segment_ok s' w' (rs @ ns) \<and> same_segment s s' \<and> only_touches (seg_files s) w w' \<and> on_disk s' w'"
proof -
  have holds: "segment_holds s w rs"
    using assms(1) by (simp add: segment_ok_def)
  let ?upd = "\<lambda>(s', w). (s' \<lparr> sg_current_size := sg_current_size s' + of_nat (length (log_bytes ns)),
    sg_next_offset := sg_next_offset s + of_nat (length ns) \<rparr>, w :: world)"
  have upd: "?upd (grown s rs ns, w') = (advanced s rs ns, w')" for w'
    by (simp add: advanced_def)
  have ne: "payloads \<noteq> []"
    using assms(5,6) by (auto simp: batch_taken_def)
  have follow: "may_follow s rs ns"
    using may_follow_batch [OF holds assms(3,4)] assms(5,6) by simp
  obtain w' where w': "bindp (store_records (log_bytes ns)
        (entry_pairs (entries_at (length (log_bytes rs)) ns)))
      (\<lambda>_. bindp (modifyp ?upd) (\<lambda>_. returnp (sg_next_offset s, length ns))) (s, w) =
      (Ok (sg_next_offset s, length ns), (advanced s rs ns, w'))"
    "segment_ok (advanced s rs ns) w' (rs @ ns)" "only_touches (seg_files s) w w'"
    "on_disk (advanced s rs ns) w'"
    using commit_records [where upd = ?upd and res = "(sg_next_offset s, length ns)", OF assms(1,2) follow upd]
    by blast
  have "segment_append_batch bx payloads (s, w) =
      (Ok (sg_next_offset s, length ns), (advanced s rs ns, w'))"
    using w'(1) assms(6,7)
    by (auto simp: segment_append_batch_unfold [OF holds assms(3) ne assms(5)] Let_def)
  with w'(2-4) show ?thesis
    using same_segment_advanced by blast
qed

end

section \<open>Reading records\<close>

lemma holds_lookup:
  assumes "segment_holds s w rs" "i < length rs"
  shows "index_lookup (sg_index s) (sg_base_offset s + of_nat i) =
    Some (of_nat (length (log_bytes (take i rs))))"
proof -
  let ?es = "ix_entries (sg_index s)"
  have es: "?es = entries_at 0 rs"
    using assms(1) by (simp add: segment_holds_def)
  have srt: "sorted_wrt (<) (map ie_offset ?es)"
    using holds_sorted [OF assms(1)] by (simp add: es)
  have "ie_offset (?es ! i) = sg_base_offset s + of_nat i"
    using assms offsets_from_nth by (auto simp: es entries_at_nth segment_holds_def)
  then have "binary_search_by_key ie_offset (sg_base_offset s + of_nat i) ?es = Found i"
    using entry_search.search_Found_iff [OF srt] assms(2) es by simp
  then show ?thesis
    using assms(2) by (simp add: index_lookup_def es entries_at_nth)
qed

lemma holds_inside:
  assumes "segment_holds s w rs" "i < length rs"
  shows "\<not> (sg_base_offset s + of_nat i < sg_base_offset s \<or>
    sg_next_offset s \<le> sg_base_offset s + of_nat i)"
  using assms offset_range_iff [OF assms(2), of "sg_base_offset s"]
  by (simp add: segment_holds_def not_le)

text \<open>What a seek to a record leaves in front of the cursor, and reading from there.\<close>

lemma seek_record:
  assumes "segment_holds s w rs" "quiet w"
  shows "zoom sg_log_file sg_log_file_update (seek_start (of_nat (length (log_bytes (take i rs))))) (s, w) =
      (Ok (), (at_cursor (length (log_bytes (take i rs))) s, w))"
proof -
  have "length (log_bytes (take i rs)) < 2 ^ 63"
    using assms(1) length_log_bytes_take [of i rs] by (simp add: segment_holds_def)
  moreover from this have "unat (of_nat (length (log_bytes (take i rs))) :: u64) = length (log_bytes (take i rs))"
    by (intro unat_of_nat_u64) simp
  ultimately show ?thesis
    using assms(2) by (intro zoom_log) (simp add: seek_start_quiet)
qed

lemma read_chunk:
  assumes "segment_holds s w rs" "quiet w" "c = length (log_bytes (take i rs))"
  shows "zoom sg_log_file sg_log_file_update (file_read n) (at_cursor c s, w) =
    (Ok (take n (log_bytes (drop i rs))), (at_cursor (c + length (take n (log_bytes (drop i rs)))) s, w))"
proof -
  have "content w (fpath (sg_log_file (at_cursor c s))) = Some (log_bytes rs)"
    using assms(1) by (simp add: segment_holds_def)
  from file_read_quiet [OF assms(2) this, of n] show ?thesis
    unfolding assms(3) by (simp add: zoom_def drop_log_bytes at_cursor_def del: length_take length_drop)
qed

lemma read_exact_at:
  assumes "segment_holds s w rs" "quiet w" "drop c (log_bytes rs) = a @ b" "n = length a"
  shows "zoom sg_log_file sg_log_file_update (read_exact n) (at_cursor c s, w) =
    (Ok a, (at_cursor (c + n) s, w))"
proof -
  let ?f = "sg_log_file (at_cursor c s)"
  have "content w (fpath ?f) = Some (log_bytes rs)"
    using assms(1) by (simp add: segment_holds_def)
  moreover have "n \<le> length (drop (cursor ?f) (log_bytes rs))"
    unfolding assms(4) using assms(3) by simp
  ultimately have "read_exact n (?f, w) = (Ok (take n (drop (cursor ?f) (log_bytes rs))),
      (?f \<lparr> cursor := cursor ?f + n \<rparr>, w))"
    by (rule read_exact_quiet [OF assms(2)])
  then show ?thesis
    using assms(3,4) by (simp add: zoom_def at_cursor_def)
qed

lemma read_exact_record_at:
  assumes "segment_holds s w rs" "quiet w" "i < length rs" "c = length (log_bytes (take i rs))"
  shows "\<exists>d. read_exact_record (at_cursor c s, w) = (Ok (record_bytes (rs ! i)), (at_cursor d s, w))"
proof -
  let ?r = "rs ! i" and ?rest = "log_bytes (drop (Suc i) rs)"
  let ?len = "word_be (of_nat (record_len ?r) :: u32)"
  have here: "drop c (log_bytes rs) = record_bytes ?r @ ?rest"
    using assms(3,4) by (simp add: drop_log_bytes log_bytes_drop_nth)
  have parts: "record_bytes ?r = ?len @ drop 4 (record_bytes ?r)"
    by (simp add: record_bytes_def be_simps)
  have wf: "wf_record ?r"
    using assms(1,3) by (simp add: segment_holds_def)
  have split: "drop c (log_bytes rs) = ?len @ drop 4 (record_bytes ?r) @ ?rest"
    unfolding here by (subst parts) simp
  have one: "zoom sg_log_file sg_log_file_update (read_exact 4) (at_cursor c s, w) =
      (Ok ?len, (at_cursor (c + 4) s, w))"
    by (rule read_exact_at [OF assms(1,2) split]) simp
  have "drop (c + 4) (log_bytes rs) = drop 4 (drop c (log_bytes rs))"
    by (simp add: add.commute)
  then have "drop (c + 4) (log_bytes rs) = drop 4 (record_bytes ?r) @ ?rest"
    using here record_len_ge [of ?r] by simp
  from read_exact_at [OF assms(1,2) this]
  have two: "zoom sg_log_file sg_log_file_update (read_exact (record_len ?r - 4)) (at_cursor (c + 4) s, w) =
      (Ok (drop 4 (record_bytes ?r)), (at_cursor (c + 4 + (record_len ?r - 4)) s, w))"
    by simp
  show ?thesis
    using one two parts record_len_u32 [OF wf] record_len_ge [of ?r]
    by (simp add: read_exact_record_def prog_simps Let_def be_simps) blast
qed

text \<open>The loop over a chunk of the log, which may end inside a record.\<close>

fun scan_chunk :: "nat \<Rightarrow> nat \<Rightarrow> nat \<Rightarrow> bool \<Rightarrow> log_record list \<Rightarrow> log_record list" where
  "scan_chunk mx avail tot none [] = []"
| "scan_chunk mx avail tot none (r # rs) =
     (if avail < record_len r \<or> (mx < tot + record_len r \<and> \<not> none) then []
      else r # scan_chunk mx (avail - record_len r) (tot + record_len r) False rs)"

lemma scan_chunk_greedy: "mx \<le> tot + avail \<Longrightarrow> scan_chunk mx avail tot False rs = greedy (mx - tot) rs"
proof (induction mx avail tot False rs rule: scan_chunk.induct)
  case (2 mx avail tot r rs)
  then show ?case
    using record_len_ge [of r] by auto
qed simp

lemma scan_chunk_first:
  assumes "mx \<le> avail"
  shows "scan_chunk mx avail 0 True (r # rs) =
    (if avail < record_len r then [] else batch_prefix mx (r # rs))"
  using assms by (simp add: scan_chunk_greedy)

context bytes_crate
begin

lemma record_decode_shorter:
  "record_decode bx src = (Ok (Some r), src') \<Longrightarrow> length src' < length src"
  using record_decode_length [of src r src'] record_len_ge [of r] by simp

lemma peek_len:
  assumes "wf_record r" "4 \<le> n"
  shows "\<exists>b. get_u32 bx (take n (record_bytes r @ rest)) = Some (of_nat (record_len r), b)"
proof -
  have "take 4 (take n (record_bytes r @ rest)) = word_be (of_nat (record_len r) :: u32)"
    using assms(2) by (simp add: record_bytes_def min_def)
  then show ?thesis
    using assms(2) record_len_ge [of r] by (simp add: get_u32 be_simps)
qed

lemma batch_scan_chunk:
  assumes "\<forall>r \<in> set rs. wf_record r \<and> off \<le> lr_offset r"
  shows "batch_scan bx off mx (take n (log_bytes rs)) acc tot =
    Ok (acc @ scan_chunk mx n tot (acc = []) rs)"
  using assms
proof (induction rs arbitrary: n acc tot)
  case Nil
  show ?case by (simp add: batch_scan.simps)
next
  case (Cons r rs)
  let ?src = "take n (record_bytes r @ log_bytes rs)"
  have wf: "wf_record r"
    using Cons.prems by simp
  have len: "length ?src = min (record_len r + length (log_bytes rs)) n"
    by simp
  show ?case
  proof (cases "n < 4")
    case True
    then show ?thesis
      using record_len_ge [of r] by (simp add: batch_scan.simps)
  next
    case False
    then obtain b where peek: "get_u32 bx ?src = Some (of_nat (record_len r), b)"
      using peek_len [OF wf] by (metis not_le)
    have ge4: "\<not> length ?src < 4"
      using False record_len_ge [of r] by simp
    show ?thesis
    proof (cases "n < record_len r \<or> (mx < tot + record_len r \<and> acc \<noteq> [])")
      case True
      then show ?thesis
        using peek ge4 record_len_u32 [OF wf]
        by (subst batch_scan.simps) (auto simp: Let_def)
    next
      case False
      then have fit: "?src = record_bytes r @ take (n - record_len r) (log_bytes rs)"
        by simp
      have "batch_scan bx off mx ?src acc tot =
          batch_scan bx off mx (take (n - record_len r) (log_bytes rs)) (acc @ [r]) (tot + record_len r)"
        using False peek ge4 record_len_u32 [OF wf] record_decode_bytes [OF wf] Cons.prems record_len_ge [of r]
        unfolding fit by (subst batch_scan.simps) (auto simp: Let_def)
      then show ?thesis
        using False Cons.IH Cons.prems by simp
    qed
  qed
qed

end

context bytes_crate
begin

lemma segment_read_at_outside:
  assumes "off < sg_base_offset s \<or> sg_next_offset s \<le> off"
  shows "segment_read_at bx off (s, w) = (Ok None, (s, w))"
    "segment_read_batch bx off mx (s, w) = (Ok [], (s, w))"
  using assms by (simp_all add: segment_read_at_def segment_read_batch_def)

text \<open>A record within the chunk is decoded from it, and the cursor stays behind the chunk.\<close>

lemma segment_read_at_chunk:
  assumes "segment_holds s w rs" "quiet w" "i < length rs" "record_len (rs ! i) \<le> 4096"
  shows "segment_read_at bx (sg_base_offset s + of_nat i) (s, w) =
    (Ok (Some (rs ! i)),
     (at_cursor (length (log_bytes (take i rs)) + length (take 4096 (log_bytes (drop i rs)))) s, w))"
proof -
  let ?off = "sg_base_offset s + of_nat i" and ?chunk = "take 4096 (log_bytes (drop i rs))"
  have wf: "wf_record (rs ! i)" and off: "lr_offset (rs ! i) = ?off"
    using assms offsets_from_nth by (auto simp: segment_holds_def)
  have "?chunk = record_bytes (rs ! i) @ take (4096 - record_len (rs ! i)) (log_bytes (drop (Suc i) rs))"
    using assms(3,4) by (simp add: log_bytes_drop_nth)
  then have "fst (record_decode bx ?chunk) = Ok (Some (rs ! i))"
    using record_decode_bytes [OF wf] by simp
  then show ?thesis
    using holds_inside [OF assms(1,3)] holds_lookup [OF assms(1,3)] off
    by (simp add: segment_read_at_def bindp_Ok seek_record [OF assms(1,2)] read_chunk [OF assms(1,2) refl]
        Let_def del: length_take)
qed

lemma segment_read_at_inside:
  assumes "segment_holds s w rs" "quiet w" "i < length rs"
  shows "\<exists>c. segment_read_at bx (sg_base_offset s + of_nat i) (s, w) =
    (Ok (Some (rs ! i)), (at_cursor c s, w))"
proof (cases "record_len (rs ! i) \<le> 4096")
  case True
  then show ?thesis
    using segment_read_at_chunk [OF assms True] by blast
next
  case False
  let ?pos = "length (log_bytes (take i rs))"
  let ?chunk = "take 4096 (log_bytes (drop i rs))" and ?r = "rs ! i"
  have wf: "wf_record ?r"
    using assms by (simp add: segment_holds_def)
  note seek = seek_record [OF assms(1,2), of i]
  have seek': "zoom sg_log_file sg_log_file_update (seek_start (of_nat ?pos)) (at_cursor c s, w) =
      (Ok (), (at_cursor ?pos s, w))" for c
    using seek_record [of "at_cursor c s" w rs i] assms(1,2) by simp
  obtain d where chunk: "zoom sg_log_file sg_log_file_update (file_read 4096) (at_cursor ?pos s, w) =
      (Ok ?chunk, (at_cursor d s, w))"
    using read_chunk [OF assms(1,2) refl] by blast
  obtain e where exact: "read_exact_record (at_cursor ?pos s, w) = (Ok (record_bytes ?r), (at_cursor e s, w))"
    using read_exact_record_at [OF assms refl] by blast
  have full: "fst (record_decode bx (record_bytes ?r)) = Ok (Some ?r)"
    using record_decode_bytes [OF wf, of "[]"] by simp
  have "?chunk = take 4096 (record_bytes ?r)"
    using assms(3) False by (simp add: log_bytes_drop_nth)
  then have "fst (record_decode bx ?chunk) = Ok None"
    using record_decode_prefix [OF wf, of 4096] False by simp
  then show ?thesis
    using holds_inside [OF assms(1,3)] holds_lookup [OF assms(1,3)] full
    by (simp add: segment_read_at_def bindp_Ok seek seek' chunk exact Let_def) blast
qed

lemma holds_records_from:
  assumes "segment_holds s w rs" "r \<in> set (drop i rs)"
  shows "wf_record r" "sg_base_offset s + of_nat i \<le> lr_offset r"
proof -
  from assms(2) obtain j where j: "r = rs ! (i + j)" "i + j < length rs"
    by (auto simp: in_set_conv_nth)
  then have "lr_offset r = sg_base_offset s + of_nat (i + j)"
    using assms(1) offsets_from_nth by (auto simp: segment_holds_def)
  then show "sg_base_offset s + of_nat i \<le> lr_offset r"
    using assms(1) j(2) unat_offset [of "sg_base_offset s" i] unat_offset [of "sg_base_offset s" "i + j"]
    by (simp add: segment_holds_def word_le_nat_alt)
  show "wf_record r"
    using assms(1) j by (simp add: segment_holds_def)
qed

text \<open>The scan of a chunk of at least a megabyte finds the batch unless the first record is longer.\<close>

lemma batch_scan_inside:
  assumes "segment_holds s w rs" "i < length rs" "n = (if unat mx < 1024 * 1024 then 1024 * 1024 else unat mx)"
  shows "batch_scan bx (sg_base_offset s + of_nat i) (unat mx) (take n (log_bytes (drop i rs))) [] 0 =
    Ok (if n < record_len (rs ! i) then [] else batch_prefix (unat mx) (drop i rs))"
proof -
  have "batch_scan bx (sg_base_offset s + of_nat i) (unat mx) (take n (log_bytes (drop i rs))) [] 0 =
      Ok (scan_chunk (unat mx) n 0 True (drop i rs))"
    using batch_scan_chunk [of "drop i rs" "sg_base_offset s + of_nat i" "unat mx" n "[]" 0]
      holds_records_from [OF assms(1), of _ i] by simp
  then show ?thesis
    using scan_chunk_first [of "unat mx" n "rs ! i" "drop (Suc i) rs"] Cons_nth_drop_Suc [OF assms(2)]
    by (simp add: assms(3))
qed

lemma segment_read_batch_inside:
  assumes "segment_holds s w rs" "quiet w" "i < length rs"
  shows "\<exists>c. segment_read_batch bx (sg_base_offset s + of_nat i) mx (s, w) =
    (Ok (batch_prefix (unat mx) (drop i rs)), (at_cursor c s, w))"
proof -
  let ?off = "sg_base_offset s + of_nat i" and ?pos = "length (log_bytes (take i rs))" and ?r = "rs ! i"
  define n where "n = (if unat mx < 1024 * 1024 then 1024 * 1024 else unat mx)"
  have r: "wf_record ?r" "lr_offset ?r = ?off" and at: "drop i rs = ?r # drop (Suc i) rs"
    using assms offsets_from_nth by (auto simp: segment_holds_def Cons_nth_drop_Suc)
  note scan = batch_scan_inside [OF assms(1,3) n_def]
  note seek = seek_record [OF assms(1,2), of i]
  have seek': "zoom sg_log_file sg_log_file_update (seek_start (of_nat ?pos)) (at_cursor c s, w) =
      (Ok (), (at_cursor ?pos s, w))" for c
    using seek_record [of "at_cursor c s" w rs i] assms(1,2) by simp
  obtain d where chunk: "zoom sg_log_file sg_log_file_update (file_read n) (at_cursor ?pos s, w) =
      (Ok (take n (log_bytes (drop i rs))), (at_cursor d s, w))"
    using read_chunk [OF assms(1,2) refl] by blast
  obtain e where exact: "read_exact_record (at_cursor ?pos s, w) = (Ok (record_bytes ?r), (at_cursor e s, w))"
    using read_exact_record_at [OF assms refl] by blast
  have full: "fst (record_decode bx (record_bytes ?r)) = Ok (Some ?r)"
    using record_decode_bytes [OF r(1), of "[]"] by simp
  note run = holds_inside [OF assms(1,3)] holds_lookup [OF assms(1,3)] scan
  show ?thesis
  proof (cases "n < record_len ?r")
    case True
    then have "batch_prefix (unat mx) (drop i rs) = [?r]" "take n (log_bytes (drop i rs)) \<noteq> []"
      using at by (simp_all add: n_def split: if_splits)
    then show ?thesis
      using run True full r(2) unfolding segment_read_batch_def n_def [symmetric]
      by (simp add: bindp_Ok catchp_Ok seek seek' chunk exact) blast
  next
    case False
    then show ?thesis
      using run at unfolding segment_read_batch_def n_def [symmetric]
      by (simp add: bindp_Ok seek chunk) blast
  qed
qed

end

end
