(* ===== verification/Ruka_Segment_Props.thy ===== *)
theory Ruka_Segment_Props
  imports Ruka_Segment_Inv
begin

text \<open>
  Properties of \<open>storage/segment.rs\<close>: appends of one record and of a batch on every branch,
  reads, and a segment as an append-only log.
\<close>

section \<open>A segment as an append-only log\<close>

text \<open>A segment that was created, as opposed to loaded, has its log file opened for appending.\<close>

definition segment_log :: "segment \<times> world \<Rightarrow> log_record list \<Rightarrow> bool" where
  "segment_log sw rs \<longleftrightarrow>
     quiet (snd sw) \<and> segment_ok (fst sw) (snd sw) rs \<and> append_mode (sg_log_file (fst sw))"

definition segment_admits :: "segment \<times> world \<Rightarrow> bytes option \<Rightarrow> bytes option \<Rightarrow> bool" where
  "segment_admits sw k v \<longleftrightarrow>
     28 + opt_len k + opt_len v < 2 ^ 32 \<and> unat (sg_next_offset (fst sw)) + 1 < 2 ^ 64"

lemma segment_log_holds: "segment_log (s, w) rs \<Longrightarrow> segment_holds s w rs"
  by (simp add: segment_log_def segment_ok_def)

context bytes_crate
begin

lemma segment_read_at_log:
  assumes "segment_holds s w rs" "quiet w"
  shows "\<exists>c. segment_read_at bx off (s, w) = (Ok (record_at off rs), (at_cursor c s, w))"
proof (cases "off < sg_base_offset s \<or> sg_next_offset s \<le> off")
  case True
  have "off \<notin> lr_offset ` set rs"
  proof
    assume "off \<in> lr_offset ` set rs"
    then obtain i where i: "i < length rs" "off = lr_offset (rs ! i)"
      by (auto simp: in_set_conv_nth)
    then have "off = sg_base_offset s + of_nat i"
      using assms(1) offsets_from_nth by (auto simp: segment_holds_def)
    with holds_inside [OF assms(1) i(1)] True show False by simp
  qed
  then have "record_at off rs = None"
    by (simp add: record_at_None)
  moreover have "s = at_cursor (cursor (sg_log_file s)) s"
    by (simp add: at_cursor_def)
  ultimately show ?thesis
    using segment_read_at_outside(1) [OF True, of w] by metis
next
  case False
  then obtain i where i: "i < length rs" "off = sg_base_offset s + of_nat i"
    using offset_in_range [of "sg_base_offset s" off "length rs"] assms(1)
    by (auto simp: segment_holds_def not_less not_le)
  have "lr_offset (rs ! i) = off"
    using assms(1) i offsets_from_nth by (auto simp: segment_holds_def)
  then have "record_at off rs = Some (rs ! i)"
    using record_at_nth [OF holds_sorted [OF assms(1)] i(1)] by simp
  then show ?thesis
    using segment_read_at_inside [OF assms i(1)] i(2) by simp
qed

lemma segment_append_cases:
  assumes "segment_ok s w rs" "quiet w" "segment_admits (s, w) k v" "r = new_record s w k v"
  shows "if too_large s r then segment_append bx k v (s, w) = (Err MessageTooLarge, (s, w))
    else if no_room s rs r
    then segment_append bx k v (s, w) = (Err (SegmentFull (sg_current_size s) (sg_max_bytes s)), (s, w))
    else \<exists>s' w'. segment_append bx k v (s, w) = (Ok (sg_next_offset s), (s', w')) \<and>
      segment_ok s' w' (rs @ [r]) \<and> same_segment s s' \<and> only_touches (seg_files s) w w' \<and> on_disk s' w'"
proof -
  have wf: "wf_record (new_record s w k v)" and off: "unat (sg_next_offset s) + 1 < 2 ^ 64"
    using assms(3) by (simp_all add: segment_admits_def wf_record_def record_len_new)
  have holds: "segment_holds s w rs"
    using assms(1) by (simp add: segment_ok_def)
  show ?thesis
    using segment_append_unfold [OF holds wf] segment_append_stores [OF assms(1,2) wf off]
    by (simp add: assms(4) Let_def)
qed

sublocale segment: append_log segment_log segment_admits "segment_append bx" "segment_read_at bx"
proof
  show "sorted_wrt (<) (map lr_offset rs)" if "segment_log s rs" for s rs
    using that holds_sorted by (auto simp: segment_log_def segment_ok_def)
  show "\<exists>s'. segment_read_at bx off s = (Ok (record_at off rs), s') \<and> segment_log s' rs"
    if "segment_log s rs" for s rs off
    using that segment_read_at_log [of "fst s" "snd s" rs off] segment_ok_at_cursor
    by (auto simp: segment_log_def segment_ok_def)
  show "(\<exists>e s'. segment_append bx k v s = (Err e, s') \<and> segment_log s' rs) \<or>
      (\<exists>off ts s'. segment_append bx k v s = (Ok off, s') \<and>
        segment_log s' (rs @ [\<lparr> lr_offset = off, lr_timestamp_ms = ts, lr_key = k, lr_value = v \<rparr>]))"
    if "segment_log s rs" "segment_admits s k v" for s rs k v
  proof -
    obtain sg w where s: "s = (sg, w)" by (cases s)
    have ok: "segment_ok sg w rs" "quiet w" "append_mode (sg_log_file sg)"
      using that(1) by (simp_all add: s segment_log_def)
    show ?thesis
      using segment_append_cases [OF ok(1,2) that(2) [unfolded s] refl] that(1) ok(3)
      by (auto simp: s segment_log_def new_record_def same_segment_def
          dest: only_touches_quiet split: if_splits)
  qed
qed

end

section \<open>A sample segment\<close>

definition made_segment :: "bool \<Rightarrow> u64 \<Rightarrow> u64 \<Rightarrow> sync_level \<Rightarrow> log_record list \<Rightarrow> segment" where
  "made_segment app base mx lev rs =
     \<lparr> sg_base_offset = base,
       sg_log_file = \<lparr> fpath = [''l''], cursor = length (log_bytes rs), append_mode = app \<rparr>,
       sg_index = loaded_index [''i''] (entries_at 0 rs),
       sg_current_size = of_nat (length (log_bytes rs)),
       sg_next_offset = base + of_nat (length rs), sg_max_bytes = mx, sg_sync_level = lev \<rparr>"

definition made_world :: "log_record list \<Rightarrow> world" where
  "made_world rs =
     \<lparr> nodes = [([''l''], FileNode (log_bytes rs) []),
                ([''i''], FileNode (entries_bytes (entries_at 0 rs)) [])],
       choices = [], clock = 5 \<rparr>"

definition two_records :: "log_record list" where
  "two_records =
     [\<lparr> lr_offset = 7, lr_timestamp_ms = 1, lr_key = None, lr_value = Some [1, 2, 3] \<rparr>,
      \<lparr> lr_offset = 8, lr_timestamp_ms = 2, lr_key = Some [9], lr_value = None \<rparr>]"

lemma quiet_made_world [simp]: "quiet (made_world rs)"
  by (simp add: quiet_def made_world_def)

lemma clock_made_world [simp]: "clock (made_world rs) = 5"
  by (simp add: made_world_def)

lemma made_segment_ok:
  assumes "offsets_from base rs" "unat base + length rs < 2 ^ 64" "length (log_bytes rs) < 2 ^ 63"
    "unat mx < 2 ^ 63" "\<forall>r \<in> set rs. wf_record r"
  shows "segment_ok (made_segment app base mx lev rs) (made_world rs) rs"
proof -
  have "segment_holds (made_segment app base mx lev rs) (made_world rs) rs"
    using assms by (simp add: segment_holds_def made_segment_def made_world_def content_def loaded_index_def)
  then show ?thesis
    using offsets_from_sorted [OF assms(1,2)]
    by (simp add: segment_ok_def made_segment_def made_world_def content_def loaded_index_def index_ok_def)
qed

lemma two_records_ok: "segment_ok (made_segment app 7 200 lev two_records) (made_world two_records) two_records"
  by (rule made_segment_ok)
    (simp_all add: two_records_def record_len_def opt_len_def wf_record_def)

lemma made_segment_simps [simp]:
  "sg_next_offset (made_segment app base mx lev rs) = base + of_nat (length rs)"
  "sg_max_bytes (made_segment app base mx lev rs) = mx"
  "sg_base_offset (made_segment app base mx lev rs) = base"
  "sg_current_size (made_segment app base mx lev rs) = of_nat (length (log_bytes rs))"
  "append_mode (sg_log_file (made_segment app base mx lev rs)) = app"
  by (simp_all add: made_segment_def)

section \<open>Properties of segments\<close>

text \<open>C12: Appending to a segment, on every branch. A record larger than the segment limit is refused
  as too large and one that does not fit behind the present records as a full segment, both
  without any effect. Otherwise the append returns the next offset, the segment then holds
  the old records followed by exactly the new one (log file, index and counters in step),
  no other file is touched, and the files that the synchronisation level names are on disk.\<close>

theorem segment_append_correct:
  assumes "bytes_crate bx" "segment_ok s w rs" "quiet w" "segment_admits (s, w) k v"
  shows "let r = \<lparr> lr_offset = sg_next_offset s, lr_timestamp_ms = clock w, lr_key = k, lr_value = v \<rparr> in
    if unat (sg_max_bytes s) < record_len r
    then segment_append bx k v (s, w) = (Err MessageTooLarge, (s, w))
    else if rs \<noteq> [] \<and> unat (sg_max_bytes s) < length (log_bytes rs) + record_len r
    then segment_append bx k v (s, w) = (Err (SegmentFull (sg_current_size s) (sg_max_bytes s)), (s, w))
    else \<exists>s' w'. segment_append bx k v (s, w) = (Ok (sg_next_offset s), (s', w')) \<and>
      segment_ok s' w' (rs @ [r]) \<and> same_segment s s' \<and> only_touches (seg_files s) w w' \<and> on_disk s' w'"
  using bytes_crate.segment_append_cases [OF assms refl]
  unfolding Let_def too_large_def no_room_def new_record_def .

theorem segment_append_correct_witness:
  "\<exists>s' w'. segment_append be_ops None (Some [4]) (made_segment True 7 200 SyncLog two_records, made_world two_records) =
      (Ok 9, (s', w')) \<and>
    segment_ok s' w' (two_records @ [\<lparr> lr_offset = 9, lr_timestamp_ms = 5, lr_key = None, lr_value = Some [4] \<rparr>])"
proof -
  have "segment_admits (made_segment True 7 200 SyncLog two_records, made_world two_records) None (Some [4])"
    by (simp add: segment_admits_def opt_len_def two_records_def)
  note app = segment_append_correct [OF be.bytes_crate_axioms two_records_ok quiet_made_world this]
  have "sg_next_offset (made_segment True 7 200 SyncLog two_records) = 9"
    by (simp add: two_records_def)
  moreover have "length (log_bytes two_records) = 60"
    by (simp add: two_records_def record_len_def opt_len_def)
  ultimately show ?thesis
    using app by (simp add: Let_def record_len_def opt_len_def) blast
qed

text \<open>C22: Appending a batch, on every branch. The segment takes the longest prefix of the payloads
  that fits behind the present records, stamped with consecutive offsets and one
  timestamp, and returns the first offset and the number taken. If the next payload is
  larger than the segment limit nothing at all is written, and if not even the first fits
  the segment reports that it is full; an empty batch changes nothing.\<close>

theorem segment_append_batch_correct:
  assumes "bytes_crate bx" "segment_ok s w rs" "quiet w" "\<forall>p \<in> set payloads. wf_payload p"
    "unat (sg_next_offset s) + length payloads < 2 ^ 64"
  shows "let ns = greedy (unat (sg_max_bytes s) - length (log_bytes rs))
                    (stamp (clock w) (sg_next_offset s) payloads);
             rest = drop (length ns) payloads in
    if payloads = [] then segment_append_batch bx payloads (s, w) = (Ok (sg_next_offset s, 0), (s, w))
    else if rest \<noteq> [] \<and> unat (sg_max_bytes s) < 28 + length (hd rest)
    then segment_append_batch bx payloads (s, w) = (Err MessageTooLarge, (s, w))
    else if ns = []
    then segment_append_batch bx payloads (s, w) =
      (Err (SegmentFull (sg_current_size s) (sg_max_bytes s)), (s, w))
    else \<exists>s' w'. segment_append_batch bx payloads (s, w) = (Ok (sg_next_offset s, length ns), (s', w')) \<and>
      segment_ok s' w' (rs @ ns) \<and> same_segment s s' \<and> only_touches (seg_files s) w w' \<and> on_disk s' w'"
proof (cases "payloads = []")
  case False
  have holds: "segment_holds s w rs"
    using assms(2) by (simp add: segment_ok_def)
  show ?thesis
    using False bytes_crate.segment_append_batch_unfold [OF assms(1) holds assms(4) False refl]
      bytes_crate.segment_append_batch_stores [OF assms refl]
    unfolding Let_def batch_taken_def [symmetric] by (auto simp: not_less)
qed (simp add: segment_append_batch_def Let_def)

definition batch_payloads :: "bytes list" where
  "batch_payloads = [[1], [2, 2], replicate 90 0]"

lemma batch_facts:
  "\<forall>p \<in> set batch_payloads. wf_payload p"
  "unat (sg_next_offset (made_segment True 7 200 SyncLog two_records)) + length batch_payloads < 2 ^ 64"
  by (simp_all add: batch_payloads_def wf_payload_def two_records_def)

lemma batch_numbers:
  "sg_next_offset (made_segment True 7 200 SyncLog two_records) = 9"
  "length (log_bytes two_records) = 60"
  "greedy 140 (stamp 5 9 batch_payloads) = stamp 5 9 [[1], [2, 2]]"
  "batch_payloads \<noteq> []" "drop (Suc (Suc 0)) batch_payloads = [replicate 90 0]"
  by (simp_all add: batch_payloads_def two_records_def record_len_def opt_len_def)

theorem segment_append_batch_correct_witness:
  "\<exists>s' w'. segment_append_batch be_ops batch_payloads
      (made_segment True 7 200 SyncLog two_records, made_world two_records) = (Ok (9, 2), (s', w')) \<and>
    segment_ok s' w' (two_records @ stamp 5 9 [[1], [2, 2]])"
  using segment_append_batch_correct
    [OF be.bytes_crate_axioms two_records_ok quiet_made_world batch_facts]
  unfolding batch_numbers(1,2) clock_made_world made_segment_simps(2) Let_def
  by (auto simp: batch_numbers(3-))

context bytes_crate
begin

lemmas segment_log_append_law = segment.append_law
lemmas segment_log_read_own_append = segment.read_own_append
lemmas segment_log_append_keeps_reads = segment.append_keeps_reads
lemmas segment_log_read_keeps_reads = segment.read_keeps_reads
lemmas segment_log_failed_append_keeps_reads = segment.failed_append_keeps_reads

end

text \<open>C21: A segment created by the broker is an append-only log for its readers. A successful append
  is visible at once at the offset it returned, with the key and value that were given;
  what a read returns at any other offset is unchanged by the append, by a refused append,
  and by other reads.\<close>

theorem segment_read_your_writes:
  assumes "bytes_crate bx" "segment_log sw rs" "segment_admits sw k v"
  shows "(case segment_append bx k v sw of
      (Ok off, sw') \<Rightarrow>
        (\<exists>ts. fst (segment_read_at bx off sw') =
           Ok (Some \<lparr> lr_offset = off, lr_timestamp_ms = ts, lr_key = k, lr_value = v \<rparr>)) \<and>
        (\<forall>off'. off' \<noteq> off \<longrightarrow> fst (segment_read_at bx off' sw') = fst (segment_read_at bx off' sw))
    | (Err e, sw') \<Rightarrow> \<forall>off'. fst (segment_read_at bx off' sw') = fst (segment_read_at bx off' sw)
    | (Panic, sw') \<Rightarrow> False) \<and>
    (\<forall>off off'. fst (segment_read_at bx off' (snd (segment_read_at bx off sw))) =
      fst (segment_read_at bx off' sw))"
  using bytes_crate.segment_log_append_law [OF assms]
    bytes_crate.segment_log_read_own_append [OF assms] bytes_crate.segment_log_append_keeps_reads [OF assms]
    bytes_crate.segment_log_failed_append_keeps_reads [OF assms]
    bytes_crate.segment_log_read_keeps_reads [OF assms(1,2)]
  by (auto split: prod.split outcome.split)

theorem segment_read_your_writes_witness:
  "\<exists>sw' ts. segment_append be_ops None (Some [4])
      (made_segment True 7 200 SyncLog two_records, made_world two_records) = (Ok 9, sw') \<and>
    fst (segment_read_at be_ops 9 sw') =
      Ok (Some \<lparr> lr_offset = 9, lr_timestamp_ms = ts, lr_key = None, lr_value = Some [4] \<rparr>) \<and>
    fst (segment_read_at be_ops 8 sw') =
      fst (segment_read_at be_ops 8 (made_segment True 7 200 SyncLog two_records, made_world two_records))"
proof -
  have log: "segment_log (made_segment True 7 200 SyncLog two_records, made_world two_records) two_records"
    using two_records_ok by (simp add: segment_log_def)
  have adm: "segment_admits (made_segment True 7 200 SyncLog two_records, made_world two_records) None (Some [4])"
    by (simp add: segment_admits_def opt_len_def two_records_def)
  obtain s' w' where "segment_append be_ops None (Some [4])
      (made_segment True 7 200 SyncLog two_records, made_world two_records) = (Ok 9, (s', w'))"
    using be.segment_append_cases [OF two_records_ok quiet_made_world adm refl]
    by (auto simp: too_large_def no_room_def two_records_def record_len_def opt_len_def new_record_def)
  then show ?thesis
    using segment_read_your_writes [OF be.bytes_crate_axioms log adm] by auto
qed

text \<open>C24: A batch read at a held offset returns the record at that offset, always, followed by the
  longest run of records whose total encoded size stays within the byte limit; it returns
  nothing for an offset outside the segment. The files are untouched, and this does not
  depend on where an earlier operation left the file cursor.\<close>

theorem segment_read_batch_correct:
  assumes "bytes_crate bx" "segment_holds s w rs" "quiet w"
  shows "if off < sg_base_offset s \<or> sg_next_offset s \<le> off
    then segment_read_batch bx off mx (s, w) = (Ok [], (s, w))
    else \<exists>i c. i < length rs \<and> lr_offset (rs ! i) = off \<and>
      segment_read_batch bx off mx (s, w) =
        (Ok (rs ! i # greedy (unat mx - record_len (rs ! i)) (drop (Suc i) rs)), (at_cursor c s, w))"
proof (cases "off < sg_base_offset s \<or> sg_next_offset s \<le> off")
  case True
  then show ?thesis
    using bytes_crate.segment_read_at_outside(2) [OF assms(1) True] by simp
next
  case False
  then obtain i where i: "i < length rs" "off = sg_base_offset s + of_nat i"
    using offset_in_range [of "sg_base_offset s" off "length rs"] assms(2)
    by (auto simp: segment_holds_def not_less not_le)
  moreover have "lr_offset (rs ! i) = off"
    using assms(2) i offsets_from_nth by (auto simp: segment_holds_def)
  moreover have "batch_prefix (unat mx) (drop i rs) =
      rs ! i # greedy (unat mx - record_len (rs ! i)) (drop (Suc i) rs)"
    using i(1) by (simp flip: Cons_nth_drop_Suc)
  ultimately show ?thesis
    using bytes_crate.segment_read_batch_inside [OF assms i(1), of mx] False by auto
qed

theorem segment_read_batch_correct_witness:
  "\<exists>c. segment_read_batch be_ops 7 40 (made_segment True 7 200 SyncLog two_records, made_world two_records) =
     (Ok [hd two_records], (at_cursor c (made_segment True 7 200 SyncLog two_records), made_world two_records))"
proof -
  let ?s = "made_segment True 7 200 SyncLog two_records"
  have "segment_holds ?s (made_world two_records) two_records"
    using two_records_ok by (simp add: segment_ok_def)
  from segment_read_batch_correct [OF be.bytes_crate_axioms this quiet_made_world, of 7 40]
  obtain i c where "i < length two_records" "lr_offset (two_records ! i) = 7"
    "segment_read_batch be_ops 7 40 (?s, made_world two_records) =
      (Ok (two_records ! i # greedy (unat (40 :: u32) - record_len (two_records ! i)) (drop (Suc i) two_records)),
       (at_cursor c ?s, made_world two_records))"
    by (auto simp: two_records_def)
  then show ?thesis
    by (auto simp: two_records_def less_Suc_eq record_len_def opt_len_def)
qed

text \<open>
  One append per payload, each at its own time, as the requests of a client make them, and the
  records that are stored then.
\<close>

fun append_singly :: "bytes_ops \<Rightarrow> (u64 \<times> bytes) list \<Rightarrow> (segment \<times> world, ruka_error, u64 list) prog" where
  "append_singly bx [] = returnp []"
| "append_singly bx ((now, p) # tps) =
     bindp (\<lambda>(s, w). segment_append bx None (Some p) (s, w \<lparr> clock := now \<rparr>)) (\<lambda>off.
     bindp (append_singly bx tps) (\<lambda>offs. returnp (off # offs)))"

fun stamp_each :: "u64 \<Rightarrow> (u64 \<times> bytes) list \<Rightarrow> log_record list" where
  "stamp_each off [] = []"
| "stamp_each off ((now, p) # tps) =
     \<lparr> lr_offset = off, lr_timestamp_ms = now, lr_key = None, lr_value = Some p \<rparr> # stamp_each (off + 1) tps"

lemma stamp_eq_stamp_each: "stamp now off ps = stamp_each off (map (Pair now) ps)"
  by (induction ps arbitrary: off) simp_all

lemma length_stamp_each [simp]: "length (stamp_each off tps) = length tps"
  by (induction off tps rule: stamp_each.induct) simp_all

lemma size_stamp_each: "length (log_bytes (stamp_each off tps)) = (\<Sum>p \<leftarrow> map snd tps. 28 + length p)"
  by (induction off tps rule: stamp_each.induct) (simp_all add: record_len_def opt_len_def)

lemma entries_stamp_each:
  "map snd tps = map snd tqs \<Longrightarrow> entries_at pos (stamp_each off tps) = entries_at pos (stamp_each off tqs)"
proof (induction off tps arbitrary: pos tqs rule: stamp_each.induct)
  case (2 off now p tps)
  then obtain now' tqs' where "tqs = (now', p) # tqs'" "map snd tps = map snd tqs'"
    by (cases tqs) auto
  with "2.IH" show ?case
    by (simp add: record_len_def)
qed simp

lemma offsets_from_stamp_each: "offsets_from off (stamp_each off tps)"
  by (induction off tps rule: stamp_each.induct) simp_all

lemma content_clock [simp]: "content (w \<lparr> clock := now \<rparr>) p = content w p" "durable (w \<lparr> clock := now \<rparr>) p = durable w p"
  by (simp_all add: content_def durable_def)

lemma segment_ok_clock [simp]: "segment_ok s (w \<lparr> clock := now \<rparr>) rs = segment_ok s w rs"
  by (simp add: segment_ok_def segment_holds_def index_ok_def)

lemma quiet_clock [simp]: "quiet (w \<lparr> clock := now \<rparr>) = quiet w"
  by (simp add: quiet_def)

context bytes_crate
begin

lemma append_singly_ok:
  assumes "segment_ok s w rs" "quiet w" "\<forall>p \<in> set (map snd tps). wf_payload p"
    "unat (sg_next_offset s) + length tps < 2 ^ 64"
    "tps \<noteq> [] \<Longrightarrow> length (log_bytes (rs @ stamp_each (sg_next_offset s) tps)) \<le> unat (sg_max_bytes s)"
  shows "\<exists>s' w'. append_singly bx tps (s, w) =
      (Ok (map lr_offset (stamp_each (sg_next_offset s) tps)), (s', w')) \<and>
    segment_ok s' w' (rs @ stamp_each (sg_next_offset s) tps) \<and> same_segment s s'"
  using assms
proof (induction tps arbitrary: s w rs)
  case Nil
  then show ?case by (auto simp: same_segment_def)
next
  case (Cons tp tps)
  obtain now p where tp [simp]: "tp = (now, p)"
    by (cases tp)
  let ?w = "w \<lparr> clock := now \<rparr>"
  let ?r = "new_record s ?w None (Some p)"
  have adm: "segment_admits (s, ?w) None (Some p)"
    using Cons.prems by (simp add: segment_admits_def wf_payload_def opt_len_def)
  have "\<not> too_large s ?r" "\<not> no_room s rs ?r"
    using Cons.prems(5) by (auto simp: too_large_def no_room_def record_len_def opt_len_def)
  then obtain s1 w1 where one: "segment_append bx None (Some p) (s, ?w) = (Ok (sg_next_offset s), (s1, w1))"
    "segment_ok s1 w1 (rs @ [?r])" "same_segment s s1" "only_touches (seg_files s) ?w w1"
    using segment_append_cases [OF _ _ adm refl, of rs] Cons.prems(1,2) by auto
  have next1: "sg_next_offset s1 = sg_next_offset s + 1"
    using one(2,3) Cons.prems(1)
    by (simp add: segment_ok_def segment_holds_def same_segment_def)
  have q: "quiet w1" and mx: "sg_max_bytes s1 = sg_max_bytes s"
    using one(3,4) by (simp_all add: only_touches_def same_segment_def)
  have "unat (sg_next_offset s1) = unat (sg_next_offset s) + 1"
    unfolding next1 using Cons.prems(4) unat_offset [of "sg_next_offset s" 1] by simp
  then obtain s2 w2 where two: "append_singly bx tps (s1, w1) =
      (Ok (map lr_offset (stamp_each (sg_next_offset s + 1) tps)), (s2, w2))"
    "segment_ok s2 w2 ((rs @ [?r]) @ stamp_each (sg_next_offset s + 1) tps)" "same_segment s1 s2"
    using Cons.IH [OF one(2) q] Cons.prems(3-5) unfolding next1 mx by (auto simp: new_record_def)
  then show ?case
    using one(1) same_segment_trans [OF one(3) two(3)] by (auto simp: bindp_Ok new_record_def)
qed

end

lemma batch_run:
  "\<exists>s1 w1. segment_append_batch be_ops batch_payloads
    (made_segment True 7 200 SyncLog two_records, made_world two_records) = (Ok (9, 2), (s1, w1))"
proof -
  let ?s = "made_segment True 7 200 SyncLog two_records" and ?w = "made_world two_records"
  have taken: "batch_taken ?s ?w two_records batch_payloads = stamp 5 9 [[1], [2, 2]]"
    unfolding batch_taken_def batch_numbers clock_made_world made_segment_simps(2)
    using batch_numbers(3) by simp
  show ?thesis
    using be.segment_append_batch_stores [OF two_records_ok quiet_made_world batch_facts refl,
        unfolded taken batch_numbers(1)]
    by (auto simp: batch_numbers(5))
qed

text \<open>What a batch append that succeeds has taken.\<close>

lemma batch_takes:
  assumes "bytes_crate bx" "segment_ok s w rs" "quiet w" "\<forall>p \<in> set payloads. wf_payload p"
    "unat (sg_next_offset s) + length payloads < 2 ^ 64"
    "segment_append_batch bx payloads (s, w) = (Ok (off, n), (s1, w1))"
  shows "off = sg_next_offset s"
    "segment_ok s1 w1 (rs @ stamp_each off (map (Pair (clock w)) (take n payloads)))" "same_segment s s1"
    "n \<le> length payloads"
    "payloads \<noteq> [] \<Longrightarrow>
      length (log_bytes (rs @ stamp_each off (map (Pair (clock w)) (take n payloads)))) \<le> unat (sg_max_bytes s)"
proof -
  have "off = sg_next_offset s \<and> segment_ok s1 w1 (rs @ stamp (clock w) off (take n payloads)) \<and>
    same_segment s s1 \<and> n \<le> length payloads \<and>
    (payloads \<noteq> [] \<longrightarrow>
      length (log_bytes (rs @ stamp (clock w) off (take n payloads))) \<le> unat (sg_max_bytes s))"
  proof (cases "payloads = []")
    case True
    then show ?thesis
      using assms(2,6) by (auto simp: segment_append_batch_def same_segment_def)
  next
    case False
    define ns where "ns = batch_taken s w rs payloads"
    have holds: "segment_holds s w rs"
      using assms(2) by (simp add: segment_ok_def)
    note unfold = bytes_crate.segment_append_batch_unfold [OF assms(1) holds assms(4) False ns_def]
    have ne: "ns \<noteq> []" and small: "drop (length ns) payloads \<noteq> [] \<Longrightarrow>
        28 + length (hd (drop (length ns) payloads)) \<le> unat (sg_max_bytes s)"
      using assms(6) unfold by (auto simp: Let_def not_less split: if_splits)
    have batch: "off = sg_next_offset s" "n = length ns" "segment_ok s1 w1 (rs @ ns)" "same_segment s s1"
      using bytes_crate.segment_append_batch_stores [OF assms(1-5) ns_def ne small] assms(6) by auto
    have take_ns: "stamp (clock w) (sg_next_offset s) (take n payloads) = ns"
      unfolding batch(2) ns_def by (subst (2) batch_taken_take) (rule stamp_take [symmetric])
    have "length (log_bytes (rs @ ns)) \<le> unat (sg_max_bytes s)"
      using ne greedy_nonempty [of "unat (sg_max_bytes s)" "length (log_bytes rs)"]
      by (simp add: ns_def batch_taken_def)
    moreover have "n \<le> length payloads"
      using arg_cong [OF take_ns, of length] batch(2) by (simp add: stamp_eq_stamp_each)
    ultimately show ?thesis
      using batch take_ns by simp
  qed
  then show "off = sg_next_offset s"
    "segment_ok s1 w1 (rs @ stamp_each off (map (Pair (clock w)) (take n payloads)))" "same_segment s s1"
    "n \<le> length payloads"
    "payloads \<noteq> [] \<Longrightarrow>
      length (log_bytes (rs @ stamp_each off (map (Pair (clock w)) (take n payloads)))) \<le> unat (sg_max_bytes s)"
    unfolding stamp_eq_stamp_each by blast+
qed

text \<open>C23: Appending a batch is appending its payloads one by one, up to the timestamps. Whatever
  number of payloads a batch append reports as taken, single appends of exactly these payloads,
  at whatever times they are made, all succeed, assign the consecutive offsets from the reported
  one on, and leave a segment with the same next offset, size and index entries. Its records have
  the same offsets and payloads in the same order; those of the batch all carry the time of the
  batch append, those of the single appends the time of each.\<close>

theorem segment_batch_equals_singles:
  assumes "bytes_crate bx" "segment_ok s w rs" "quiet w" "\<forall>p \<in> set payloads. wf_payload p"
    "unat (sg_next_offset s) + length payloads < 2 ^ 64"
    "segment_append_batch bx payloads (s, w) = (Ok (off, n), (s1, w1))" "length nows = n"
  shows "\<exists>s2 w2. append_singly bx (zip nows (take n payloads)) (s, w) =
      (Ok (map (\<lambda>i. off + of_nat i) [0..<n]), (s2, w2)) \<and>
    segment_ok s1 w1 (rs @ stamp_each off (map (Pair (clock w)) (take n payloads))) \<and>
    segment_ok s2 w2 (rs @ stamp_each off (zip nows (take n payloads))) \<and> same_segment s1 s2 \<and>
    sg_next_offset s1 = sg_next_offset s2 \<and> sg_current_size s1 = sg_current_size s2 \<and>
    ix_entries (sg_index s1) = ix_entries (sg_index s2)"
proof -
  let ?one = "map (Pair (clock w)) (take n payloads)" and ?each = "zip nows (take n payloads)"
  note batch = batch_takes [OF assms(1-6)]
  have len: "length nows = length (take n payloads)"
    using assms(7) batch(4) by simp
  have snds: "map snd ?each = take n payloads" "map snd ?one = take n payloads"
    using len by (simp_all add: o_def)
  have sizes: "length (log_bytes (stamp_each off ?each)) = length (log_bytes (stamp_each off ?one))"
    by (simp only: size_stamp_each snds)
  have lens: "length ?each = n" "length ?one = n"
    using batch(4) assms(7) by simp_all
  have "\<forall>p \<in> set (map snd ?each). wf_payload p"
    unfolding snds using assms(4) by (meson in_set_takeD)
  moreover have "unat (sg_next_offset s) + length ?each < 2 ^ 64"
    using assms(5) batch(4) unfolding lens by simp
  moreover have "length (log_bytes (rs @ stamp_each off ?each)) \<le> unat (sg_max_bytes s)" if "?each \<noteq> []"
    using batch(5) sizes that by auto
  ultimately obtain s2 w2 where single: "append_singly bx ?each (s, w) =
      (Ok (map lr_offset (stamp_each off ?each)), (s2, w2))"
    "segment_ok s2 w2 (rs @ stamp_each off ?each)" "same_segment s s2"
    using bytes_crate.append_singly_ok [OF assms(1-3), of ?each] unfolding batch(1) [symmetric] by blast
  have "map lr_offset (stamp_each off ?each) = map (\<lambda>i. off + of_nat i) [0..<n]"
    by (intro nth_equalityI) (simp_all add: lens offsets_from_nth [OF offsets_from_stamp_each] del: length_zip)
  moreover have "same_segment s1 s2"
    using batch(3) single(3) by (simp add: same_segment_def)
  moreover have "entries_at 0 (rs @ stamp_each off ?one) = entries_at 0 (rs @ stamp_each off ?each)"
    unfolding entries_at_append using entries_stamp_each snds by (metis)
  ultimately show ?thesis
    using single batch(2,3) sizes lens
    by (auto simp: segment_ok_def segment_holds_def same_segment_def simp del: length_zip)
qed

theorem segment_batch_equals_singles_witness:
  "\<exists>s1 w1 s2 w2.
    segment_append_batch be_ops batch_payloads
      (made_segment True 7 200 SyncLog two_records, made_world two_records) = (Ok (9, 2), (s1, w1)) \<and>
    append_singly be_ops [(6, [1]), (8, [2, 2])]
      (made_segment True 7 200 SyncLog two_records, made_world two_records) = (Ok [9, 10], (s2, w2)) \<and>
    segment_ok s1 w1 (two_records @ stamp_each 9 [(5, [1]), (5, [2, 2])]) \<and>
    segment_ok s2 w2 (two_records @ stamp_each 9 [(6, [1]), (8, [2, 2])]) \<and>
    sg_next_offset s1 = sg_next_offset s2"
proof -
  let ?s = "made_segment True 7 200 SyncLog two_records" and ?w = "made_world two_records"
  obtain s1 w1 where run: "segment_append_batch be_ops batch_payloads (?s, ?w) = (Ok (9, 2), (s1, w1))"
    using batch_run by blast
  have "map (\<lambda>i. (9 :: u64) + of_nat i) [0..<2] = [9, 10]" "take 2 batch_payloads = [[1], [2, 2]]"
    by (simp_all add: upt_rec batch_payloads_def)
  then show ?thesis
    using segment_batch_equals_singles [OF be.bytes_crate_axioms two_records_ok quiet_made_world batch_facts run,
        of "[6, 8]"] run
    by auto
qed

end
