(* ===== verification/Ruka_Recovery.thy ===== *)
theory Ruka_Recovery
  imports Ruka_Segment_Props
begin

text \<open>
  Loading a segment (\<open>Segment::load\<close> of \<open>storage/segment.rs\<close>): what the recovery scan does with
  a complete, a torn and a corrupted log, what becomes of the index, and what a crash
  or a failed synchronisation leaves.
\<close>

section \<open>The recovery loop\<close>

text \<open>The end of a log at which recovery stops: an incomplete record or one with a bad length.\<close>

definition torn :: "bytes_ops \<Rightarrow> bytes \<Rightarrow> bool" where
  "torn bx tail \<longleftrightarrow>
     (case fst (record_decode bx tail) of Ok None \<Rightarrow> True | Err e \<Rightarrow> True | _ \<Rightarrow> False)"

context bytes_crate
begin

lemma torn_Nil: "torn bx []"
  by (simp add: torn_def record_decode_def)

lemma torn_prefix: "wf_record r \<Longrightarrow> n < record_len r \<Longrightarrow> torn bx (take n (record_bytes r))"
  by (simp add: torn_def record_decode_prefix)

lemma recover_loop_torn:
  "torn bx tail \<Longrightarrow> recover_loop bx rebuild tail off n sw = (Ok (off, n), sw)"
  by (subst recover_loop.simps)
    (auto simp: torn_def split: prod.splits outcome.splits option.splits)

lemma recover_loop_record:
  assumes "wf_record r"
  shows "recover_loop bx rebuild (record_bytes r @ src) off n =
    bindp (if rebuild then index_append (lr_offset r) (of_nat n) else returnp ())
      (\<lambda>_. recover_loop bx rebuild src (lr_offset r + 1) (n + record_len r))"
  by (subst recover_loop.simps) (simp add: record_decode_bytes [OF assms] Let_def)

lemma recover_loop_log:
  assumes "\<forall>r \<in> set rs. wf_record r" "offsets_from off rs" "torn bx tail"
  shows "recover_loop bx rebuild (log_bytes rs @ tail) off n sw =
    bindp (if rebuild then append_entries (entry_pairs (entries_at n rs)) else returnp ())
      (\<lambda>_. returnp (off + of_nat (length rs), n + length (log_bytes rs))) sw"
  using assms(1,2)
proof (induction rs arbitrary: off n sw)
  case Nil
  show ?case by (simp add: recover_loop_torn [OF assms(3)] bindp_def)
next
  case (Cons r rs)
  have "recover_loop bx rebuild (log_bytes (r # rs) @ tail) off n =
    bindp (if rebuild then index_append off (of_nat n) else returnp ())
      (\<lambda>_. recover_loop bx rebuild (log_bytes rs @ tail) (off + 1) (n + record_len r))"
    using Cons.prems recover_loop_record [of r rebuild "log_bytes rs @ tail" off n] by simp
  moreover have "recover_loop bx rebuild (log_bytes rs @ tail) (off + 1) (n + record_len r) =
    bindp (if rebuild then append_entries (entry_pairs (entries_at (n + record_len r) rs)) else returnp ())
      (\<lambda>_. returnp (off + 1 + of_nat (length rs), n + record_len r + length (log_bytes rs)))"
    using Cons.prems by (intro ext Cons.IH) auto
  ultimately show ?case
    using Cons.prems by (simp add: bindp_assoc_fun add.assoc add.commute [of 1] del: returnp_simp)
qed

text \<open>A tail that makes the decoder panic makes the loop panic.\<close>

lemma recover_loop_panics:
  assumes "\<forall>r \<in> set rs. wf_record r" "offsets_from off rs" "overlong tail"
  shows "recover_loop bx rebuild (log_bytes rs @ tail) off n =
    bindp (if rebuild then append_entries (entry_pairs (entries_at n rs)) else returnp ()) (\<lambda>_. panicp)"
  using assms(1,2)
proof (induction rs arbitrary: off n)
  case Nil
  show ?case
    using assms(3) record_decode_panics_iff [of tail]
    by (intro ext, subst recover_loop.simps) (auto simp: bindp_def split: prod.splits)
next
  case (Cons r rs)
  have "recover_loop bx rebuild (log_bytes (r # rs) @ tail) off n =
    bindp (if rebuild then index_append off (of_nat n) else returnp ())
      (\<lambda>_. recover_loop bx rebuild (log_bytes rs @ tail) (off + 1) (n + record_len r))"
    using Cons.prems recover_loop_record [of r rebuild "log_bytes rs @ tail" off n] by simp
  then show ?case
    using Cons by (simp add: bindp_assoc_fun del: returnp_simp)
qed

end

section \<open>Loading a segment\<close>

text \<open>
  The index files that recovery can use with a log of the records \<open>rs\<close>: a missing file (in
  an existing directory), an empty one, one whose length is not a multiple of the entry
  size, and one that has exactly the entries of the records.
\<close>

definition index_usable :: "world \<Rightarrow> path \<Rightarrow> log_record list \<Rightarrow> bool" where
  "index_usable w p rs \<longleftrightarrow>
     (case map_of (nodes w) p of
        None \<Rightarrow> p \<noteq> [] \<and> is_dir w (butlast p)
      | Some DirNode \<Rightarrow> False
      | Some (FileNode c d) \<Rightarrow>
          length c < 2 ^ 64 \<and> (c = [] \<or> length c mod 16 \<noteq> 0 \<or> c = entries_bytes (entries_at 0 rs)))"

lemma index_create_new:
  assumes "quiet w" "map_of (nodes w) p = None" "p \<noteq> []" "is_dir w (butlast p)"
  shows "index_create p (u, w) = (Ok (loaded_index p []), ((), set_node p (FileNode [] []) w))"
  using file_open_new [OF assms, of True False u] by (simp add: index_create_def prog_simps loaded_index_def)

lemma index_create_over:
  assumes "quiet w" "content w p = Some c"
  shows "index_create p (u, w) = (Ok (loaded_index p []), ((), set_content p [] w))"
  using file_open_truncate [OF assms, of False u] by (simp add: index_create_def prog_simps loaded_index_def)

lemma index_ok_empty: "content w p = Some [] \<Longrightarrow> index_ok (loaded_index p []) w"
  by (simp add: index_ok_def loaded_index_def)

lemma index_reopen:
  assumes "quiet w" "index_usable w p rs" "sorted_wrt (<) (map lr_offset rs)"
  shows "\<exists>es w'. catchp (index_load p) returnp (\<lambda>_. index_create p) ((), w) =
      (Ok (loaded_index p es), ((), w')) \<and> (es = [] \<or> es = entries_at 0 rs) \<and>
    index_ok (loaded_index p es) w' \<and> only_touches {p} w w'"
proof (cases "map_of (nodes w) p")
  case None
  then obtain e where "index_load p ((), w) = (Err (Io e), ((), w))"
    using index_load_missing [OF assms(1)] by blast
  moreover have "index_create p ((), w) = (Ok (loaded_index p []), ((), set_node p (FileNode [] []) w))"
    using None assms(2) by (intro index_create_new assms(1)) (simp_all add: index_usable_def)
  ultimately show ?thesis
    using index_ok_empty [of "set_node p (FileNode [] []) w" p] assms(1)
    by (auto simp: catchp_Err fs_simps intro!: exI [of _ "[]"])
next
  case (Some n)
  then obtain c d where n: "n = FileNode c d" and c: "content w p = Some c" "length c < 2 ^ 64"
    and cases: "c = [] \<or> length c mod 16 \<noteq> 0 \<or> c = entries_bytes (entries_at 0 rs)"
    using assms(2) by (cases n) (auto simp: index_usable_def content_def)
  show ?thesis
  proof (cases "length c mod 16 = 0")
    case True
    then obtain es where es: "c = entries_bytes es" "es = [] \<or> es = entries_at 0 rs"
      using cases entries_bytes_Nil by metis
    have "index_load p ((), w) = (Ok (loaded_index p es), ((), w))"
      using index_load_ok [of w p es "()"] assms(1) c es by simp
    moreover have "index_ok (loaded_index p es) w"
      using es c assms(3) by (intro index_ok_loaded) auto
    ultimately show ?thesis
      using es assms(1) by (auto simp: catchp_Ok intro: only_touches_refl)
  next
    case False
    have "index_load p ((), w) = (Err (CorruptedIndex (of_nat (length c))), ((), w))"
      using index_load_corrupt [OF assms(1) c False] .
    moreover have "index_create p ((), w) = (Ok (loaded_index p []), ((), set_content p [] w))"
      using index_create_over [OF assms(1) c(1)] .
    ultimately show ?thesis
      using index_ok_empty [of "set_content p [] w" p] assms(1)
      by (auto simp: catchp_Err fs_simps intro!: exI [of _ "[]"])
  qed
qed

text \<open>The segment that a load returns; its log file is not opened for appending.\<close>

definition loaded_segment :: "path \<Rightarrow> u64 \<Rightarrow> u64 \<Rightarrow> sync_level \<Rightarrow> log_record list \<Rightarrow> segment" where
  "loaded_segment dir base mx lev rs =
     \<lparr> sg_base_offset = base,
       sg_log_file = \<lparr> fpath = log_path dir base, cursor = length (log_bytes rs), append_mode = False \<rparr>,
       sg_index = loaded_index (index_path dir base) (entries_at 0 rs),
       sg_current_size = of_nat (length (log_bytes rs)),
       sg_next_offset = base + of_nat (length rs), sg_max_bytes = mx, sg_sync_level = lev \<rparr>"

lemma seg_files_loaded: "seg_files (loaded_segment dir base mx lev rs) = {log_path dir base, index_path dir base}"
  by (simp add: seg_files_def loaded_segment_def loaded_index_def)

lemma log_index_path: "log_path dir base \<noteq> index_path dir base'"
  by (simp add: log_path_def index_path_def)

text \<open>The conditions on a log that loading recovers completely.\<close>

definition recoverable :: "u64 \<Rightarrow> u64 \<Rightarrow> log_record list \<Rightarrow> bytes \<Rightarrow> bool" where
  "recoverable base mx rs tail \<longleftrightarrow>
     offsets_from base rs \<and> unat base + length rs < 2 ^ 64 \<and> (\<forall>r \<in> set rs. wf_record r) \<and>
     length (log_bytes rs @ tail) < 2 ^ 63 \<and> unat mx < 2 ^ 63"

lemma loaded_segment_ok:
  assumes "recoverable base mx rs tail" "content w (log_path dir base) = Some (log_bytes rs)"
    "index_ok (loaded_index (index_path dir base) (entries_at 0 rs)) w"
  shows "segment_ok (loaded_segment dir base mx lev rs) w rs"
proof -
  have "segment_holds (loaded_segment dir base mx lev rs) w rs"
    using assms by (simp add: segment_holds_def loaded_segment_def recoverable_def loaded_index_def)
  then show ?thesis
    using assms(3) log_index_path [of dir base base]
    by (simp add: segment_ok_def loaded_segment_def) (simp add: loaded_index_def)
qed

lemma grown_loaded_index: "grown_index (loaded_index p []) es = loaded_index p es"
  by (simp add: loaded_index_def)

context bytes_crate
begin

lemma recover_index:
  assumes "quiet w" "recoverable base mx rs tail" "torn bx tail"
    "index_ok (loaded_index p es) w" "es = [] \<or> es = entries_at 0 rs"
    "rebuild \<longleftrightarrow> es = [] \<and> 0 < length (log_bytes rs @ tail)"
  shows "\<exists>w'. with_local (loaded_index p es) (recover_loop bx rebuild (log_bytes rs @ tail) base 0) ((), w) =
      (Ok ((base + of_nat (length rs), length (log_bytes rs)), loaded_index p (entries_at 0 rs)), ((), w')) \<and>
    index_ok (loaded_index p (entries_at 0 rs)) w' \<and> only_touches {p} w w'"
proof -
  have rec: "\<forall>r \<in> set rs. wf_record r" "offsets_from base rs" "unat base + length rs < 2 ^ 64"
    using assms(2) by (simp_all add: recoverable_def)
  show ?thesis
  proof (cases rebuild)
    case True
    then have es: "es = []"
      using assms(6) by simp
    have "sorted_wrt (<) (map ie_offset (ix_entries (loaded_index p []) @ entries_at 0 rs))"
      using offsets_from_sorted [OF rec(2,3)] by (simp add: loaded_index_entries)
    from append_entries_ok [OF assms(1) assms(4) [unfolded es] this] obtain w' where w':
      "append_entries (entry_pairs (entries_at 0 rs)) (loaded_index p [], w) =
        (Ok (), (loaded_index p (entries_at 0 rs), w'))"
      "index_ok (loaded_index p (entries_at 0 rs)) w'" "only_touches {p} w w'"
      unfolding grown_loaded_index by (auto simp: loaded_index_def)
    then show ?thesis
      using True by (auto simp: es recover_loop_log [OF rec(1,2) assms(3)] with_local_def bindp_Ok)
  next
    case False
    then have "es = entries_at 0 rs"
      using assms(5,6) by auto
    then show ?thesis
      using False assms(1,4) only_touches_refl
      by (auto simp: recover_loop_log [OF rec(1,2) assms(3)] with_local_def bindp_def)
  qed
qed

lemma recover_index_panics:
  assumes "quiet w" "recoverable base mx rs tail" "overlong tail"
    "index_ok (loaded_index p es) w" "rebuild \<Longrightarrow> es = []"
  shows "\<exists>w'. with_local (loaded_index p es) (recover_loop bx rebuild (log_bytes rs @ tail) base 0) ((), w) =
      (Panic, ((), w'))"
proof -
  have rec: "\<forall>r \<in> set rs. wf_record r" "offsets_from base rs" "unat base + length rs < 2 ^ 64"
    using assms(2) by (simp_all add: recoverable_def)
  note loop = recover_loop_panics [OF rec(1,2) assms(3)]
  show ?thesis
  proof (cases rebuild)
    case True
    have "sorted_wrt (<) (map ie_offset (ix_entries (loaded_index p []) @ entries_at 0 rs))"
      using offsets_from_sorted [OF rec(2,3)] by (simp add: loaded_index_entries)
    then obtain ix w' where "append_entries (entry_pairs (entries_at 0 rs)) (loaded_index p [], w) = (Ok (), (ix, w'))"
      using append_entries_ok [OF assms(1), of "loaded_index p []"] assms(4,5) True by blast
    then show ?thesis
      using True assms(5) by (simp add: loop with_local_def bindp_def)
  qed (simp add: loop with_local_def bindp_def)
qed

lemma cut_tail:
  assumes "quiet w" "content w p = Some (log_bytes rs @ tail)" "length (log_bytes rs @ tail) < 2 ^ 63"
  shows "\<exists>w'. with_local \<lparr> fpath = p, cursor = c, append_mode = a \<rparr>
      (if length (log_bytes rs) < unat (of_nat (length (log_bytes rs @ tail)) :: u64)
       then set_len (of_nat (length (log_bytes rs))) else returnp ()) ((), w) =
      (Ok ((), \<lparr> fpath = p, cursor = c, append_mode = a \<rparr>), ((), w')) \<and>
    content w' p = Some (log_bytes rs) \<and> only_touches {p} w w'"
proof -
  have len: "unat (of_nat (length (log_bytes rs @ tail)) :: u64) = length (log_bytes rs @ tail)"
    "unat (of_nat (length (log_bytes rs)) :: u64) = length (log_bytes rs)"
    using assms(3) by (intro unat_of_nat_u64; simp)+
  show ?thesis
  proof (cases "tail = []")
    case True
    then show ?thesis
      using assms(1,2) len only_touches_refl [OF assms(1)] by (auto simp: with_local_def)
  next
    case False
    let ?f = "\<lparr> fpath = p, cursor = c, append_mode = a \<rparr>"
    have "set_len (of_nat (length (log_bytes rs))) (?f, w) =
        (Ok (), (?f, set_content (fpath ?f) (take (length (log_bytes rs)) (log_bytes rs @ tail)) w))"
      using set_len_quiet [OF assms(1), of ?f "log_bytes rs @ tail" "of_nat (length (log_bytes rs))"] assms(2) len(2)
      by simp
    then show ?thesis
      using False len assms(1) by (auto simp: with_local_def fs_simps)
  qed
qed

end

text \<open>Opening the log and the index, and reading the whole log.\<close>

lemma read_whole:
  assumes "quiet w" "content w p = Some c"
  shows "with_local \<lparr> fpath = p, cursor = k, append_mode = a \<rparr> (bindp (seek_start 0) (\<lambda>_. read_to_end)) (u, w) =
    (Ok (c, \<lparr> fpath = p, cursor = length c, append_mode = a \<rparr>), (u, w))"
proof -
  let ?f = "\<lparr> fpath = p, cursor = 0, append_mode = a \<rparr>"
  have "read_to_end (?f, w) = (Ok c, (?f \<lparr> cursor := length c \<rparr>, w))"
    using assms by (intro read_to_end_quiet) simp_all
  then show ?thesis
    using assms(1) by (simp add: with_local_def bindp_Ok seek_start_quiet)
qed

context bytes_crate
begin

lemma segment_load_recovers:
  assumes "quiet w" "content w (log_path dir base) = Some (log_bytes rs @ tail)"
    "recoverable base mx rs tail" "torn bx tail" "index_usable w (index_path dir base) rs"
  shows "\<exists>w'. segment_load bx dir base mx lev ((), w) = (Ok (loaded_segment dir base mx lev rs), ((), w')) \<and>
    segment_ok (loaded_segment dir base mx lev rs) w' rs \<and>
    only_touches {log_path dir base, index_path dir base} w w'"
proof -
  let ?l = "log_path dir base" and ?i = "index_path dir base" and ?c = "log_bytes rs @ tail"
  let ?f = "\<lambda>n. \<lparr> fpath = ?l, cursor = n, append_mode = False \<rparr>"
  have neq: "?l \<notin> {?i}" "?i \<notin> {?l}"
    using log_index_path by (metis singletonD)+
  have rec: "offsets_from base rs" "unat base + length rs < 2 ^ 64" "length ?c < 2 ^ 63"
    using assms(3) by (simp_all add: recoverable_def)
  obtain es w1 where open1: "catchp (index_load ?i) returnp (\<lambda>_. index_create ?i) ((), w) =
      (Ok (loaded_index ?i es), ((), w1))" "es = [] \<or> es = entries_at 0 rs"
    "index_ok (loaded_index ?i es) w1" "only_touches {?i} w w1"
    using index_reopen [OF assms(1,5) offsets_from_sorted [OF rec(1,2)]] by blast
  have q1: "quiet w1" and c1: "content w1 ?l = Some ?c"
    using only_touches_quiet [OF open1(4)] only_touches_content [OF open1(4) neq(1)] assms(2) by simp_all
  have len: "unat (of_nat (length ?c) :: u64) = length ?c"
    using rec(3) by (intro unat_of_nat_u64) simp
  then have "(0 :: u64) < of_nat (length ?c) \<longleftrightarrow> 0 < length ?c"
    by (simp only: word_less_nat_alt unat_0)
  then have rebuild: "(entry_count (loaded_index ?i es) = 0 \<and> (0 :: u64) < of_nat (length ?c)) \<longleftrightarrow>
      es = [] \<and> 0 < length ?c"
    by (simp add: entry_count_def loaded_index_entries)
  let ?rebuild = "es = [] \<and> 0 < length ?c"
  obtain w2 where loop: "with_local (loaded_index ?i es) (recover_loop bx ?rebuild ?c base 0) ((), w1) =
      (Ok ((base + of_nat (length rs), length (log_bytes rs)), loaded_index ?i (entries_at 0 rs)), ((), w2))"
    "index_ok (loaded_index ?i (entries_at 0 rs)) w2" "only_touches {?i} w1 w2"
    using recover_index [OF q1 assms(3,4) open1(3,2) refl] by blast
  have c2: "content w2 ?l = Some ?c" and q2: "quiet w2"
    using only_touches_content [OF loop(3) neq(1)] only_touches_quiet [OF loop(3)] c1 by simp_all
  obtain w3 where cut: "with_local (?f (length ?c))
      (if length (log_bytes rs) < unat (of_nat (length ?c) :: u64)
       then set_len (of_nat (length (log_bytes rs))) else returnp ()) ((), w2) =
      (Ok ((), ?f (length ?c)), ((), w3))" "content w3 ?l = Some (log_bytes rs)" "only_touches {?l} w2 w3"
    using cut_tail [OF q2 c2 rec(3)] by blast
  have q3: "quiet w3" and i3: "index_ok (loaded_index ?i (entries_at 0 rs)) w3"
    using only_touches_quiet [OF cut(3)] only_touches_content [OF cut(3) neq(2)] loop(2)
    by (simp_all add: index_ok_def loaded_index_def)
  have meta: "with_local (?f 0) metadata_len ((), w1) = (Ok (of_nat (length ?c), ?f 0), ((), w1))"
    using q1 c1 by (intro with_local_Ok metadata_len_quiet) simp_all
  have flush: "with_local ix (if b then index_flush else returnp ()) ((), w3) = (Ok ((), ix), ((), w3))" for b ix
    by (simp add: with_local_def index_flush_def file_flush_def zoom_def)
  have last: "with_local (?f (length ?c)) seek_end ((), w3) = (Ok ((), ?f (length (log_bytes rs))), ((), w3))"
    using seek_end_quiet [OF q3, of "?f (length ?c)"] cut(2) by (simp add: with_local_def)
  have "segment_load bx dir base mx lev ((), w) = (Ok (loaded_segment dir base mx lev rs), ((), w3))"
    unfolding segment_load_def
    by (simp only: bindp_Ok file_open_existing [OF assms(1,2)] open1(1) meta read_whole [OF q1 c1]
        prod.case Let_def rebuild loop(1) cut(1) flush last returnp_simp loaded_segment_def)
  moreover have "only_touches {?l, ?i} w w3"
    using only_touches_trans [OF only_touches_trans [OF open1(4) loop(3)] cut(3)]
    by (simp add: insert_commute)
  ultimately show ?thesis
    using loaded_segment_ok [OF assms(3) cut(2) i3] by blast
qed

end

section \<open>Crashes\<close>

text \<open>After a crash every file holds what had been forced to disk. The names of files and directories are all kept.\<close>

definition crash :: "world \<Rightarrow> world" where
  "crash w = w \<lparr> nodes := map (\<lambda>(p, n). (p, case n of DirNode \<Rightarrow> DirNode | FileNode c d \<Rightarrow> FileNode d d)) (nodes w),
     choices := [] \<rparr>"

lemma map_of_crash: "map_of (nodes (crash w)) p =
    map_option (\<lambda>n. case n of DirNode \<Rightarrow> DirNode | FileNode c d \<Rightarrow> FileNode d d) (map_of (nodes w) p)"
  by (simp add: crash_def map_of_map)

lemma content_crash: "content (crash w) p = durable w p"
  by (simp add: content_def durable_def map_of_crash split: option.split node.split)

lemma quiet_crash [simp]: "quiet (crash w)"
  by (simp add: crash_def quiet_def)

lemma length_log_bytes_ge: "28 * length rs \<le> length (log_bytes rs)"
proof (induction rs)
  case (Cons r rs)
  then show ?case using record_len_ge [of r] by simp
qed simp

lemma index_usable_complete:
  assumes "content w p = Some (entries_bytes (entries_at 0 rs))" "length (log_bytes rs) < 2 ^ 63"
  shows "index_usable w p rs"
  using assms length_log_bytes_ge [of rs]
  by (auto simp: index_usable_def content_def split: option.splits node.splits)

lemma same_segment_index_path:
  assumes "same_segment s s'" "fpath (sg_log_file s') \<noteq> fpath (ix_file (sg_index s'))"
  shows "fpath (ix_file (sg_index s')) = fpath (ix_file (sg_index s))"
  using assms by (auto simp: same_segment_def seg_files_def doubleton_eq_iff)

section \<open>Properties of recovery\<close>

text \<open>C20: Loading a segment whose log ends in a torn write recovers exactly the complete records: the
  tail is cut off, the next offset and the size are those of the records, an index that is
  missing, empty or of irregular length is rebuilt, and the segment is ready for appends.\<close>

theorem segment_load_recovers_records:
  assumes "bytes_crate bx" "quiet w" "content w (log_path dir base) = Some (log_bytes rs @ take n (record_bytes r))"
    "wf_record r" "n < record_len r" "recoverable base mx rs (take n (record_bytes r))"
    "index_usable w (index_path dir base) rs"
  shows "\<exists>s w'. segment_load bx dir base mx lev ((), w) = (Ok s, ((), w')) \<and> segment_ok s w' rs \<and>
    sg_next_offset s = base + of_nat (length rs) \<and> content w' (log_path dir base) = Some (log_bytes rs) \<and>
    only_touches {log_path dir base, index_path dir base} w w'"
proof -
  obtain w' where "segment_load bx dir base mx lev ((), w) = (Ok (loaded_segment dir base mx lev rs), ((), w'))"
    "segment_ok (loaded_segment dir base mx lev rs) w' rs"
    "only_touches {log_path dir base, index_path dir base} w w'"
    using bytes_crate.segment_load_recovers [OF assms(1-3,6) bytes_crate.torn_prefix [OF assms(1,4,5)] assms(7)]
    by blast
  moreover have "content w' (log_path dir base) = Some (log_bytes rs)"
    using \<open>segment_ok (loaded_segment dir base mx lev rs) w' rs\<close>
    by (simp add: segment_ok_def segment_holds_def loaded_segment_def)
  ultimately show ?thesis
    by (auto simp: loaded_segment_def)
qed

definition torn_world :: world where
  "torn_world =
     \<lparr> nodes = [([''d''], DirNode),
         (log_path [''d''] 7, FileNode (log_bytes two_records @ take 30 (record_bytes (hd two_records))) [])],
       choices = [], clock = 0 \<rparr>"

theorem segment_load_recovers_records_witness:
  "\<exists>s w'. segment_load be_ops [''d''] 7 200 SyncLog ((), torn_world) = (Ok s, ((), w')) \<and>
    segment_ok s w' two_records \<and> sg_next_offset s = 7 + of_nat (length two_records) \<and>
    content w' (log_path [''d''] 7) = Some (log_bytes two_records) \<and>
    only_touches {log_path [''d''] 7, index_path [''d''] 7} torn_world w'"
proof (rule segment_load_recovers_records [OF be.bytes_crate_axioms, where n = 30 and r = "hd two_records"])
  show "recoverable 7 200 two_records (take 30 (record_bytes (hd two_records)))"
    by (simp add: recoverable_def two_records_def wf_record_def record_len_def opt_len_def)
  show "index_usable torn_world (index_path [''d''] 7) two_records"
    using log_index_path [of "[''d'']" 7 7]
    by (auto simp: index_usable_def torn_world_def is_dir_def) (simp_all add: index_path_def)
qed (simp_all add: quiet_def torn_world_def content_def log_path_def two_records_def wf_record_def
    record_len_def opt_len_def)

text \<open>C19: An append that was acknowledged under the synchronisation level \<open>LogAndIndex\<close> survives a
  crash: loading the segment from what was on disk succeeds, the recovered segment holds all
  earlier records and the new one, and a read at the returned offset finds it.\<close>

theorem synced_append_survives_crash:
  assumes "bytes_crate bx" "segment_ok s w rs" "quiet w" "segment_admits (s, w) k v"
    "sg_sync_level s = SyncLogAndIndex"
    "fpath (sg_log_file s) = log_path dir (sg_base_offset s)"
    "fpath (ix_file (sg_index s)) = index_path dir (sg_base_offset s)"
    "segment_append bx k v (s, w) = (Ok off, (s', w'))"
  shows "\<exists>s2 w2. segment_load bx dir (sg_base_offset s) (sg_max_bytes s) SyncLogAndIndex ((), crash w') =
      (Ok s2, ((), w2)) \<and>
    segment_ok s2 w2
      (rs @ [\<lparr> lr_offset = off, lr_timestamp_ms = clock w, lr_key = k, lr_value = v \<rparr>]) \<and>
    fst (segment_read_at bx off (s2, w2)) =
      Ok (Some \<lparr> lr_offset = off, lr_timestamp_ms = clock w, lr_key = k, lr_value = v \<rparr>)"
proof -
  let ?r = "new_record s w k v" and ?dir = "log_path dir (sg_base_offset s)"
  have app: "off = sg_next_offset s" "segment_ok s' w' (rs @ [?r])" "same_segment s s'" "on_disk s' w'"
    using bytes_crate.segment_append_cases [OF assms(1-4) refl] assms(8)
    by (auto split: if_splits)
  note inv = app(2) [unfolded segment_ok_def segment_holds_def]
  have paths: "fpath (sg_log_file s') = log_path dir (sg_base_offset s)"
    "fpath (ix_file (sg_index s')) = index_path dir (sg_base_offset s)"
    using app(3) same_segment_index_path [OF app(3)] inv assms(6,7) by (simp_all add: same_segment_def)
  have logc: "content (crash w') (log_path dir (sg_base_offset s)) = Some (log_bytes (rs @ [?r]) @ [])"
    and ixc: "content (crash w') (index_path dir (sg_base_offset s)) =
      Some (entries_bytes (entries_at 0 (rs @ [?r])))"
    using inv app(3,4) assms(5) paths by (auto simp: content_crash on_disk_def same_segment_def index_ok_def)
  have size: "length (log_bytes (rs @ [?r])) < 2 ^ 63"
    using inv by blast
  have "recoverable (sg_base_offset s) (sg_max_bytes s) (rs @ [?r]) []"
    using inv app(3) by (auto simp: recoverable_def same_segment_def)
  from bytes_crate.segment_load_recovers [OF assms(1) quiet_crash logc this
      bytes_crate.torn_Nil [OF assms(1)] index_usable_complete [OF ixc size]]
  obtain s2 w2 where load: "segment_load bx dir (sg_base_offset s) (sg_max_bytes s) SyncLogAndIndex ((), crash w') =
      (Ok s2, ((), w2))" "segment_ok s2 w2 (rs @ [?r])" "quiet w2"
    using only_touches_quiet by blast
  have holds: "segment_holds s2 w2 (rs @ [?r])"
    using load(2) by (simp add: segment_ok_def)
  have "record_at off (rs @ [?r]) = Some ?r"
    using record_at_nth [OF holds_sorted [OF holds], of "length rs"] app(1) by simp
  then have "fst (segment_read_at bx off (s2, w2)) = Ok (Some ?r)"
    using bytes_crate.segment_read_at_log [OF assms(1) holds load(3), of off] by auto
  then show ?thesis
    using load(1,2) app(1) unfolding new_record_def by blast
qed

definition stored_world :: "path \<Rightarrow> u64 \<Rightarrow> log_record list \<Rightarrow> world" where
  "stored_world dir base rs =
     \<lparr> nodes = [(log_path dir base, FileNode (log_bytes rs) []),
                (index_path dir base, FileNode (entries_bytes (entries_at 0 rs)) [])],
       choices = [], clock = 5 \<rparr>"

lemma stored_world_simps [simp]:
  "quiet (stored_world dir base rs)" "clock (stored_world dir base rs) = 5"
  "content (stored_world dir base rs) (log_path dir base) = Some (log_bytes rs)"
  "content (stored_world dir base rs) (index_path dir base) = Some (entries_bytes (entries_at 0 rs))"
  using log_index_path [of dir base base]
  by (auto simp: stored_world_def quiet_def content_def)

lemma stored_segment_ok:
  assumes "recoverable base mx rs []"
  shows "segment_ok (loaded_segment dir base mx lev rs) (stored_world dir base rs) rs"
  using assms offsets_from_sorted [of base rs]
  by (intro loaded_segment_ok [OF assms] index_ok_loaded) (auto simp: recoverable_def)

lemma two_records_recoverable: "recoverable 7 200 two_records []"
  by (simp add: recoverable_def two_records_def wf_record_def record_len_def opt_len_def)

lemma loaded_segment_simps [simp]:
  "sg_base_offset (loaded_segment dir base mx lev rs) = base"
  "sg_max_bytes (loaded_segment dir base mx lev rs) = mx"
  "sg_sync_level (loaded_segment dir base mx lev rs) = lev"
  "sg_next_offset (loaded_segment dir base mx lev rs) = base + of_nat (length rs)"
  "fpath (sg_log_file (loaded_segment dir base mx lev rs)) = log_path dir base"
  "fpath (ix_file (sg_index (loaded_segment dir base mx lev rs))) = index_path dir base"
  "append_mode (sg_log_file (loaded_segment dir base mx lev rs)) = False"
  by (simp_all add: loaded_segment_def loaded_index_def)

lemma stored_append:
  "\<exists>s' w'. segment_append be_ops None (Some [4])
      (loaded_segment [''d''] 7 200 SyncLogAndIndex two_records, stored_world [''d''] 7 two_records) =
    (Ok 9, (s', w'))"
proof -
  let ?s = "loaded_segment [''d''] 7 200 SyncLogAndIndex two_records"
  have adm: "segment_admits (?s, stored_world [''d''] 7 two_records) None (Some [4])"
    by (simp add: segment_admits_def opt_len_def two_records_def)
  have "sg_next_offset ?s = 9"
    by (simp add: two_records_def)
  then show ?thesis
    using be.segment_append_cases [OF stored_segment_ok [OF two_records_recoverable] _ adm refl]
      batch_numbers(2)
    by (auto simp: too_large_def no_room_def record_len_def opt_len_def)
qed

theorem synced_append_survives_crash_witness:
  "\<exists>s' w' s2 w2.
    segment_append be_ops None (Some [4])
      (loaded_segment [''d''] 7 200 SyncLogAndIndex two_records, stored_world [''d''] 7 two_records) =
      (Ok 9, (s', w')) \<and>
    segment_load be_ops [''d''] 7 200 SyncLogAndIndex ((), crash w') = (Ok s2, ((), w2)) \<and>
    fst (segment_read_at be_ops 9 (s2, w2)) =
      Ok (Some \<lparr> lr_offset = 9, lr_timestamp_ms = 5, lr_key = None, lr_value = Some [4] \<rparr>)"
proof -
  let ?s = "loaded_segment [''d''] 7 200 SyncLogAndIndex two_records"
  have adm: "segment_admits (?s, stored_world [''d''] 7 two_records) None (Some [4])"
    by (simp add: segment_admits_def opt_len_def two_records_def)
  obtain s' w' where run: "segment_append be_ops None (Some [4])
      (?s, stored_world [''d''] 7 two_records) = (Ok 9, (s', w'))"
    using stored_append by blast
  have "\<exists>s2 w2. segment_load be_ops [''d''] 7 200 SyncLogAndIndex ((), crash w') = (Ok s2, ((), w2)) \<and>
    fst (segment_read_at be_ops 9 (s2, w2)) =
      Ok (Some \<lparr> lr_offset = 9, lr_timestamp_ms = 5, lr_key = None, lr_value = Some [4] \<rparr>)"
    using synced_append_survives_crash [OF be.bytes_crate_axioms
        stored_segment_ok [OF two_records_recoverable] _ adm _ _ _ run, of "[''d'']"]
    by auto
  with run show ?thesis by blast
qed

lemma append_at_chunk_end:
  assumes "bytes_crate bx" "segment_ok s w rs" "quiet w" "\<not> append_mode (sg_log_file s)"
    "rs \<noteq> []" "record_len (hd rs) \<le> 4096" "4096 < length (log_bytes rs)"
    "segment_admits (s, w) k v" "length (log_bytes rs) + 28 + opt_len k + opt_len v \<le> unat (sg_max_bytes s)"
  shows "let r = \<lparr> lr_offset = sg_next_offset s, lr_timestamp_ms = clock w, lr_key = k, lr_value = v \<rparr> in
    \<exists>s1 s2 w2. segment_read_at bx (sg_base_offset s) (s, w) = (Ok (Some (hd rs)), (s1, w)) \<and>
      segment_append bx k v (s1, w) = (Ok (sg_next_offset s), (s2, w2)) \<and>
      content w2 (fpath (sg_log_file s)) = Some (overwrite 4096 (record_bytes r) (log_bytes rs)) \<and>
      content w2 (fpath (sg_log_file s)) \<noteq> Some (log_bytes (rs @ [r]))"
proof -
  let ?s1 = "at_cursor 4096 s" and ?r = "new_record s w k v"
  have holds: "segment_holds s w rs" and holds1: "segment_holds ?s1 w rs"
    using assms(2) by (simp_all add: segment_ok_def)
  note inv = assms(2) [unfolded segment_ok_def segment_holds_def]
  have read: "segment_read_at bx (sg_base_offset s) (s, w) = (Ok (Some (hd rs)), (?s1, w))"
    using bytes_crate.segment_read_at_chunk [OF assms(1) holds assms(3), of 0] assms(5-7)
    by (simp add: hd_conv_nth)
  have wf: "wf_record ?r" and off: "unat (sg_next_offset s) + 1 < 2 ^ 64"
    using assms(8) by (simp_all add: segment_admits_def wf_record_def record_len_new)
  have new: "new_record ?s1 w k v = ?r"
    by (simp add: new_record_def)
  have room: "\<not> too_large ?s1 ?r" "\<not> no_room ?s1 rs ?r"
    using assms(9) by (simp_all add: too_large_def no_room_def record_len_new)
  have srt: "sorted_wrt (<) (map ie_offset (ix_entries (sg_index ?s1) @
      [\<lparr> ie_offset = sg_next_offset s, ie_position = sg_current_size s \<rparr>]))"
    using offsets_from_sorted [of "sg_base_offset s" "rs @ [?r]"] inv off
    by (auto simp: offsets_from_append unat_offset)
  have "\<exists>s2 w2. store_records (record_bytes ?r) [(sg_next_offset s, sg_current_size s)] (?s1, w) = (Ok (), (s2, w2)) \<and>
      content w2 (fpath (sg_log_file s)) = Some (overwrite 4096 (record_bytes ?r) (log_bytes rs))"
    using store_records_at [OF assms(3) _ _ _ _ srt refl refl, of "log_bytes rs" "record_bytes ?r"] inv assms(4)
    by auto
  then obtain s2 w2 where store: "store_records (record_bytes ?r) [(sg_next_offset s, sg_current_size s)] (?s1, w) =
      (Ok (), (s2, w2))"
    "content w2 (fpath (sg_log_file s)) = Some (overwrite 4096 (record_bytes ?r) (log_bytes rs))"
    by blast
  have "\<exists>s3. segment_append bx k v (?s1, w) = (Ok (sg_next_offset s), (s3, w2))"
    using bytes_crate.segment_append_unfold [OF assms(1) holds1, of w k v] wf room store(1)
    by (simp add: new Let_def bindp_def)
  moreover have "length (overwrite 4096 (record_bytes ?r) (log_bytes rs)) < length (log_bytes (rs @ [?r]))"
    using assms(7) record_len_ge [of ?r] by (simp add: overwrite_def)
  ultimately show ?thesis
    using read store(2) unfolding Let_def new_record_def by (metis less_irrefl option.inject)
qed

definition long_records :: "log_record list" where
  "long_records =
     [\<lparr> lr_offset = 0, lr_timestamp_ms = 1, lr_key = None, lr_value = Some (replicate 3000 1) \<rparr>,
      \<lparr> lr_offset = 1, lr_timestamp_ms = 1, lr_key = None, lr_value = Some (replicate 3000 2) \<rparr>]"

text \<open>C26: Loading a segment opens its log file without append mode, unlike creating one, so a read
  moves the place where the next append writes. When a segment with a complete log of more than
  4096 bytes, whose first record ends within them, is loaded, its first record read and a record
  appended, the append is acknowledged with the next offset, but its bytes land at position
  4096, over records that were already acknowledged, and the log no longer holds the records
  followed by the new one.\<close>

theorem append_after_read_overwrites:
  assumes "bytes_crate bx" "quiet w" "content w (log_path dir base) = Some (log_bytes rs)"
    "recoverable base mx rs []" "index_usable w (index_path dir base) rs"
    "rs \<noteq> []" "record_len (hd rs) \<le> 4096" "4096 < length (log_bytes rs)"
    "28 + opt_len k + opt_len v < 2 ^ 32" "unat base + length rs + 1 < 2 ^ 64"
    "length (log_bytes rs) + 28 + opt_len k + opt_len v \<le> unat mx"
  shows "let off = base + of_nat (length rs);
      r = \<lparr> lr_offset = off, lr_timestamp_ms = clock w, lr_key = k, lr_value = v \<rparr> in
    \<exists>s w' s1 s2 w2. segment_load bx dir base mx lev ((), w) = (Ok s, ((), w')) \<and>
      segment_read_at bx base (s, w') = (Ok (Some (hd rs)), (s1, w')) \<and>
      segment_append bx k v (s1, w') = (Ok off, (s2, w2)) \<and>
      content w2 (log_path dir base) = Some (overwrite 4096 (record_bytes r) (log_bytes rs)) \<and>
      content w2 (log_path dir base) \<noteq> Some (log_bytes (rs @ [r]))"
proof -
  let ?s = "loaded_segment dir base mx lev rs"
  obtain w' where load: "segment_load bx dir base mx lev ((), w) = (Ok ?s, ((), w'))" "segment_ok ?s w' rs"
    "only_touches {log_path dir base, index_path dir base} w w'"
    using bytes_crate.segment_load_recovers [OF assms(1,2) _ assms(4) bytes_crate.torn_Nil [OF assms(1)] assms(5)]
      assms(3) by auto
  have w': "quiet w'" "clock w' = clock w"
    using load(3) by (simp_all add: only_touches_def)
  have "unat (base + of_nat (length rs)) = unat base + length rs"
    using assms(10) by (intro unat_offset) simp
  then have adm: "segment_admits (?s, w') k v"
    using assms(9,10) by (simp add: segment_admits_def loaded_segment_def)
  have "\<not> append_mode (sg_log_file ?s)" "length (log_bytes rs) + 28 + opt_len k + opt_len v \<le> unat (sg_max_bytes ?s)"
    using assms(11) by (simp_all add: loaded_segment_def)
  note append_at_chunk_end [OF assms(1) load(2) w'(1) this(1) assms(6-8) adm this(2)]
  then show ?thesis
    using load(1) w'(2) unfolding Let_def by (simp add: loaded_segment_def)
qed

theorem append_after_read_overwrites_witness:
  "\<exists>s w' s1 s2 w2.
    segment_load be_ops [''d''] 0 100000 SyncNone ((), stored_world [''d''] 0 long_records) = (Ok s, ((), w')) \<and>
    segment_read_at be_ops 0 (s, w') = (Ok (Some (hd long_records)), (s1, w')) \<and>
    segment_append be_ops None (Some [7]) (s1, w') = (Ok 2, (s2, w2)) \<and>
    content w2 (log_path [''d''] 0) \<noteq>
      Some (log_bytes (long_records @
        [\<lparr> lr_offset = 2, lr_timestamp_ms = 5, lr_key = None, lr_value = Some [7] \<rparr>]))"
proof -
  let ?w = "stored_world [''d''] 0 long_records"
  have len: "length (log_bytes long_records) = 6056" "length long_records = 2" "record_len (hd long_records) = 3028"
    by (simp_all add: long_records_def record_len_def opt_len_def)
  have rec: "recoverable 0 100000 long_records []" and ne: "long_records \<noteq> []"
    by (simp_all add: recoverable_def long_records_def wf_record_def record_len_def opt_len_def)
  have ix: "index_usable ?w (index_path [''d''] 0) long_records"
    by (intro index_usable_complete) (simp_all add: len)
  show ?thesis
    using append_after_read_overwrites [OF be.bytes_crate_axioms _ _ rec ix ne, of None "Some [7]" SyncNone]
    by (auto simp: len opt_len_def Let_def)
qed

text \<open>The first steps of a load whose index file is regular and not empty.\<close>

lemma index_reopen_regular:
  assumes "quiet w" "content w p = Some (entries_bytes es)" "es \<noteq> []" "16 * length es < 2 ^ 64"
  shows "catchp (index_load p) returnp (\<lambda>_. index_create p) ((), w) = (Ok (loaded_index p es), ((), w))"
    "(entry_count (loaded_index p es) = 0 \<and> (0 :: u64) < n) = False"
  using assms index_load_ok [of w p es "()"]
  by (simp_all add: catchp_Ok entry_count_def loaded_index_entries)

lemma metadata_local:
  assumes "quiet w" "content w p = Some c"
  shows "with_local \<lparr> fpath = p, cursor = k, append_mode = a \<rparr> metadata_len (u, w) =
    (Ok (of_nat (length c), \<lparr> fpath = p, cursor = k, append_mode = a \<rparr>), (u, w))"
  using assms by (intro with_local_Ok metadata_len_quiet) simp_all

text \<open>An index that has lost its last entries is taken as it is.\<close>

lemma segment_load_short_index:
  assumes "bytes_crate bx" "quiet w" "recoverable base mx rs []" "content w (log_path dir base) = Some (log_bytes rs)"
    "content w (index_path dir base) = Some (entries_bytes es)" "es = entries_at 0 (take m rs)" "0 < m" "rs \<noteq> []"
  shows "segment_load bx dir base mx lev ((), w) =
    (Ok ((loaded_segment dir base mx lev rs) \<lparr> sg_index := loaded_index (index_path dir base) es \<rparr>), ((), w))"
proof -
  let ?l = "log_path dir base" and ?i = "index_path dir base" and ?c = "log_bytes rs"
  let ?f = "\<lparr> fpath = ?l, cursor = length ?c, append_mode = False \<rparr>"
  have rec: "\<forall>r \<in> set rs. wf_record r" "offsets_from base rs" "length ?c < 2 ^ 63"
    using assms(3) by (simp_all add: recoverable_def)
  have ne: "es \<noteq> []" and "16 * length es < 2 ^ 64"
    using assms(6-8) length_log_bytes_ge [of rs] rec(3) by (cases rs; cases m; simp)+
  note reopen = index_reopen_regular [OF assms(2,5) this]
  have loop: "with_local (loaded_index ?i es) (recover_loop bx False ?c base 0) ((), w) =
      (Ok ((base + of_nat (length rs), length ?c), loaded_index ?i es), ((), w))"
    using bytes_crate.recover_loop_log [OF assms(1) rec(1,2) bytes_crate.torn_Nil [OF assms(1)], of False 0]
    by (simp add: with_local_def bindp_def)
  have "unat (of_nat (length ?c) :: u64) = length ?c"
    using rec(3) by (intro unat_of_nat_u64) simp
  then have keep: "with_local f (if length ?c < unat (of_nat (length ?c) :: u64) then m1 else returnp ()) ((), w) =
      (Ok ((), f), ((), w))" for f m1
    by (simp add: with_local_def)
  have flush: "with_local ix (if False then index_flush else returnp ()) ((), w) = (Ok ((), ix), ((), w))" for ix
    by (simp add: with_local_def)
  have last: "with_local ?f seek_end ((), w) = (Ok ((), ?f), ((), w))"
    using seek_end_quiet [OF assms(2), of ?f] assms(4) by (simp add: with_local_def)
  show ?thesis
    unfolding segment_load_def
    by (simp only: bindp_Ok file_open_existing [OF assms(2,4)] reopen metadata_local [OF assms(2,4)]
        read_whole [OF assms(2,4)] prod.case Let_def loop keep flush last returnp_simp)
      (simp add: loaded_segment_def)
qed

lemma short_index_lookup:
  assumes "offsets_from base rs" "unat base + length rs < 2 ^ 64" "m \<le> i" "i < length rs"
  shows "index_lookup (loaded_index p (entries_at 0 (take m rs))) (base + of_nat i) = None"
proof -
  let ?es = "entries_at 0 (take m rs)"
  have "base + of_nat i \<notin> ie_offset ` set ?es"
  proof
    assume "base + of_nat i \<in> ie_offset ` set ?es"
    then have "base + of_nat i \<in> set (map lr_offset (take m rs))"
      by (metis entries_at_offsets image_set)
    then obtain j where "j < m" "j < length rs" "base + of_nat i = lr_offset (rs ! j)"
      by (auto simp: in_set_conv_nth)
    then show False
      using offsets_from_nth [OF assms(1)] offset_eq_iff [of base i j] assms(2-4) by simp
  qed
  then obtain j where "binary_search_by_key ie_offset (base + of_nat i) ?es = Missing j"
    using entry_search.search_not_in by blast
  then show ?thesis
    by (simp add: index_lookup_def loaded_index_entries)
qed

text \<open>C27: An index file that is regular but covers only the first records of the log is taken as it
  is, although the log is scanned to its end: after the load the segment counts every
  record in its next offset, but a read of a record that the index file lacks returns nothing.\<close>

theorem short_index_hides_records:
  assumes "bytes_crate bx" "quiet w" "recoverable base mx rs []"
    "content w (log_path dir base) = Some (log_bytes rs)"
    "content w (index_path dir base) = Some (entries_bytes (entries_at 0 (take m rs)))"
    "0 < m" "m \<le> i" "i < length rs"
  shows "\<exists>s. segment_load bx dir base mx lev ((), w) = (Ok s, ((), w)) \<and>
    sg_next_offset s = base + of_nat (length rs) \<and>
    segment_read_at bx (base + of_nat i) (s, w) = (Ok None, (s, w))"
proof -
  let ?s = "(loaded_segment dir base mx lev rs) \<lparr> sg_index := loaded_index (index_path dir base) (entries_at 0 (take m rs)) \<rparr>"
  have "segment_load bx dir base mx lev ((), w) = (Ok ?s, ((), w))"
    using assms(8) by (intro segment_load_short_index [OF assms(1-5) refl assms(6)]) auto
  moreover have "index_lookup (sg_index ?s) (base + of_nat i) = None"
    using short_index_lookup assms(3,7,8) by (simp add: recoverable_def)
  then have "segment_read_at bx (base + of_nat i) (?s, w) = (Ok None, (?s, w))"
    by (simp add: segment_read_at_def Let_def)
  ultimately show ?thesis
    by auto
qed

definition short_index_world :: world where
  "short_index_world =
     \<lparr> nodes = [(log_path [''d''] 7, FileNode (log_bytes two_records) []),
                (index_path [''d''] 7, FileNode (entries_bytes (entries_at 0 (take 1 two_records))) [])],
       choices = [], clock = 5 \<rparr>"

theorem short_index_hides_records_witness:
  "\<exists>s. segment_load be_ops [''d''] 7 200 SyncLog ((), short_index_world) = (Ok s, ((), short_index_world)) \<and>
    sg_next_offset s = 7 + of_nat (length two_records) \<and>
    segment_read_at be_ops (7 + of_nat 1) (s, short_index_world) = (Ok None, (s, short_index_world))"
  by (rule short_index_hides_records [OF be.bytes_crate_axioms _ two_records_recoverable, where m = 1])
    (use log_index_path [of "[''d'']" 7 7] in
      \<open>auto simp: quiet_def short_index_world_def content_def two_records_def\<close>)

text \<open>C28: A corrupted record can make the broker unable to start: when the complete records of a log
  are followed by bytes that announce a record that is there in full, of at least 28 bytes, but
  whose key and value lengths reach past the end of the file, loading the segment panics instead
  of cutting the log there, whether its index is intact, missing, empty or of irregular length.\<close>

theorem segment_load_panics_on_bad_record:
  assumes "bytes_crate bx" "quiet w" "recoverable base mx rs tail" "overlong tail"
    "content w (log_path dir base) = Some (log_bytes rs @ tail)" "index_usable w (index_path dir base) rs"
  shows "fst (segment_load bx dir base mx lev ((), w)) = Panic"
proof -
  let ?l = "log_path dir base" and ?i = "index_path dir base" and ?c = "log_bytes rs @ tail"
  have rec: "offsets_from base rs" "unat base + length rs < 2 ^ 64"
    using assms(3) by (simp_all add: recoverable_def)
  obtain es w1 where open1: "catchp (index_load ?i) returnp (\<lambda>_. index_create ?i) ((), w) =
      (Ok (loaded_index ?i es), ((), w1))" "index_ok (loaded_index ?i es) w1" "only_touches {?i} w w1"
    using index_reopen [OF assms(2,6) offsets_from_sorted [OF rec]] by blast
  have q1: "quiet w1" and c1: "content w1 ?l = Some ?c"
    using only_touches_quiet [OF open1(3)] only_touches_content [OF open1(3), of ?l] assms(5)
      log_index_path [of dir base base] by simp_all
  let ?rebuild = "entry_count (loaded_index ?i es) = 0 \<and> (0 :: u64) < of_nat (length ?c)"
  obtain w2 where loop: "with_local (loaded_index ?i es) (recover_loop bx ?rebuild ?c base 0) ((), w1) =
      (Panic, ((), w2))"
    using bytes_crate.recover_index_panics [OF assms(1) q1 assms(3,4) open1(2), of ?rebuild]
    by (auto simp: entry_count_def loaded_index_entries)
  have "segment_load bx dir base mx lev ((), w) = (Panic, ((), w2))"
    unfolding segment_load_def
    by (simp only: bindp_Ok bindp_Panic file_open_existing [OF assms(2,5)] open1(1) metadata_local [OF q1 c1]
        read_whole [OF q1 c1] prod.case Let_def loop)
  then show ?thesis by simp
qed

definition bad_tail :: bytes where
  "bad_tail = word_be (28 :: u32) @ word_be (0 :: u64) @ word_be (0 :: u64) @ word_be (100 :: u32) @ [0, 0, 0, 0]"

definition bad_world :: world where
  "bad_world =
     \<lparr> nodes = [(log_path [''d''] 7, FileNode (log_bytes two_records @ bad_tail) []),
                (index_path [''d''] 7, FileNode (entries_bytes (entries_at 0 two_records)) [])],
       choices = [], clock = 5 \<rparr>"

theorem segment_load_panics_on_bad_record_witness:
  "overlong bad_tail \<and> fst (segment_load be_ops [''d''] 7 200 SyncLog ((), bad_world)) = Panic"
proof
  show bad: "overlong bad_tail"
    by (simp add: overlong_def field_end_def bad_tail_def be_simps Let_def)
  show "fst (segment_load be_ops [''d''] 7 200 SyncLog ((), bad_world)) = Panic"
  proof (rule segment_load_panics_on_bad_record [OF be.bytes_crate_axioms _ _ bad, where rs = two_records])
    show "recoverable 7 200 two_records bad_tail"
      by (simp add: recoverable_def two_records_def wf_record_def record_len_def opt_len_def bad_tail_def)
    show "index_usable bad_world (index_path [''d''] 7) two_records"
      using log_index_path [of "[''d'']" 7 7]
      by (intro index_usable_complete) (auto simp: bad_world_def content_def two_records_def record_len_def opt_len_def)
  qed (simp_all add: quiet_def bad_world_def content_def)
qed

section \<open>A failed synchronisation\<close>

text \<open>When the log cannot be synchronised, the record stays in the file and only the cursor has moved.\<close>

lemma store_records_unsynced:
  assumes "segment_ok s w rs" "quiet w" "sg_sync_level s \<noteq> SyncNone" "data \<noteq> []"
  shows "store_records data es (s, w \<lparr> choices := [Normal, Fault e n] \<rparr>) =
    (Err (Io e), (at_cursor (length (log_bytes rs @ data)) s, set_content (fpath (sg_log_file s)) (log_bytes rs @ data) w))"
proof -
  let ?f = "sg_log_file s" and ?c = "log_bytes rs"
  let ?w1 = "set_content (fpath ?f) (?c @ data) (w \<lparr> choices := [Fault e n] \<rparr>)"
  have c: "content w (fpath ?f) = Some ?c" and pos: "append_mode ?f \<or> cursor ?f = length ?c"
    using assms(1) by (simp_all add: segment_ok_def segment_holds_def)
  have "bytes_at (w \<lparr> choices := [Fault e n] \<rparr>) (fpath ?f) = ?c"
    using c by (simp add: bytes_at_def content_def)
  then have "write_all data (?f, w \<lparr> choices := [Normal, Fault e n] \<rparr>) =
      (Ok (), (?f \<lparr> cursor := length (?c @ data) \<rparr>, ?w1))"
    using pos assms(4) by (auto simp: write_all_def write_bytes_def Let_def)
  then have stored: "zoom sg_log_file sg_log_file_update (write_all data) (s, w \<lparr> choices := [Normal, Fault e n] \<rparr>) =
      (Ok (), (at_cursor (length (?c @ data)) s, ?w1))"
    by (rule zoom_log)
  have "?w1 \<lparr> choices := [] \<rparr> = set_content (fpath ?f) (?c @ data) w"
    using assms(2) by (simp add: set_content_def set_node_def durable_at_def durable_def quiet_def)
  then have "sync_log (at_cursor (length (?c @ data)) s, ?w1) =
      (Err (Io e), (at_cursor (length (?c @ data)) s, set_content (fpath ?f) (?c @ data) w))"
    using assms(3) by (cases "sg_sync_level s")
      (simp_all add: sync_log_def zoom_def sync_data_def sys_def set_content_def set_node_def at_cursor_def)
  then show ?thesis
    by (simp add: store_records_def bindp_def stored)
qed

text \<open>The position of the last entry is what a lookup of its offset gives.\<close>

lemma index_lookup_last:
  assumes "sorted_wrt (<) (map ie_offset (ix_entries ix))" "ix_entries ix = es @ [x]"
  shows "index_lookup ix (ie_offset x) = Some (ie_position x)"
proof -
  have "binary_search_by_key ie_offset (ie_offset x) (ix_entries ix) = Found (length es)"
    using entry_search.search_Found_iff [OF assms(1)] by (simp add: assms(2))
  then show ?thesis
    by (simp add: index_lookup_def assms(2))
qed

context bytes_crate
begin

text \<open>Reading through an index entry gives the record at its position.\<close>

lemma segment_read_at_position:
  assumes "quiet w" "content w (fpath (sg_log_file s)) = Some (pre @ record_bytes r @ rest)" "length pre < 2 ^ 63"
    "wf_record r" "record_len r \<le> 4096" "lr_offset r = off" "sg_base_offset s \<le> off" "off < sg_next_offset s"
    "index_lookup (sg_index s) off = Some (of_nat (length pre))"
  shows "\<exists>s'. segment_read_at bx off (s, w) = (Ok (Some r), (s', w))"
proof -
  let ?chunk = "take 4096 (record_bytes r @ rest)"
  have "unat (of_nat (length pre) :: u64) = length pre"
    using assms(3) by (intro unat_of_nat_u64) simp
  then have seek: "zoom sg_log_file sg_log_file_update (seek_start (of_nat (length pre))) (s, w) =
      (Ok (), (at_cursor (length pre) s, w))"
    using assms(1,3) by (intro zoom_log) (simp add: seek_start_quiet)
  obtain s' where read: "zoom sg_log_file sg_log_file_update (file_read 4096) (at_cursor (length pre) s, w) = (Ok ?chunk, (s', w))"
    using file_read_quiet [OF assms(1), of "sg_log_file (at_cursor (length pre) s)"] assms(2)
    by (simp add: zoom_def)
  have "?chunk = record_bytes r @ take (4096 - record_len r) rest"
    using assms(5) by simp
  then have "fst (record_decode bx ?chunk) = Ok (Some r)"
    using record_decode_bytes [OF assms(4)] by simp
  then show ?thesis
    using assms(6-9) seek read by (simp add: segment_read_at_def Let_def bindp_Ok not_less not_le)
qed

end

text \<open>C25: A failed synchronisation corrupts the segment. An append whose write succeeds and whose
  synchronisation of the log fails is refused, but its record stays in the log file. The next append
  is acknowledged with the same offset and its index entry points to the refused record:
  reading the acknowledged offset returns the record of the refused append.\<close>

theorem failed_sync_misplaces_record:
  assumes "bytes_crate bx" "segment_ok s w rs" "quiet w" "sg_sync_level s \<noteq> SyncNone"
    "segment_admits (s, w) k v" "length (log_bytes rs) + 28 + opt_len k + opt_len v \<le> unat (sg_max_bytes s)"
    "28 + opt_len k + opt_len v \<le> 4096"
    "segment_admits (s, w) k' v'" "length (log_bytes rs) + 28 + opt_len k' + opt_len v' \<le> unat (sg_max_bytes s)"
  shows "\<exists>s1 w1 s2 w2 s3.
    segment_append bx k v (s, w \<lparr> choices := [Normal, Fault e n] \<rparr>) = (Err (Io e), (s1, w1)) \<and>
    segment_append bx k' v' (s1, w1) = (Ok (sg_next_offset s), (s2, w2)) \<and>
    segment_read_at bx (sg_next_offset s) (s2, w2) =
      (Ok (Some \<lparr> lr_offset = sg_next_offset s, lr_timestamp_ms = clock w, lr_key = k, lr_value = v \<rparr>), (s3, w2))"
proof -
  let ?r = "new_record s w k v" and ?r' = "new_record s w k' v'" and ?log = "fpath (sg_log_file s)"
  let ?x = "\<lparr> ie_offset = sg_next_offset s, ie_position = sg_current_size s \<rparr>"
  let ?c = "log_bytes rs @ record_bytes ?r"
  let ?s1 = "at_cursor (length ?c) s" and ?w1 = "set_content ?log ?c w"
  note inv = assms(2) [unfolded segment_ok_def segment_holds_def]
  have holds: "segment_holds s w rs" "segment_holds ?s1 w rs"
    using assms(2) by (simp_all add: segment_ok_def)
  have wf: "wf_record ?r" "wf_record ?r'" and off: "unat (sg_next_offset s) + 1 < 2 ^ 64"
    using assms(5,8) by (simp_all add: segment_admits_def wf_record_def record_len_new)
  have new: "new_record s (w \<lparr> choices := [Normal, Fault e n] \<rparr>) k v = ?r" "new_record ?s1 ?w1 k' v' = ?r'"
    by (simp_all add: new_record_def fs_simps)
  have room: "\<not> too_large s ?r" "\<not> no_room s rs ?r" "\<not> too_large ?s1 ?r'" "\<not> no_room ?s1 rs ?r'"
    using assms(6,9) by (simp_all add: too_large_def no_room_def record_len_new)
  have refused: "segment_append bx k v (s, w \<lparr> choices := [Normal, Fault e n] \<rparr>) = (Err (Io e), (?s1, ?w1))"
    using bytes_crate.segment_append_unfold [OF assms(1) holds(1), of "w \<lparr> choices := [Normal, Fault e n] \<rparr>" k v] wf(1) room(1,2)
    by (simp add: new(1) Let_def bindp_def store_records_unsynced [OF assms(2-4)])
  have srt: "sorted_wrt (<) (map ie_offset (ix_entries (sg_index s) @ [?x]))"
    using offsets_from_sorted [of "sg_base_offset s" "rs @ [?r]"] inv off by (auto simp: offsets_from_append unat_offset)
  have "index_ok (sg_index s) w" "?log \<noteq> fpath (ix_file (sg_index s))"
    using assms(2) by (simp_all add: segment_ok_def)
  then have w1: "quiet ?w1" "content ?w1 (fpath (sg_log_file ?s1)) = Some ?c" "index_ok (sg_index ?s1) ?w1"
    using assms(3) unfolding index_ok_def by (simp_all add: fs_simps)
  have side: "fpath (sg_log_file ?s1) \<noteq> fpath (ix_file (sg_index ?s1))" "record_bytes ?r' \<noteq> []"
    "sorted_wrt (<) (map ie_offset (ix_entries (sg_index ?s1) @ [?x]))"
    "length ?c = (if append_mode (sg_log_file ?s1) then length ?c else cursor (sg_log_file ?s1))"
    using srt \<open>?log \<noteq> fpath (ix_file (sg_index s))\<close> by simp_all
  define s2 where "s2 = (at_cursor (length ?c + length (record_bytes ?r')) ?s1) \<lparr> sg_index := grown_index (sg_index ?s1) [?x] \<rparr>"
  obtain w2 where store: "store_records (record_bytes ?r') (entry_pairs [?x]) (?s1, ?w1) = (Ok (), (s2, w2))"
    "content w2 (fpath (sg_log_file ?s1)) = Some (overwrite (length ?c) (record_bytes ?r') ?c)" "quiet w2"
    using store_records_at [OF w1 side s2_def] only_touches_quiet by blast
  have s2: "sg_next_offset s2 = sg_next_offset s" "sg_base_offset s2 = sg_base_offset s" "fpath (sg_log_file s2) = ?log"
    "ix_entries (sg_index s2) = ix_entries (sg_index s) @ [?x]"
    by (simp_all add: s2_def)
  let ?s2 = "s2 \<lparr> sg_current_size := sg_current_size s2 + of_nat (record_len ?r'), sg_next_offset := sg_next_offset s2 + 1 \<rparr>"
  have acked: "segment_append bx k' v' (?s1, ?w1) = (Ok (sg_next_offset s), (?s2, w2))"
    using bytes_crate.segment_append_unfold [OF assms(1) holds(2) wf(2) [folded new(2)], unfolded new(2)] room(3,4) store(1)
    by (simp add: Let_def bindp_def s2(1))
  have "\<exists>s3. segment_read_at bx (sg_next_offset s) (?s2, w2) = (Ok (Some ?r), (s3, w2))"
  proof (rule bytes_crate.segment_read_at_position [OF assms(1) store(3)])
    show "content w2 (fpath (sg_log_file ?s2)) = Some (log_bytes rs @ record_bytes ?r @ record_bytes ?r')"
      using store(2) [unfolded overwrite_end] s2(3) by simp
    show "index_lookup (sg_index ?s2) (sg_next_offset s) = Some (of_nat (length (log_bytes rs)))"
      using index_lookup_last [of "sg_index s2" "ix_entries (sg_index s)" ?x] srt inv s2(4) by simp
    show "sg_base_offset ?s2 \<le> sg_next_offset s" "sg_next_offset s < sg_next_offset ?s2"
      using holds_next [OF holds(1)] off unat_offset [of "sg_next_offset s" 1]
      by (simp_all add: s2 word_le_nat_alt word_less_nat_alt)
  qed (use inv wf(1) assms(7) in \<open>simp_all add: record_len_new\<close>)
  with refused acked show ?thesis
    unfolding new_record_def [of s w k v] by blast
qed

theorem failed_sync_misplaces_record_witness:
  "\<exists>s1 w1 s2 w2 s3.
    segment_append be_ops None (Some [1]) (loaded_segment [''d''] 0 1000 SyncLog [],
        (stored_world [''d''] 0 []) \<lparr> choices := [Normal, Fault (Io_Error StorageFull ''No space left on device'') 0] \<rparr>) =
      (Err (Io (Io_Error StorageFull ''No space left on device'')), (s1, w1)) \<and>
    segment_append be_ops None (Some [2]) (s1, w1) = (Ok 0, (s2, w2)) \<and>
    segment_read_at be_ops 0 (s2, w2) =
      (Ok (Some \<lparr> lr_offset = 0, lr_timestamp_ms = 5, lr_key = None, lr_value = Some [1] \<rparr>), (s3, w2))"
proof -
  let ?s = "loaded_segment [''d''] 0 1000 SyncLog []" and ?w = "stored_world [''d''] 0 []"
  have ok: "segment_ok ?s ?w []"
    by (rule stored_segment_ok) (simp add: recoverable_def)
  have adm: "segment_admits (?s, ?w) None (Some [n])" for n
    by (simp add: segment_admits_def opt_len_def)
  show ?thesis
    using failed_sync_misplaces_record [OF be.bytes_crate_axioms ok _ _ adm _ _ adm,
        of 1 2 "Io_Error StorageFull ''No space left on device''" 0]
    by (simp add: opt_len_def)
qed

end
