(* ===== verification/Ruka_Partition.thy ===== *)
theory Ruka_Partition
  imports Ruka_Recovery
begin

text \<open>
  Partitions: \<open>storage/partition.rs\<close>. A partition is a directory with a sequence of segments,
  the last of which takes the appends.
\<close>

record partition =
  pt_topic :: string
  pt_id :: u32
  pt_base_dir :: path
  pt_segments :: "segment list"
  pt_max_segment_bytes :: u64
  pt_sync_level :: sync_level

text \<open>A call that works on paths only, and a method call on the segment with a given position.\<close>

definition on_paths :: "'a path_prog \<Rightarrow> ('s \<times> world, ruka_error, 'a) prog" where
  "on_paths m sw = (case m ((), snd sw) of (r, (u, w)) \<Rightarrow> (r, (fst sw, w)))"

definition on_segment ::
    "nat \<Rightarrow> (segment \<times> world, ruka_error, 'a) prog \<Rightarrow> (partition \<times> world, ruka_error, 'a) prog" where
  "on_segment i = zoom (\<lambda>p. pt_segments p ! i)
     (\<lambda>f p. p \<lparr> pt_segments := (pt_segments p)[i := f (pt_segments p ! i)] \<rparr>)"

text \<open>
  The scan of \<open>open_or_create\<close>: every file whose extension is \<open>log\<close> and whose stem is a number is
  loaded as a segment. Loading changes files that do not have this extension or already exist, so
  the names can be listed first.
\<close>

fun load_segments ::
    "bytes_ops \<Rightarrow> path \<Rightarrow> u64 \<Rightarrow> sync_level \<Rightarrow> string list \<Rightarrow> segment list \<Rightarrow> segment list path_prog" where
  "load_segments bx dir max_bytes sync [] segments = returnp segments"
| "load_segments bx dir max_bytes sync (name # names) segments =
     (case split_ext name of
        (stem, Some ext) \<Rightarrow>
          if ext = ''log'' then
            (case parse_u64 stem of
               Some base_offset \<Rightarrow>
                 bindp (segment_load bx dir base_offset max_bytes sync) (\<lambda>seg.
                 load_segments bx dir max_bytes sync names (segments @ [seg]))
             | None \<Rightarrow> load_segments bx dir max_bytes sync names segments)
          else load_segments bx dir max_bytes sync names segments
      | (stem, None) \<Rightarrow> load_segments bx dir max_bytes sync names segments)"

definition partition_open_or_create ::
    "bytes_ops \<Rightarrow> string \<Rightarrow> u32 \<Rightarrow> path \<Rightarrow> u64 \<Rightarrow> sync_level \<Rightarrow> partition path_prog" where
  "partition_open_or_create bx topic pid base_dir max_segment_bytes sync =
     (let partition_dir = path_join (path_join base_dir topic) (show_nat (unat pid)) in
      bindp (create_dir_all partition_dir) (\<lambda>_.
      bindp (read_dir partition_dir) (\<lambda>names.
      bindp (load_segments bx partition_dir max_segment_bytes sync names []) (\<lambda>loaded.
      let sorted = sort_key sg_base_offset loaded in
      bindp (if sorted = []
             then bindp (segment_create partition_dir 0 max_segment_bytes sync) (\<lambda>seg. returnp [seg])
             else returnp sorted) (\<lambda>segments.
      returnp \<lparr> pt_topic = topic, pt_id = pid, pt_base_dir = partition_dir, pt_segments = segments,
        pt_max_segment_bytes = max_segment_bytes, pt_sync_level = sync \<rparr>)))))"

text \<open>Rotation: the active segment is flushed and a new one starts at its next offset.\<close>

definition partition_rotate :: "nat \<Rightarrow> (partition \<times> world, ruka_error, unit) prog" where
  "partition_rotate active_idx sw =
     (let next_offset = sg_next_offset (pt_segments (fst sw) ! active_idx) in
      bindp (on_segment active_idx segment_flush) (\<lambda>_ sw.
      bindp (on_paths (segment_create (pt_base_dir (fst sw)) next_offset
               (pt_max_segment_bytes (fst sw)) (pt_sync_level (fst sw)))) (\<lambda>new_segment.
      modifyp (\<lambda>(p, w). (p \<lparr> pt_segments := pt_segments p @ [new_segment] \<rparr>, w))) sw) sw)"

definition partition_append ::
    "bytes_ops \<Rightarrow> bytes option \<Rightarrow> bytes option \<Rightarrow> (partition \<times> world, ruka_error, u64) prog" where
  "partition_append bx key val sw =
     (if pt_segments (fst sw) = [] then (Panic, sw)
      else let active_idx = length (pt_segments (fst sw)) - 1 in
        case on_segment active_idx (segment_append bx key val) sw of
          (Ok offset, sw) \<Rightarrow> (Ok offset, sw)
        | (Err (SegmentFull current limit), sw) \<Rightarrow>
            bindp (partition_rotate active_idx) (\<lambda>_ sw.
              on_segment (length (pt_segments (fst sw)) - 1) (segment_append bx key val) sw) sw
        | (Err e, sw) \<Rightarrow> (Err e, sw)
        | (Panic, sw) \<Rightarrow> (Panic, sw))"

section \<open>Errors of storage calls\<close>

text \<open>
  Calls that write records fail with an input/output error only, so that \<open>SegmentFull\<close> always
  comes from the size test. This is what the termination of \<open>append_batch\<close> rests on.
\<close>

definition io_only :: "('s, ruka_error, 'a) prog \<Rightarrow> bool" where
  "io_only m \<longleftrightarrow> (\<forall>s e t. m s = (Err e, t) \<longrightarrow> (\<exists>x. e = Io x))"

named_theorems io_intros \<open>programs that fail with input/output errors only\<close>

lemma io_only_returnp [io_intros]: "io_only (returnp a)"
  by (simp add: io_only_def)

lemma io_only_modifyp [io_intros]: "io_only (modifyp f)"
  by (simp add: io_only_def)

lemma io_only_bindp [io_intros]: "io_only m \<Longrightarrow> (\<And>a. io_only (f a)) \<Longrightarrow> io_only (bindp m f)"
  unfolding io_only_def bindp_def by (force split: prod.splits outcome.splits)

lemma io_only_zoom [io_intros]: "io_only m \<Longrightarrow> io_only (zoom get upd m)"
  unfolding io_only_def zoom_def by (auto split: prod.splits) blast

lemma io_only_write_all [io_intros]: "io_only (write_all data)"
  unfolding io_only_def write_all_def by (auto split: if_splits list.splits choice.splits)

lemma io_only_sync_data [io_intros]: "io_only sync_data"
  unfolding io_only_def sync_data_def sys_def by (auto simp: Let_def split: list.splits choice.splits)

lemma io_only_sync_log [io_intros]: "io_only sync_log"
  using io_only_zoom [OF io_only_sync_data, of sg_log_file sg_log_file_update]
  unfolding io_only_def sync_log_def by (auto split: if_splits) blast+

lemma io_only_sync_index [io_intros]: "io_only sync_index"
  using io_only_zoom [OF io_only_zoom [OF io_only_sync_data], of sg_index sg_index_update ix_file ix_file_update]
  unfolding io_only_def sync_index_def index_sync_def by (auto split: if_splits) blast

lemma io_only_index_append [io_intros]: "io_only (index_append off pos)"
  unfolding index_append_def Let_def by (intro io_intros)

lemma io_only_append_entries [io_intros]: "io_only (append_entries es)"
  by (induction es rule: append_entries.induct) (auto simp del: returnp_simp intro: io_intros)

lemma batch_loop_count:
  "batch_loop bx mx cur ts ps buf pos off es n = Ok (buf', off', es', n') \<Longrightarrow> ps \<noteq> [] \<or> 0 < n \<Longrightarrow> 0 < n'"
proof (induction bx mx cur ts ps buf pos off es n rule: batch_loop.induct)
  case (2 bx mx cur ts p ps buf pos off es n)
  then show ?case by (auto simp: Let_def split: if_splits)
qed simp

lemma batch_loop_not_full:
  "0 < n \<Longrightarrow> batch_loop bx mx cur ts ps buf pos off es n \<noteq> Err (SegmentFull a b)"
proof (induction bx mx cur ts ps buf pos off es n rule: batch_loop.induct)
  case (2 bx mx cur ts p ps buf pos off es n)
  then show ?case by (auto simp: Let_def)
qed simp

lemma batch_loop_full:
  assumes "batch_loop bx mx cur ts ps buf pos off es n = Err (SegmentFull a b)"
  shows "pos \<noteq> 0"
proof (cases ps)
  case (Cons p ps')
  then show ?thesis
    using assms batch_loop_not_full [of "Suc n"] by (auto simp: Let_def split: if_splits)
qed (use assms in simp)

lemma segment_append_batch_count:
  assumes "segment_append_batch bx ps (s, w) = (Ok (off, n), sw')" "ps \<noteq> []"
  shows "0 < n"
proof (cases "batch_loop bx (sg_max_bytes s) (sg_current_size s) (clock w) ps []
    (sg_current_size s) (sg_next_offset s) [] 0")
  case (Ok r)
  obtain data cur es cnt where r: "r = (data, cur, es, cnt)"
    by (cases r)
  have "0 < cnt"
    using batch_loop_count Ok r assms(2) by blast
  then show ?thesis
    using assms Ok r
    by (auto simp: segment_append_batch_def bindp_def split: if_splits prod.splits outcome.splits)
qed (use assms in \<open>simp_all add: segment_append_batch_def\<close>)

lemma segment_append_batch_full:
  assumes "segment_append_batch bx ps (s, w) = (Err (SegmentFull a b), sw')"
  shows "sg_current_size s \<noteq> 0"
proof (cases "batch_loop bx (sg_max_bytes s) (sg_current_size s) (clock w) ps []
    (sg_current_size s) (sg_next_offset s) [] 0")
  case (Ok r)
  obtain data cur es cnt where r: "r = (data, cur, es, cnt)"
    by (cases r)
  let ?m = "bindp (zoom sg_log_file sg_log_file_update (write_all data)) (\<lambda>_.
    bindp sync_log (\<lambda>_.
    bindp (zoom sg_index sg_index_update (append_entries es)) (\<lambda>_.
    bindp sync_index (\<lambda>_.
    bindp (modifyp (\<lambda>(s, w).
      (s \<lparr> sg_current_size := sg_current_size s + of_nat (length data), sg_next_offset := cur \<rparr>, w))) (\<lambda>_.
    returnp (sg_next_offset s, cnt))))))"
  have "io_only ?m"
    by (intro io_intros)
  moreover have "?m (s, w) = (Err (SegmentFull a b), sw')"
    using assms Ok r by (auto simp: segment_append_batch_def split: if_splits)
  ultimately show ?thesis
    unfolding io_only_def by blast
next
  case (Err e)
  then show ?thesis
    using assms batch_loop_full by (auto simp: segment_append_batch_def split: if_splits)
next
  case Panic
  then show ?thesis
    using assms by (auto simp: segment_append_batch_def split: if_splits)
qed

lemma segment_create_empty:
  assumes "segment_create dir base mx lev sw = (Ok s, sw')"
  shows "sg_current_size s = 0"
  using assms
  by (auto simp: segment_create_def bindp_def split: prod.splits outcome.splits)

lemma partition_rotate_empty:
  assumes "partition_rotate i sw = (Ok u, sw')"
  shows "pt_segments (fst sw') \<noteq> []" "sg_current_size (last (pt_segments (fst sw'))) = 0"
  using assms
  by (auto simp: partition_rotate_def bindp_def on_paths_def Let_def
      split: prod.splits outcome.splits dest: segment_create_empty)

lemma on_segment_result:
  assumes "i < length (pt_segments p)" "on_segment i m (p, w) = (r, (p', w'))"
  shows "\<exists>s'. m (pt_segments p ! i, w) = (r, (s', w')) \<and> p' = p \<lparr> pt_segments := (pt_segments p)[i := s'] \<rparr>"
  using assms by (auto simp: on_segment_def zoom_def split: prod.splits)

lemma append_batch_count:
  assumes "pt_segments (fst sw) \<noteq> []" "ps \<noteq> []"
    "on_segment (length (pt_segments (fst sw)) - 1) (segment_append_batch bx ps) sw = (Ok (off, n), sw1)"
  shows "0 < n"
proof -
  obtain p w where sw: "sw = (p, w)" by (cases sw)
  obtain p1 w1 where sw1: "sw1 = (p1, w1)" by (cases sw1)
  show ?thesis
    using on_segment_result [of "length (pt_segments p) - 1" p] assms segment_append_batch_count
    unfolding sw sw1 by fastforce
qed

lemma append_batch_full:
  assumes "pt_segments (fst sw) \<noteq> []"
    "on_segment (length (pt_segments (fst sw)) - 1) (segment_append_batch bx ps) sw =
      (Err (SegmentFull a b), sw1)"
  shows "sg_current_size (last (pt_segments (fst sw))) \<noteq> 0"
proof -
  obtain p w where sw: "sw = (p, w)" by (cases sw)
  obtain p1 w1 where sw1: "sw1 = (p1, w1)" by (cases sw1)
  show ?thesis
    using on_segment_result [of "length (pt_segments p) - 1" p] assms segment_append_batch_full
    unfolding sw sw1 by (fastforce simp: last_conv_nth)
qed

section \<open>Appending a batch\<close>

text \<open>
  The loop of \<open>append_batch\<close>. A segment takes at least one payload or is not empty and reports
  that it is full, and the segment after a rotation is empty.
\<close>

definition batch_measure :: "bytes list \<Rightarrow> partition \<Rightarrow> nat" where
  "batch_measure payloads p =
     2 * length payloads + (if pt_segments p \<noteq> [] \<and> sg_current_size (last (pt_segments p)) = 0 then 0 else 1)"

function append_batch_loop ::
    "bytes_ops \<Rightarrow> bytes list \<Rightarrow> u64 option \<Rightarrow> (partition \<times> world, ruka_error, u64 option) prog" where
  "append_batch_loop bx payloads base_offset sw =
     (if payloads = [] then (Ok base_offset, sw)
      else if pt_segments (fst sw) = [] then (Panic, sw)
      else let active_idx = length (pt_segments (fst sw)) - 1 in
        case on_segment active_idx (segment_append_batch bx payloads) sw of
          (Ok (offset, count), sw1) \<Rightarrow>
            (let base_offset = (case base_offset of None \<Rightarrow> Some offset | Some b \<Rightarrow> Some b) in
             if length payloads < count then (Panic, sw1)
             else if drop count payloads \<noteq> [] then
               (case partition_rotate active_idx sw1 of
                  (Ok u, sw2) \<Rightarrow> append_batch_loop bx (drop count payloads) base_offset sw2
                | (Err e, sw2) \<Rightarrow> (Err e, sw2)
                | (Panic, sw2) \<Rightarrow> (Panic, sw2))
             else append_batch_loop bx (drop count payloads) base_offset sw1)
        | (Err (SegmentFull current limit), sw1) \<Rightarrow>
            (case partition_rotate active_idx sw1 of
               (Ok u, sw2) \<Rightarrow> append_batch_loop bx payloads base_offset sw2
             | (Err e, sw2) \<Rightarrow> (Err e, sw2)
             | (Panic, sw2) \<Rightarrow> (Panic, sw2))
        | (Err e, sw1) \<Rightarrow> (Err e, sw1)
        | (Panic, sw1) \<Rightarrow> (Panic, sw1))"
  by pat_completeness auto

termination
proof (relation "measure (\<lambda>(bx, payloads, base, sw). batch_measure payloads (fst sw))", goal_cases)
  case 1
  show ?case by simp
next
  case (2 bx payloads base sw x r sw1 y off n b z sw2 u)
  then have "0 < n"
    by (intro append_batch_count [of sw payloads bx off n sw1]) (simp_all add: eq_commute)
  then show ?case
    using 2 partition_rotate_empty [of "length (pt_segments (fst sw)) - 1" sw1 u sw2]
    by (simp add: batch_measure_def)
next
  case (3 bx payloads base sw x r sw1 y off n b)
  have "drop n payloads = []"
    using 3 by simp
  moreover have "1 < 2 * length payloads"
    using 3(1) by (cases payloads) simp_all
  ultimately show ?case
    using 3(1) by (simp add: batch_measure_def)
next
  case (4 bx payloads base sw x r sw1 e cur lim z sw2 u)
  then have "sg_current_size (last (pt_segments (fst sw))) \<noteq> 0"
    by (intro append_batch_full [of sw bx payloads cur lim sw1]) (simp_all add: eq_commute)
  then show ?case
    using 4 partition_rotate_empty [of "length (pt_segments (fst sw)) - 1" sw1 u sw2]
    by (simp add: batch_measure_def)
qed

declare append_batch_loop.simps [simp del]

definition partition_next_offset :: "partition \<Rightarrow> u64" where
  "partition_next_offset p =
     (if pt_segments p = [] then 0 else sg_next_offset (last (pt_segments p)))"

definition partition_append_batch :: "bytes_ops \<Rightarrow> bytes list \<Rightarrow> (partition \<times> world, ruka_error, u64) prog" where
  "partition_append_batch bx payloads =
     bindp (append_batch_loop bx payloads None) (\<lambda>base_offset sw.
     (Ok (case base_offset of Some b \<Rightarrow> b | None \<Rightarrow> partition_next_offset (fst sw)), sw))"

section \<open>Reading\<close>

text \<open>The segment that should contain an offset; none if the offset lies before the oldest one.\<close>

definition find_segment :: "segment list \<Rightarrow> u64 \<Rightarrow> nat option" where
  "find_segment segments offset =
     (case binary_search_by_key sg_base_offset offset segments of
        Found idx \<Rightarrow> Some idx
      | Missing 0 \<Rightarrow> None
      | Missing (Suc idx) \<Rightarrow> Some idx)"

definition partition_read :: "bytes_ops \<Rightarrow> u64 \<Rightarrow> (partition \<times> world, ruka_error, log_record option) prog" where
  "partition_read bx offset sw =
     (case find_segment (pt_segments (fst sw)) offset of
        None \<Rightarrow> (Ok None, sw)
      | Some segment_idx \<Rightarrow> on_segment segment_idx (segment_read_at bx offset) sw)"

text \<open>
  The inner loop of \<open>read_batch\<close> over the records of one segment. The flag says that the
  function returns; otherwise the remaining budget, the next offset and the results go on.
\<close>

fun take_records ::
    "log_record list \<Rightarrow> u32 \<Rightarrow> u64 \<Rightarrow> log_record list \<Rightarrow> bool \<times> u32 \<times> u64 \<times> log_record list" where
  "take_records [] budget offset results = (False, budget, offset, results)"
| "take_records (r # rs) budget offset results =
     (let rec_len = 28 + of_nat (opt_len (lr_key r)) + of_nat (opt_len (lr_value r)) in
      if budget \<ge> rec_len then take_records rs (budget - rec_len) (lr_offset r + 1) (results @ [r])
      else if results = [] then (True, budget, offset, [r])
      else (True, budget, offset, results))"

lemma on_segment_length:
  assumes "on_segment i m sw = (r, sw')"
  shows "length (pt_segments (fst sw')) = length (pt_segments (fst sw))"
  using assms by (auto simp: on_segment_def zoom_def split: prod.splits)

definition segment_base :: "segment list \<Rightarrow> nat \<Rightarrow> u64 \<Rightarrow> u64" where
  "segment_base segments idx offset =
     (if idx < length segments then sg_base_offset (segments ! idx) else offset)"

function read_batch_loop ::
    "bytes_ops \<Rightarrow> nat \<Rightarrow> u64 \<Rightarrow> u32 \<Rightarrow> log_record list \<Rightarrow>
     (partition \<times> world, ruka_error, log_record list) prog" where
  "read_batch_loop bx segment_idx offset budget results sw =
     (if segment_idx < length (pt_segments (fst sw)) \<and> budget > 0 then
        (case on_segment segment_idx (segment_read_batch bx offset budget) sw of
           (Ok records, sw') \<Rightarrow>
             if records = [] then
               read_batch_loop bx (segment_idx + 1)
                 (segment_base (pt_segments (fst sw')) (segment_idx + 1) offset) budget results sw'
             else
               (case take_records records budget offset results of
                  (True, budget', offset', results') \<Rightarrow> (Ok results', sw')
                | (False, budget', offset', results') \<Rightarrow>
                    read_batch_loop bx (segment_idx + 1)
                      (segment_base (pt_segments (fst sw')) (segment_idx + 1) offset') budget' results' sw')
         | (Err e, sw') \<Rightarrow> (Err e, sw')
         | (Panic, sw') \<Rightarrow> (Panic, sw'))
      else (Ok results, sw))"
  by pat_completeness auto
termination
  by (relation "measure (\<lambda>(bx, idx, off, budget, rs, sw). length (pt_segments (fst sw)) - idx)")
    (auto dest!: on_segment_length [OF sym])

declare read_batch_loop.simps [simp del]

definition partition_read_batch ::
    "bytes_ops \<Rightarrow> u64 \<Rightarrow> u32 \<Rightarrow> (partition \<times> world, ruka_error, log_record list) prog" where
  "partition_read_batch bx offset max_bytes sw =
     (case find_segment (pt_segments (fst sw)) offset of
        None \<Rightarrow> (Ok [], sw)
      | Some segment_idx \<Rightarrow> read_batch_loop bx segment_idx offset max_bytes [] sw)"

section \<open>Flushing\<close>

definition partition_flush :: "(partition \<times> world, ruka_error, unit) prog" where
  "partition_flush sw =
     (if pt_segments (fst sw) = [] then (Ok (), sw)
      else on_segment (length (pt_segments (fst sw)) - 1) segment_flush sw)"

definition partition_sync :: "(partition \<times> world, ruka_error, unit) prog" where
  "partition_sync sw =
     (if pt_segments (fst sw) = [] then (Ok (), sw)
      else on_segment (length (pt_segments (fst sw)) - 1) segment_sync sw)"

end
