(* ===== verification/Ruka_Partition_Inv.thy ===== *)
theory Ruka_Partition_Inv
  imports Ruka_Partition
begin

text \<open>
  What the methods of \<open>storage/partition.rs\<close> do to the records of a partition: creation of a
  segment, the chain of segments, reads, appends and rotation.
\<close>

section \<open>Creating a segment\<close>

definition has_dir :: "world \<Rightarrow> path \<Rightarrow> bool" where
  "has_dir w dir \<longleftrightarrow> (\<forall>k \<le> length dir. is_dir w (take k dir))"

definition files_of :: "path \<Rightarrow> u64 \<Rightarrow> path set" where
  "files_of dir b = {log_path dir b, index_path dir b}"

text \<open>The files that the segments of a partition may have.\<close>

definition dir_files :: "path \<Rightarrow> path set" where
  "dir_files dir = (\<Union>b. files_of dir b)"

lemma files_of_dir: "files_of dir b \<subseteq> dir_files dir"
  by (auto simp: dir_files_def)

lemma log_path_inj [simp]: "log_path dir b = log_path dir c \<longleftrightarrow> b = c"
  and index_path_inj [simp]: "index_path dir b = index_path dir c \<longleftrightarrow> b = c"
  by (simp_all add: log_path_def index_path_def show_020_inj)

lemma log_index_neq [simp]: "log_path dir b \<noteq> index_path dir c" "index_path dir c \<noteq> log_path dir b"
  using log_index_path by metis+

lemma files_of_disjoint: "b \<noteq> c \<Longrightarrow> files_of dir b \<inter> files_of dir c = {}"
  by (auto simp: files_of_def)

lemma prefix_not_file: "take k dir \<notin> files_of dir b"
proof -
  have "length p = Suc (length dir)" if "p \<in> files_of dir b" for p
    using that by (auto simp: files_of_def log_path_def index_path_def)
  from this [of "take k dir"] show ?thesis by auto
qed

lemma has_dir_other:
  assumes "has_dir w dir" "only_touches (files_of dir b) w w'"
  shows "has_dir w' dir"
  using assms prefix_not_file by (auto simp: has_dir_def is_dir_def only_touches_def)

lemma make_dirs_existing:
  assumes "\<And>k. k \<le> length cs \<Longrightarrow> is_dir w (q @ take k cs)"
  shows "make_dirs q cs w = (Ok (), w)"
  using assms
proof (induction q cs w rule: make_dirs.induct)
  case (2 q c cs w)
  have "is_dir w (q @ [c])"
    using 2(3) [of 1] by simp
  then have here: "map_of (nodes w) (q @ [c]) = Some DirNode"
    by (simp add: is_dir_def)
  have "is_dir w ((q @ [c]) @ take k cs)" if "k \<le> length cs" for k
    using 2(3) [of "Suc k"] that by simp
  then show ?case
    using 2(2) here by simp
qed simp

lemma create_dir_existing: "quiet w \<Longrightarrow> has_dir w dir \<Longrightarrow> create_dir_all dir ((), w) = (Ok (), ((), w))"
  using make_dirs_existing [of dir w "[]"] by (simp add: create_dir_all_def sys_quiet has_dir_def)

definition created_segment :: "path \<Rightarrow> u64 \<Rightarrow> u64 \<Rightarrow> sync_level \<Rightarrow> segment" where
  "created_segment dir base mx lev =
     \<lparr> sg_base_offset = base, sg_log_file = \<lparr> fpath = log_path dir base, cursor = 0, append_mode = True \<rparr>,
       sg_index = loaded_index (index_path dir base) [], sg_current_size = 0, sg_next_offset = base,
       sg_max_bytes = mx, sg_sync_level = lev \<rparr>"

lemma created_segment_simps [simp]:
  "sg_base_offset (created_segment dir base mx lev) = base"
  "sg_next_offset (created_segment dir base mx lev) = base"
  "sg_max_bytes (created_segment dir base mx lev) = mx"
  "sg_current_size (created_segment dir base mx lev) = 0"
  "fpath (sg_log_file (created_segment dir base mx lev)) = log_path dir base"
  "fpath (ix_file (sg_index (created_segment dir base mx lev))) = index_path dir base"
  "append_mode (sg_log_file (created_segment dir base mx lev))"
  "sg_sync_level (created_segment dir base mx lev) = lev"
  by (simp_all add: created_segment_def loaded_index_def)

lemma index_create_fresh:
  assumes "quiet w" "map_of (nodes w) p \<noteq> Some DirNode" "p \<noteq> []" "is_dir w (butlast p)"
  shows "\<exists>w'. index_create p ((), w) = (Ok (loaded_index p []), ((), w')) \<and>
    content w' p = Some [] \<and> only_touches {p} w w' \<and> (map_of (nodes w) p = None \<longrightarrow> durable w' p = Some [])"
proof (cases "map_of (nodes w) p")
  case None
  then show ?thesis
    using index_create_new [OF assms(1) None assms(3,4), of "()"] assms(1) by (auto simp: fs_simps)
next
  case (Some n)
  with assms(2) obtain c d where "n = FileNode c d"
    by (cases n) auto
  with Some have "content w p = Some c"
    by (simp add: content_def)
  then show ?thesis
    using index_create_over [OF assms(1), of p c "()"] assms(1) Some by (auto simp: fs_simps)
qed

lemma segment_create_ok:
  assumes "quiet w" "has_dir w dir" "map_of (nodes w) (log_path dir base) = None"
    "map_of (nodes w) (index_path dir base) \<noteq> Some DirNode" "unat mx < 2 ^ 63"
  shows "\<exists>w'. segment_create dir base mx lev ((), w) = (Ok (created_segment dir base mx lev), ((), w')) \<and>
    segment_ok (created_segment dir base mx lev) w' [] \<and> only_touches (files_of dir base) w w' \<and>
    (map_of (nodes w) (index_path dir base) = None \<longrightarrow> (\<forall>q \<in> files_of dir base. durable w' q = content w' q))"
proof -
  let ?l = "log_path dir base" and ?i = "index_path dir base"
  have dir: "is_dir w dir"
    using assms(2) by (auto simp: has_dir_def)
  have last: "?l \<noteq> []" "butlast ?l = dir" "?i \<noteq> []" "butlast ?i = dir"
    by (simp_all add: log_path_def index_path_def)
  define w1 where "w1 = set_node ?l (FileNode [] []) w"
  have open1: "file_open True False True ?l ((), w) =
      (Ok \<lparr> fpath = ?l, cursor = 0, append_mode = True \<rparr>, ((), w1))"
    using file_open_new [OF assms(1,3) last(1), of False True "()"] dir last by (simp add: w1_def)
  have q1: "quiet w1"
    using assms(1) by (simp add: w1_def fs_simps)
  have dir1: "is_dir w1 (butlast ?i)"
    using dir last by (auto simp: w1_def fs_simps log_path_def)
  have free1: "map_of (nodes w1) ?i \<noteq> Some DirNode"
    using assms(4) by (simp add: w1_def fs_simps)
  obtain w2 where ix: "index_create ?i ((), w1) = (Ok (loaded_index ?i []), ((), w2))"
    "content w2 ?i = Some []" "only_touches {?i} w1 w2" "map_of (nodes w1) ?i = None \<longrightarrow> durable w2 ?i = Some []"
    using index_create_fresh [OF q1 free1 last(3) dir1] by (elim exE conjE) (rule that; assumption)
  have "segment_create dir base mx lev ((), w) = (Ok (created_segment dir base mx lev), ((), w2))"
    unfolding segment_create_def
    by (simp add: bindp_Ok create_dir_existing [OF assms(1,2)] open1 ix(1) created_segment_def)
  moreover have log: "content w2 ?l = Some []" "durable w2 ?l = Some []"
    using only_touches_content [OF ix(3)] only_touches_durable [OF ix(3)] by (simp_all add: w1_def fs_simps)
  then have "segment_ok (created_segment dir base mx lev) w2 []"
    using ix(2) assms(5) unsigned_less [of base]
    by (simp add: segment_ok_def segment_holds_def created_segment_def index_ok_empty)
      (simp add: loaded_index_def)
  moreover have "only_touches (files_of dir base) w w2"
    using only_touches_trans [OF only_touches_set(2) [OF assms(1)] ix(3) [unfolded w1_def]]
    by (simp add: files_of_def insert_commute)
  moreover have "map_of (nodes w) ?i = None \<longrightarrow> (\<forall>q \<in> files_of dir base. durable w2 q = content w2 q)"
    using ix(2,4) log by (auto simp: files_of_def w1_def fs_simps)
  ultimately show ?thesis by (intro exI [of _ w2] conjI)
qed

section \<open>The records of a partition\<close>

text \<open>
  A partition holds one list of records per segment. Every segment stands for its list and has
  its files in the directory of the partition, every segment but the last is not empty,
  and each starts at the next offset of the one before.
\<close>

definition partition_holds :: "partition \<Rightarrow> world \<Rightarrow> log_record list list \<Rightarrow> bool" where
  "partition_holds p w rss \<longleftrightarrow>
     pt_segments p \<noteq> [] \<and> length rss = length (pt_segments p) \<and> has_dir w (pt_base_dir p) \<and>
     (\<forall>i < length rss. segment_holds (pt_segments p ! i) w (rss ! i) \<and>
        seg_files (pt_segments p ! i) = files_of (pt_base_dir p) (sg_base_offset (pt_segments p ! i)) \<and>
        fpath (sg_log_file (pt_segments p ! i)) = log_path (pt_base_dir p) (sg_base_offset (pt_segments p ! i))) \<and>
     (\<forall>i. Suc i < length rss \<longrightarrow> rss ! i \<noteq> [] \<and>
        sg_base_offset (pt_segments p ! Suc i) = sg_next_offset (pt_segments p ! i))"

abbreviation base_of :: "partition \<Rightarrow> nat \<Rightarrow> u64" where
  "base_of p i \<equiv> sg_base_offset (pt_segments p ! i)"

lemma holds_chain:
  assumes "partition_holds p w rss" "k < length rss"
  shows "unat (base_of p k) = unat (base_of p 0) + length (concat (take k rss)) \<and>
    offsets_from (base_of p 0) (concat (take k rss))"
  using assms(2)
proof (induction k)
  case (Suc k)
  have seg: "segment_holds (pt_segments p ! k) w (rss ! k)"
    and link: "base_of p (Suc k) = sg_next_offset (pt_segments p ! k)"
    using assms(1) Suc.prems by (simp_all add: partition_holds_def)
  have IH: "unat (base_of p k) = unat (base_of p 0) + length (concat (take k rss))"
    "offsets_from (base_of p 0) (concat (take k rss))"
    using Suc by simp_all
  have take_Suc: "concat (take (Suc k) rss) = concat (take k rss) @ rss ! k"
    using Suc.prems by (simp add: take_Suc_conv_app_nth)
  have "base_of p 0 + of_nat (length (concat (take k rss))) = base_of p k"
    using IH(1) by (rule offset_from_unat)
  then show ?case
    using IH seg holds_next [OF seg] link
    by (simp add: take_Suc offsets_from_append segment_holds_def del: length_concat)
qed simp

lemma holds_offsets:
  assumes "partition_holds p w rss"
  shows "offsets_from (base_of p 0) (concat rss)" "unat (base_of p 0) + length (concat rss) < 2 ^ 64"
proof -
  obtain k where k: "length rss = Suc k"
    using assms by (auto simp: partition_holds_def) (metis length_greater_0_conv Suc_pred)
  have seg: "segment_holds (pt_segments p ! k) w (rss ! k)"
    using assms k by (simp add: partition_holds_def)
  have all: "concat rss = concat (take k rss) @ rss ! k"
    using k by (metis concat_append concat.simps append_Nil2 lessI take_Suc_conv_app_nth take_all_iff order_refl)
  have chain: "unat (base_of p k) = unat (base_of p 0) + length (concat (take k rss))"
    "offsets_from (base_of p 0) (concat (take k rss))"
    using holds_chain [OF assms, of k] k by simp_all
  have "base_of p 0 + of_nat (length (concat (take k rss))) = base_of p k"
    using chain(1) by (rule offset_from_unat)
  then show "offsets_from (base_of p 0) (concat rss)"
    using chain(2) seg by (simp add: all offsets_from_append segment_holds_def)
  show "unat (base_of p 0) + length (concat rss) < 2 ^ 64"
    using chain(1) seg by (simp add: all segment_holds_def)
qed

lemma holds_bases_increase:
  assumes "partition_holds p w rss"
  shows "sorted_wrt (<) (map sg_base_offset (pt_segments p))"
proof -
  have "base_of p i < base_of p (Suc i)" if "Suc i < length (pt_segments p)" for i
  proof -
    have seg: "segment_holds (pt_segments p ! i) w (rss ! i)" "rss ! i \<noteq> []"
      and link: "base_of p (Suc i) = sg_next_offset (pt_segments p ! i)"
      using assms that by (simp_all add: partition_holds_def)
    show ?thesis
      using holds_next [OF seg(1)] seg(2) link by (simp add: word_less_nat_alt)
  qed
  then show ?thesis
    by (simp add: sorted_wrt_iff_nth_Suc_transp)
qed

lemma holds_bases_less:
  assumes "partition_holds p w rss" "i < j" "j < length rss"
  shows "base_of p i < base_of p j"
  using holds_bases_increase [OF assms(1)] assms
  by (auto simp: sorted_wrt_iff_nth_less partition_holds_def)

interpretation segment_search: sorted_search
  "binary_search_by_key :: (segment \<Rightarrow> u64) \<Rightarrow> u64 \<Rightarrow> segment list \<Rightarrow> search_result"
  by unfold_locales (rule binary_search_found binary_search_missing; assumption)+

text \<open>The search finds the segment whose range contains the offset.\<close>

lemma find_segment_range:
  assumes "sorted_wrt (<) (map sg_base_offset segs)"
  shows "case find_segment segs off of
      None \<Rightarrow> \<forall>s \<in> set segs. off < sg_base_offset s
    | Some i \<Rightarrow> i < length segs \<and> sg_base_offset (segs ! i) \<le> off \<and>
        (\<forall>j. i < j \<and> j < length segs \<longrightarrow> off < sg_base_offset (segs ! j))"
proof -
  have srt: "sorted (map sg_base_offset segs)"
    using assms by (rule strict_sorted_imp_sorted)
  show ?thesis
  proof (cases "binary_search_by_key sg_base_offset off segs")
    case (Found i)
    then have "i < length segs" "sg_base_offset (segs ! i) = off"
      using segment_search.found by blast+
    moreover have "sg_base_offset (segs ! i) < sg_base_offset (segs ! j)" if "i < j" "j < length segs" for j
      using assms that by (auto simp: sorted_wrt_iff_nth_less)
    ultimately show ?thesis
      using Found by (auto simp: find_segment_def)
  next
    case (Missing n)
    then show ?thesis
      using segment_search.missing [OF srt Missing]
      by (cases n) (auto simp: find_segment_def in_set_conv_nth less_imp_le Suc_le_eq)
  qed
qed

lemma holds_record_range:
  assumes "segment_holds s w rs" "r \<in> set rs"
  shows "sg_base_offset s \<le> lr_offset r" "lr_offset r < sg_next_offset s"
proof -
  obtain i where i: "i < length rs" "r = rs ! i"
    using assms(2) by (auto simp: in_set_conv_nth)
  have "lr_offset r = sg_base_offset s + of_nat i"
    using assms(1) i offsets_from_nth by (auto simp: segment_holds_def)
  then show "sg_base_offset s \<le> lr_offset r" "lr_offset r < sg_next_offset s"
    using holds_inside [OF assms(1) i(1)] by (simp_all add: not_less not_le)
qed

lemma record_at_concat_skip:
  assumes "\<And>rs r. rs \<in> set rss \<Longrightarrow> r \<in> set rs \<Longrightarrow> lr_offset r \<noteq> off"
  shows "record_at off (concat rss) = None"
  using assms by (auto simp: record_at_None)

lemma holds_record_at:
  assumes "partition_holds p w rss" "i < length rss" "base_of p i \<le> off"
    "\<And>j. i < j \<Longrightarrow> j < length rss \<Longrightarrow> off < base_of p j"
  shows "record_at off (concat rss) = record_at off (rss ! i)"
proof -
  have range: "base_of p j \<le> lr_offset r" "lr_offset r < sg_next_offset (pt_segments p ! j)"
    if "j < length rss" "r \<in> set (rss ! j)" for j r
    using assms(1) that holds_record_range by (auto simp: partition_holds_def)
  have "lr_offset r \<noteq> off" if "rs \<in> set (take i rss)" "r \<in> set rs" for rs r
  proof -
    from that(1) obtain j where "j < length (take i rss)" "take i rss ! j = rs"
      unfolding in_set_conv_nth by blast
    then have j: "j < i" "rs = rss ! j"
      by simp_all
    have "sg_next_offset (pt_segments p ! j) = base_of p (Suc j)"
      using assms(1,2) j(1) by (simp add: partition_holds_def)
    moreover have "base_of p (Suc j) \<le> base_of p i"
      using holds_bases_less [OF assms(1), of "Suc j" i] j(1) assms(2) by (cases "Suc j = i") simp_all
    ultimately show ?thesis
      using range(2) [of j r] j that(2) assms(2,3) by auto
  qed
  then have before: "record_at off (concat (take i rss)) = None"
    by (rule record_at_concat_skip)
  have "lr_offset r \<noteq> off" if "rs \<in> set (drop (Suc i) rss)" "r \<in> set rs" for rs r
  proof -
    from that(1) obtain m where "m < length (drop (Suc i) rss)" "drop (Suc i) rss ! m = rs"
      unfolding in_set_conv_nth by blast
    then have "i < Suc i + m" "Suc i + m < length rss" "rs = rss ! (Suc i + m)"
      by simp_all
    then show ?thesis
      using range(1) [of "Suc i + m" r] assms(4) [of "Suc i + m"] that(2) by auto
  qed
  then have behind: "record_at off (concat (drop (Suc i) rss)) = None"
    by (rule record_at_concat_skip)
  have "concat rss = concat (take i rss) @ rss ! i @ concat (drop (Suc i) rss)"
    using assms(2) by (metis concat.simps(2) concat_append id_take_nth_drop)
  then show ?thesis
    using before behind by (auto simp: record_at_append split: option.splits)
qed

section \<open>Reading a partition\<close>

definition put_segment :: "nat \<Rightarrow> segment \<Rightarrow> partition \<Rightarrow> partition" where
  "put_segment i s p = p \<lparr> pt_segments := (pt_segments p)[i := s] \<rparr>"

lemma put_segment_simps [simp]:
  "pt_segments (put_segment i s p) = (pt_segments p)[i := s]"
  "pt_base_dir (put_segment i s p) = pt_base_dir p"
  "pt_max_segment_bytes (put_segment i s p) = pt_max_segment_bytes p"
  "pt_sync_level (put_segment i s p) = pt_sync_level p"
  by (simp_all add: put_segment_def)

lemma put_segment_same [simp]: "put_segment i (pt_segments p ! i) p = p"
  by (simp add: put_segment_def)

lemma on_segment_eq:
  assumes "i < length (pt_segments p)" "m (pt_segments p ! i, w) = (r, (s', w'))"
  shows "on_segment i m (p, w) = (r, (put_segment i s' p, w'))"
  using assms by (simp add: on_segment_def zoom_def put_segment_def)

text \<open>Moving the cursor of a segment changes nothing.\<close>

lemma partition_holds_cursor:
  assumes "partition_holds p w rss" "i < length rss"
  shows "partition_holds (put_segment i (at_cursor c (pt_segments p ! i)) p) w rss"
  using assms unfolding partition_holds_def by (auto simp: nth_list_update)

context bytes_crate
begin

lemma partition_read_log:
  assumes "partition_holds p w rss" "quiet w"
  shows "\<exists>i c. i < length rss \<and>
    partition_read bx off (p, w) =
      (Ok (record_at off (concat rss)), (put_segment i (at_cursor c (pt_segments p ! i)) p, w))"
proof -
  have len: "length (pt_segments p) = length rss" "0 < length rss"
    using assms(1) by (auto simp: partition_holds_def)
  note range = find_segment_range [OF holds_bases_increase [OF assms(1)], of off]
  show ?thesis
  proof (cases "find_segment (pt_segments p) off")
    case None
    have "lr_offset r \<noteq> off" if "rs \<in> set rss" "r \<in> set rs" for rs r
    proof -
      from that(1) obtain j where j: "j < length rss" "rss ! j = rs"
        unfolding in_set_conv_nth by blast
      then have "base_of p j \<le> lr_offset r"
        using assms(1) that(2) holds_record_range(1) by (auto simp: partition_holds_def)
      moreover have "off < base_of p j"
        using range None j(1) len by simp
      ultimately show ?thesis by auto
    qed
    then have "record_at off (concat rss) = None"
      by (rule record_at_concat_skip)
    moreover have "put_segment 0 (at_cursor (cursor (sg_log_file (pt_segments p ! 0))) (pt_segments p ! 0)) p = p"
      by (simp add: at_cursor_def put_segment_def)
    ultimately show ?thesis
      using None len(2) by (metis fst_conv option.case(1) partition_read_def)
  next
    case (Some i)
    then have i: "i < length rss" "base_of p i \<le> off"
      "\<And>j. i < j \<Longrightarrow> j < length rss \<Longrightarrow> off < base_of p j"
      using range len by auto
    have "segment_holds (pt_segments p ! i) w (rss ! i)"
      using assms(1) i(1) by (simp add: partition_holds_def)
    from segment_read_at_log [OF this assms(2), of off]
    obtain c where "segment_read_at bx off (pt_segments p ! i, w) =
        (Ok (record_at off (rss ! i)), (at_cursor c (pt_segments p ! i), w))" ..
    then have "on_segment i (segment_read_at bx off) (p, w) =
        (Ok (record_at off (rss ! i)), (put_segment i (at_cursor c (pt_segments p ! i)) p, w))"
      using i(1) len by (intro on_segment_eq) simp_all
    then show ?thesis
      using Some i(1) holds_record_at [OF assms(1) i] by (auto simp: partition_read_def)
  qed
qed

end

section \<open>Appending to a partition\<close>

text \<open>
  A partition that takes appends: the last segment is ready for them and is opened for
  appending, and no files are in the way of later segments.
\<close>

definition same_partition :: "partition \<Rightarrow> partition \<Rightarrow> bool" where
  "same_partition p p' \<longleftrightarrow>
     pt_topic p' = pt_topic p \<and> pt_id p' = pt_id p \<and> pt_base_dir p' = pt_base_dir p \<and>
     pt_max_segment_bytes p' = pt_max_segment_bytes p \<and> pt_sync_level p' = pt_sync_level p"

lemma same_partition_put [simp]:
  "same_partition p p" "same_partition p (put_segment i s p)" "same_partition p (p \<lparr> pt_segments := ss \<rparr>)"
  by (simp_all add: same_partition_def put_segment_def)

lemma same_partition_trans: "same_partition p p' \<Longrightarrow> same_partition p' p'' \<Longrightarrow> same_partition p p''"
  by (simp add: same_partition_def)

text \<open>
  What the directory holds: every segment has an index file in step with its log, the
  strictest synchronisation level has both files on disk, and there are no other segment files.
\<close>

definition segment_filed :: "path \<Rightarrow> u64 \<Rightarrow> sync_level \<Rightarrow> world \<Rightarrow> log_record list \<Rightarrow> bool" where
  "segment_filed dir b lev w rs \<longleftrightarrow>
     content w (index_path dir b) = Some (entries_bytes (entries_at 0 rs)) \<and>
     (lev = SyncLogAndIndex \<longrightarrow> (\<forall>q \<in> files_of dir b. durable w q = content w q))"

definition filed :: "partition \<Rightarrow> world \<Rightarrow> log_record list list \<Rightarrow> bool" where
  "filed p w rss \<longleftrightarrow>
     sg_sync_level (last (pt_segments p)) = pt_sync_level p \<and>
     (\<forall>i < length rss. segment_filed (pt_base_dir p) (base_of p i) (pt_sync_level p) w (rss ! i)) \<and>
     (\<forall>q \<in> dir_files (pt_base_dir p). map_of (nodes w) q \<noteq> None \<longrightarrow>
        (\<exists>i < length rss. q \<in> files_of (pt_base_dir p) (base_of p i)))"

lemma segment_filed_other:
  assumes "segment_filed dir b lev w rs" "only_touches ps w w'" "files_of dir b \<inter> ps = {}"
  shows "segment_filed dir b lev w' rs"
proof -
  have "content w' q = content w q" "durable w' q = durable w q" if "q \<in> files_of dir b" for q
    using that assms(3) only_touches_content [OF assms(2)] only_touches_durable [OF assms(2)] by auto
  moreover have "index_path dir b \<in> files_of dir b"
    by (simp add: files_of_def)
  ultimately show ?thesis
    using assms(1) by (simp add: segment_filed_def)
qed

lemma segment_filed_ok:
  assumes "segment_ok s w rs" "on_disk s w" "seg_files s = files_of dir (sg_base_offset s)"
    "fpath (sg_log_file s) = log_path dir (sg_base_offset s)"
  shows "segment_filed dir (sg_base_offset s) (sg_sync_level s) w rs"
proof -
  have "fpath (ix_file (sg_index s)) = index_path dir (sg_base_offset s)"
    using assms(1,3,4) by (auto simp: segment_ok_def seg_files_def files_of_def doubleton_eq_iff)
  then show ?thesis
    using assms(1,2,4) by (auto simp: segment_filed_def segment_ok_def segment_holds_def index_ok_def on_disk_def files_of_def)
qed

definition partition_ok :: "partition \<Rightarrow> world \<Rightarrow> log_record list list \<Rightarrow> bool" where
  "partition_ok p w rss \<longleftrightarrow>
     partition_holds p w rss \<and>
     segment_ok (last (pt_segments p)) w (last rss) \<and> append_mode (sg_log_file (last (pt_segments p))) \<and>
     sg_max_bytes (last (pt_segments p)) = pt_max_segment_bytes p \<and> unat (pt_max_segment_bytes p) < 2 ^ 63 \<and>
     filed p w rss"

lemma partition_base_last:
  assumes "partition_holds p w rss" "i < length rss"
  shows "base_of p i \<le> sg_base_offset (last (pt_segments p))"
proof -
  have "last (pt_segments p) = pt_segments p ! (length rss - 1)"
    using assms(1) by (simp add: partition_holds_def last_conv_nth)
  then show ?thesis
    using holds_bases_less [OF assms(1), of i "length rss - 1"] assms(2) by (cases "i = length rss - 1") (simp_all add: less_imp_le)
qed

text \<open>There are no files of later segments.\<close>

lemma partition_ok_free:
  assumes "partition_ok p w rss" "sg_base_offset (last (pt_segments p)) < b" "q \<in> files_of (pt_base_dir p) b"
  shows "map_of (nodes w) q = None"
proof (rule ccontr)
  assume "map_of (nodes w) q \<noteq> None"
  moreover have "q \<in> dir_files (pt_base_dir p)"
    using assms(3) files_of_dir by blast
  ultimately obtain i where i: "i < length rss" "q \<in> files_of (pt_base_dir p) (base_of p i)"
    using assms(1) by (auto simp: partition_ok_def filed_def)
  then have "b = base_of p i"
    using assms(3) files_of_disjoint by blast
  then show False
    using partition_base_last [of p w rss i] i(1) assms(1,2) by (simp add: partition_ok_def leD)
qed

lemma segment_holds_other:
  assumes "segment_holds s w rs" "only_touches ps w w'" "fpath (sg_log_file s) \<notin> ps"
  shows "segment_holds s w' rs"
  using assms only_touches_content [OF assms(2,3)] by (simp add: segment_holds_def)

lemma snoc_nth_last: "xs \<noteq> [] \<Longrightarrow> xs = butlast xs @ [last xs]" "length xs = Suc n \<Longrightarrow> last xs = xs ! n"
  by (simp, cases xs rule: rev_cases) auto

text \<open>Replacing the active segment by one that holds more records.\<close>

lemma filed_grow:
  assumes "partition_ok p w rss" "segment_ok s' w' (last rss @ ns)" "same_segment (last (pt_segments p)) s'" "on_disk s' w'"
    "only_touches (files_of (pt_base_dir p) (sg_base_offset (last (pt_segments p)))) w w'" "length rss = Suc k"
  shows "filed (put_segment k s' p) w' (rss[k := last rss @ ns])"
proof -
  let ?dir = "pt_base_dir p" and ?s = "last (pt_segments p)" and ?p = "put_segment k s' p"
  have holds: "partition_holds p w rss" and filed: "filed p w rss"
    using assms(1) by (simp_all add: partition_ok_def)
  have k: "length (pt_segments p) = Suc k" "?s = pt_segments p ! k"
    using holds assms(6) snoc_nth_last(2) [of "pt_segments p" k] by (simp_all add: partition_holds_def)
  have same: "sg_base_offset s' = base_of p k" "sg_sync_level s' = sg_sync_level ?s" "seg_files s' = seg_files ?s"
    "fpath (sg_log_file s') = fpath (sg_log_file ?s)"
    using assms(3) k(2) by (simp_all add: same_segment_def)
  have bases: "sg_base_offset ((pt_segments p)[k := s'] ! i) = base_of p i" for i
    using k(1) same(1) by (cases "i = k") simp_all
  have last: "last ((pt_segments p)[k := s']) = s'"
    using k(1) snoc_nth_last(2) [of "(pt_segments p)[k := s']" k] by simp
  have "segment_filed ?dir (base_of p k) (pt_sync_level p) w' (last rss @ ns)"
    using segment_filed_ok [OF assms(2,4), of ?dir] holds filed k assms(6) same
    by (simp add: partition_holds_def filed_def)
  moreover have "segment_filed ?dir (base_of p i) (pt_sync_level p) w' (rss ! i)" if "i < k" for i
  proof (rule segment_filed_other [OF _ assms(5)])
    show "segment_filed ?dir (base_of p i) (pt_sync_level p) w (rss ! i)"
      using filed that assms(6) by (simp add: filed_def)
    show "files_of ?dir (base_of p i) \<inter> files_of ?dir (sg_base_offset ?s) = {}"
      using holds_bases_less [OF holds that] assms(6) k(2) by (intro files_of_disjoint) auto
  qed
  moreover have "\<exists>i < Suc k. q \<in> files_of ?dir (base_of p i)" if "q \<in> dir_files ?dir" "map_of (nodes w') q \<noteq> None" for q
  proof (cases "q \<in> files_of ?dir (base_of p k)")
    case False
    then have "map_of (nodes w) q \<noteq> None"
      using that(2) assms(5) k(2) by (auto simp: only_touches_def)
    then show ?thesis
      using filed that(1) assms(6) by (auto simp: filed_def)
  qed auto
  ultimately show ?thesis
    using filed assms(6) same(2) by (auto simp: filed_def last bases nth_list_update less_Suc_eq)
qed

lemma partition_ok_grow:
  assumes "partition_ok p w rss" "segment_ok s' w' (last rss @ ns)" "same_segment (last (pt_segments p)) s'"
    "only_touches (seg_files (last (pt_segments p))) w w'" "on_disk s' w'"
  shows "partition_ok (put_segment (length rss - 1) s' p) w' (butlast rss @ [last rss @ ns])"
proof -
  let ?dir = "pt_base_dir p" and ?s = "last (pt_segments p)"
  obtain k where k: "length rss = Suc k" "length (pt_segments p) = Suc k"
    using assms(1) by (auto simp: partition_ok_def partition_holds_def) (metis Suc_pred length_greater_0_conv)
  have lasts: "?s = pt_segments p ! k" "last rss = rss ! k"
    using k snoc_nth_last(2) by metis+
  have holds: "partition_holds p w rss"
    using assms(1) by (simp add: partition_ok_def)
  have files: "seg_files ?s = files_of ?dir (sg_base_offset ?s)"
    using holds k lasts by (simp add: partition_holds_def)
  have rss: "butlast rss @ [last rss @ ns] = rss[k := rss ! k @ ns]"
    using k lasts(2) by (cases rss rule: rev_cases) (simp_all add: list_update_append)
  have touch: "only_touches (files_of ?dir (sg_base_offset ?s)) w w'"
    using assms(4) files by simp
  have same: "sg_base_offset s' = sg_base_offset ?s" "sg_max_bytes s' = sg_max_bytes ?s" "seg_files s' = seg_files ?s"
    "fpath (sg_log_file s') = fpath (sg_log_file ?s)" "append_mode (sg_log_file s') = append_mode (sg_log_file ?s)"
    using assms(3) by (simp_all add: same_segment_def)
  have other: "segment_holds (pt_segments p ! i) w' (rss ! i)" if "i < k" for i
  proof (rule segment_holds_other [OF _ touch])
    show "segment_holds (pt_segments p ! i) w (rss ! i)"
      using holds k that by (simp add: partition_holds_def)
    have "base_of p i < base_of p k"
      using holds_bases_less [OF holds that] k by simp
    moreover have "fpath (sg_log_file (pt_segments p ! i)) = log_path ?dir (base_of p i)"
      using holds k that by (simp add: partition_holds_def)
    ultimately show "fpath (sg_log_file (pt_segments p ! i)) \<notin> files_of ?dir (sg_base_offset ?s)"
      using lasts(1) by (auto simp: files_of_def)
  qed
  have "partition_holds (put_segment k s' p) w' (rss[k := rss ! k @ ns])"
    unfolding partition_holds_def
  proof (intro conjI allI impI)
    show "has_dir w' (pt_base_dir (put_segment k s' p))"
      using has_dir_other [OF _ touch] holds by (simp add: partition_holds_def)
  qed (use holds k lasts same other assms(2) in
      \<open>auto simp: partition_holds_def nth_list_update segment_ok_def less_Suc_eq\<close>)
  moreover have "last (pt_segments (put_segment k s' p)) = s'" "last (rss[k := rss ! k @ ns]) = rss ! k @ ns"
    using k snoc_nth_last(2) [of "(pt_segments p)[k := s']" k] snoc_nth_last(2) [of "rss[k := rss ! k @ ns]" k]
    by simp_all
  moreover have "filed (put_segment k s' p) w' (rss[k := rss ! k @ ns])"
    using filed_grow [OF assms(1,2,3,5) touch k(1)] lasts by simp
  ultimately show ?thesis
    using assms(1,2) same lasts k(1) unfolding partition_ok_def rss by simp
qed

lemma partition_rotate_run:
  assumes "length (pt_segments p) = Suc k"
    "segment_create (pt_base_dir p) (sg_next_offset (last (pt_segments p))) (pt_max_segment_bytes p) (pt_sync_level p) ((), w) =
      (Ok s, ((), w'))"
  shows "partition_rotate k (p, w) = (Ok (), (p \<lparr> pt_segments := pt_segments p @ [s] \<rparr>, w'))"
proof -
  have last: "last (pt_segments p) = pt_segments p ! k"
    using assms(1) by (rule snoc_nth_last(2))
  have "segment_flush (pt_segments p ! k, w) = (Ok (), (pt_segments p ! k, w))"
    by (simp add: segment_flush_def file_flush_def index_flush_def bindp_def zoom_def)
  then have flush: "on_segment k segment_flush (p, w) = (Ok (), (p, w))"
    using on_segment_eq [of k p segment_flush w "Ok ()" "pt_segments p ! k" w] assms(1) by simp
  show ?thesis
    using assms(2) by (simp add: partition_rotate_def Let_def bindp_def flush on_paths_def flip: last)
qed

text \<open>A new last segment leaves the records as they are.\<close>

lemma filed_snoc:
  assumes "partition_ok p w rss" "next = sg_next_offset (last (pt_segments p))" "sg_base_offset (last (pt_segments p)) < next"
    "s = created_segment (pt_base_dir p) next (pt_max_segment_bytes p) (pt_sync_level p)"
    "segment_ok s w' []" "only_touches (files_of (pt_base_dir p) next) w w'"
    "\<forall>q \<in> files_of (pt_base_dir p) next. durable w' q = content w' q"
  shows "filed (p \<lparr> pt_segments := pt_segments p @ [s] \<rparr>) w' (rss @ [[]])"
proof -
  let ?dir = "pt_base_dir p" and ?p = "p \<lparr> pt_segments := pt_segments p @ [s] \<rparr>"
  have holds: "partition_holds p w rss" and filed: "filed p w rss"
    using assms(1) by (simp_all add: partition_ok_def)
  have len: "length (pt_segments p) = length rss" "rss \<noteq> []"
    using holds by (auto simp: partition_holds_def)
  have bases: "base_of ?p i = (if i < length rss then base_of p i else next)" if "i \<le> length rss" for i
    using that len(1) assms(4) by (auto simp: nth_append)
  have "segment_filed ?dir next (pt_sync_level p) w' []"
    using assms(4,5,7) by (simp add: segment_filed_def segment_ok_def segment_holds_def index_ok_def)
  moreover have "segment_filed ?dir (base_of p i) (pt_sync_level p) w' (rss ! i)" if "i < length rss" for i
  proof (rule segment_filed_other [OF _ assms(6)])
    show "segment_filed ?dir (base_of p i) (pt_sync_level p) w (rss ! i)"
      using filed that by (simp add: filed_def)
    show "files_of ?dir (base_of p i) \<inter> files_of ?dir next = {}"
      using partition_base_last [OF holds that] assms(3) by (intro files_of_disjoint) auto
  qed
  moreover have "\<exists>i < Suc (length rss). q \<in> files_of ?dir (base_of ?p i)"
    if q: "q \<in> dir_files ?dir" "map_of (nodes w') q \<noteq> None" for q
  proof (cases "q \<in> files_of ?dir next")
    case False
    then have "map_of (nodes w) q \<noteq> None"
      using q(2) assms(6) by (simp add: only_touches_def)
    then obtain i where "i < length rss" "q \<in> files_of ?dir (base_of p i)"
      using filed q(1) unfolding filed_def by blast
    then show ?thesis
      using bases by (intro exI [of _ i]) auto
  qed (use bases in auto)
  ultimately show ?thesis
    using bases by (auto simp: filed_def nth_append less_Suc_eq assms(4))
qed

lemma partition_ok_snoc:
  assumes "partition_ok p w rss" "last rss \<noteq> []" "next = sg_next_offset (last (pt_segments p))"
    "s = created_segment (pt_base_dir p) next (pt_max_segment_bytes p) (pt_sync_level p)"
    "segment_ok s w' []" "only_touches (files_of (pt_base_dir p) next) w w'" "sg_base_offset (last (pt_segments p)) < next"
    "\<forall>q \<in> files_of (pt_base_dir p) next. durable w' q = content w' q"
  shows "partition_ok (p \<lparr> pt_segments := pt_segments p @ [s] \<rparr>) w' (rss @ [[]])"
proof -
  obtain k where k: "length rss = Suc k" "length (pt_segments p) = Suc k"
    using assms(1) by (auto simp: partition_ok_def partition_holds_def) (metis Suc_pred length_greater_0_conv)
  have lasts: "last (pt_segments p) = pt_segments p ! k" "last rss = rss ! k"
    using k snoc_nth_last(2) by metis+
  have holds: "partition_holds p w rss"
    using assms(1) by (simp add: partition_ok_def)
  have other: "segment_holds (pt_segments p ! i) w' (rss ! i)" if "i < Suc k" for i
  proof (rule segment_holds_other [OF _ assms(6)])
    show "segment_holds (pt_segments p ! i) w (rss ! i)"
      using holds k that by (simp add: partition_holds_def)
    have "base_of p i \<le> base_of p k"
      using partition_base_last [OF holds] k(1) that lasts(1) by simp
    moreover have "fpath (sg_log_file (pt_segments p ! i)) = log_path (pt_base_dir p) (base_of p i)"
      using holds k that by (simp add: partition_holds_def)
    ultimately show "fpath (sg_log_file (pt_segments p ! i)) \<notin> files_of (pt_base_dir p) next"
      using assms(7) lasts(1) by (auto simp: files_of_def)
  qed
  have "has_dir w' (pt_base_dir p)"
    using has_dir_other [OF _ assms(6)] holds by (simp add: partition_holds_def)
  moreover have "seg_files s = files_of (pt_base_dir p) next"
    by (simp add: seg_files_def files_of_def assms(4))
  ultimately have "partition_holds (p \<lparr> pt_segments := pt_segments p @ [s] \<rparr>) w' (rss @ [[]])"
    using holds k lasts other assms(2-5) by (auto simp: partition_holds_def nth_append segment_ok_def less_Suc_eq)
  then show ?thesis
    using assms(1,4,5) filed_snoc [OF assms(1,3,7,4,5,6,8)] unfolding partition_ok_def by simp
qed

text \<open>Rotation adds an empty segment at the next offset.\<close>

lemma partition_rotate_ok:
  assumes "partition_ok p w rss" "quiet w" "last rss \<noteq> []"
  shows "\<exists>s w'. partition_rotate (length (pt_segments p) - 1) (p, w) =
      (Ok (), (p \<lparr> pt_segments := pt_segments p @ [s] \<rparr>, w')) \<and>
    partition_ok (p \<lparr> pt_segments := pt_segments p @ [s] \<rparr>) w' (rss @ [[]]) \<and> quiet w' \<and> clock w' = clock w \<and>
    sg_next_offset s = sg_next_offset (last (pt_segments p)) \<and>
    sg_base_offset s = sg_next_offset (last (pt_segments p)) \<and> sg_max_bytes s = pt_max_segment_bytes p \<and>
    only_touches (dir_files (pt_base_dir p)) w w'"
proof -
  let ?dir = "pt_base_dir p" and ?s = "last (pt_segments p)" and ?mx = "pt_max_segment_bytes p"
  let ?next = "sg_next_offset ?s"
  let ?new = "created_segment ?dir ?next ?mx (pt_sync_level p)"
  have p: "pt_segments p \<noteq> []" "has_dir w ?dir" "unat ?mx < 2 ^ 63" "segment_holds ?s w (last rss)"
    using assms(1) by (simp_all add: partition_ok_def partition_holds_def segment_ok_def)
  then have up: "sg_base_offset ?s < ?next"
    using holds_next [OF p(4)] assms(3) by (simp add: word_less_nat_alt)
  have free: "map_of (nodes w) (log_path ?dir ?next) = None" "map_of (nodes w) (index_path ?dir ?next) = None"
    using partition_ok_free [OF assms(1) up] by (simp_all add: files_of_def)
  obtain w' where new: "segment_create ?dir ?next ?mx (pt_sync_level p) ((), w) = (Ok ?new, ((), w'))"
    "segment_ok ?new w' []" "only_touches (files_of ?dir ?next) w w'" "\<forall>q \<in> files_of ?dir ?next. durable w' q = content w' q"
    using segment_create_ok [OF assms(2) p(2) free(1) _ p(3)] free(2) by auto
  have "length (pt_segments p) = Suc (length (pt_segments p) - 1)"
    using p(1) by simp
  from partition_rotate_run [OF this new(1)] show ?thesis
    using partition_ok_snoc [OF assms(1,3) refl refl new(2,3) up new(4)] new(3) only_touches_mono [OF new(3) files_of_dir]
    by (auto simp: only_touches_def)
qed

definition partition_admits :: "partition \<times> world \<Rightarrow> bytes option \<Rightarrow> bytes option \<Rightarrow> bool" where
  "partition_admits sw k v \<longleftrightarrow>
     28 + opt_len k + opt_len v < 2 ^ 32 \<and> unat (partition_next_offset (fst sw)) + 1 < 2 ^ 64"

lemma partition_next_last:
  "partition_ok p w rss \<Longrightarrow> partition_next_offset p = sg_next_offset (last (pt_segments p))"
  by (simp add: partition_next_offset_def partition_ok_def partition_holds_def)

context bytes_crate
begin

text \<open>An append to the active segment of a partition, when that segment has room.\<close>

lemma active_append:
  assumes "partition_ok p w rss" "quiet w" "partition_admits (p, w) key val"
    "r = \<lparr> lr_offset = partition_next_offset p, lr_timestamp_ms = clock w, lr_key = key, lr_value = val \<rparr>"
    "\<not> unat (pt_max_segment_bytes p) < record_len r" "\<not> no_room (last (pt_segments p)) (last rss) r"
  shows "\<exists>p' w'. on_segment (length (pt_segments p) - 1) (segment_append bx key val) (p, w) =
      (Ok (partition_next_offset p), (p', w')) \<and>
    partition_ok p' w' (butlast rss @ [last rss @ [r]]) \<and> same_partition p p' \<and>
    only_touches (dir_files (pt_base_dir p)) w w'"
proof -
  let ?s = "last (pt_segments p)"
  have holds: "partition_holds p w rss" and ok: "segment_ok ?s w (last rss)"
    and mx: "sg_max_bytes ?s = pt_max_segment_bytes p"
    using assms(1) by (simp_all add: partition_ok_def)
  have len: "length rss = length (pt_segments p)" "pt_segments p \<noteq> []"
    using holds by (simp_all add: partition_holds_def)
  then have last: "?s = pt_segments p ! (length (pt_segments p) - 1)"
    by (simp add: last_conv_nth)
  note nxt = partition_next_last [OF assms(1)]
  have adm: "segment_admits (?s, w) key val"
    using assms(3) nxt by (simp add: segment_admits_def partition_admits_def)
  have r: "r = new_record ?s w key val"
    using assms(4) nxt by (simp add: new_record_def)
  obtain s' w' where app: "segment_append bx key val (?s, w) = (Ok (sg_next_offset ?s), (s', w'))"
    "segment_ok s' w' (last rss @ [r])" "same_segment ?s s'" "only_touches (seg_files ?s) w w'" "on_disk s' w'"
    using segment_append_cases [OF ok assms(2) adm r] assms(5,6) mx by (auto simp: too_large_def)
  have "on_segment (length (pt_segments p) - 1) (segment_append bx key val) (p, w) =
      (Ok (sg_next_offset ?s), (put_segment (length (pt_segments p) - 1) s' p, w'))"
    using app(1) len(2) last by (intro on_segment_eq) simp_all
  moreover have "seg_files ?s \<subseteq> dir_files (pt_base_dir p)"
    using holds len files_of_dir unfolding last by (simp add: partition_holds_def)
  ultimately show ?thesis
    using partition_ok_grow [OF assms(1) app(2-5)] only_touches_mono [OF app(4)] len(1) nxt by auto
qed

text \<open>A record that the last segment has no room for goes to a new segment.\<close>

lemma partition_append_rotates:
  assumes "partition_ok p w rss" "quiet w" "partition_admits (p, w) key val"
    "r = \<lparr> lr_offset = partition_next_offset p, lr_timestamp_ms = clock w, lr_key = key, lr_value = val \<rparr>"
    "\<not> too_large (last (pt_segments p)) r" "no_room (last (pt_segments p)) (last rss) r"
    "on_segment (length (pt_segments p) - 1) (segment_append bx key val) (p, w) = (Err (SegmentFull cur lim), (p, w))"
  shows "\<exists>p' w'. partition_append bx key val (p, w) = (Ok (partition_next_offset p), (p', w')) \<and>
    partition_ok p' w' (rss @ [[r]]) \<and> same_partition p p' \<and> only_touches (dir_files (pt_base_dir p)) w w'"
proof -
  have p: "pt_segments p \<noteq> []" "sg_max_bytes (last (pt_segments p)) = pt_max_segment_bytes p" "last rss \<noteq> []"
    using assms(1,6) by (simp_all add: partition_ok_def partition_holds_def no_room_def)
  from partition_rotate_ok [OF assms(1,2) p(3)] obtain s w1 where rot:
    "partition_rotate (length (pt_segments p) - 1) (p, w) = (Ok (), (p \<lparr> pt_segments := pt_segments p @ [s] \<rparr>, w1))"
    "partition_ok (p \<lparr> pt_segments := pt_segments p @ [s] \<rparr>) w1 (rss @ [[]])" "quiet w1" "clock w1 = clock w"
    "sg_next_offset s = sg_next_offset (last (pt_segments p))" "only_touches (dir_files (pt_base_dir p)) w w1" by blast
  let ?p = "p \<lparr> pt_segments := pt_segments p @ [s] \<rparr>"
  have same: "partition_next_offset ?p = partition_next_offset p"
    using rot(5) partition_next_last [OF assms(1)] by (simp add: partition_next_offset_def)
  have adm: "partition_admits (?p, w1) key val"
    using assms(3) same by (simp add: partition_admits_def)
  obtain p2 w2 where app: "on_segment (length (pt_segments ?p) - 1) (segment_append bx key val) (?p, w1) =
      (Ok (partition_next_offset p), (p2, w2))" "partition_ok p2 w2 (rss @ [[r]])" "same_partition ?p p2"
    "only_touches (dir_files (pt_base_dir p)) w1 w2"
    using active_append [OF rot(2,3) adm, of r] assms(4,5) p(2) same rot(4)
    by (auto simp: too_large_def no_room_def)
  have "partition_append bx key val (p, w) = (Ok (partition_next_offset p), (p2, w2))"
    using assms(7) p(1) rot(1) app(1) by (simp add: partition_append_def bindp_Ok Let_def)
  moreover have "only_touches (dir_files (pt_base_dir p)) w w2" "same_partition p p2"
    using only_touches_again [OF rot(6) app(4)] app(3) by (simp_all add: same_partition_def)
  ultimately show ?thesis
    using app(2) by blast
qed

lemma partition_append_cases:
  assumes "partition_ok p w rss" "quiet w" "partition_admits (p, w) key val"
    "r = \<lparr> lr_offset = partition_next_offset p, lr_timestamp_ms = clock w, lr_key = key, lr_value = val \<rparr>"
  shows "if unat (pt_max_segment_bytes p) < record_len r
    then partition_append bx key val (p, w) = (Err MessageTooLarge, (p, w))
    else \<exists>p' w' rss'. partition_append bx key val (p, w) = (Ok (partition_next_offset p), (p', w')) \<and>
      partition_ok p' w' rss' \<and> concat rss' = concat rss @ [r] \<and> same_partition p p' \<and>
      only_touches (dir_files (pt_base_dir p)) w w' \<and>
      (if no_room (last (pt_segments p)) (last rss) r then rss' = rss @ [[r]]
       else rss' = butlast rss @ [last rss @ [r]])"
proof -
  let ?s = "last (pt_segments p)" and ?i = "length (pt_segments p) - 1"
  have ok: "segment_ok ?s w (last rss)" and mx: "sg_max_bytes ?s = pt_max_segment_bytes p"
    and ne: "pt_segments p \<noteq> []" "rss \<noteq> []"
    using assms(1) by (auto simp: partition_ok_def partition_holds_def)
  note nxt = partition_next_last [OF assms(1)]
  have "segment_admits (?s, w) key val" "r = new_record ?s w key val"
    using assms(3,4) nxt by (simp_all add: segment_admits_def partition_admits_def new_record_def)
  note cases = segment_append_cases [OF ok assms(2) this]
  have err: "on_segment ?i (segment_append bx key val) (p, w) = (Err e, (p, w))"
    if "segment_append bx key val (?s, w) = (Err e, (?s, w))" for e
    using on_segment_eq [of ?i p "segment_append bx key val" w "Err e" ?s w] that ne by (simp add: last_conv_nth)
  have large: "too_large ?s r \<longleftrightarrow> unat (pt_max_segment_bytes p) < record_len r"
    using mx by (simp add: too_large_def)
  consider (large) "too_large ?s r" | (full) "\<not> too_large ?s r" "no_room ?s (last rss) r"
    | (room) "\<not> too_large ?s r" "\<not> no_room ?s (last rss) r" by blast
  then show ?thesis
  proof cases
    case large
    then show ?thesis
      using cases err ne mx by (simp add: partition_append_def too_large_def)
  next
    case full
    then show ?thesis
      using cases large by (auto dest!: err partition_append_rotates [OF assms full])
  next
    case room
    obtain p' w' where app: "on_segment ?i (segment_append bx key val) (p, w) = (Ok (partition_next_offset p), (p', w'))"
      "partition_ok p' w' (butlast rss @ [last rss @ [r]])" "same_partition p p'"
      "only_touches (dir_files (pt_base_dir p)) w w'"
      using active_append [OF assms] room large by blast
    have "concat (butlast rss @ [last rss @ [r]]) = concat rss @ [r]"
      using ne(2) by (cases rss rule: rev_cases) simp_all
    then show ?thesis
      using app ne large room by (auto simp: partition_append_def)
  qed
qed

end

end
