(* ===== verification/Ruka_Partition_Batch.thy ===== *)
theory Ruka_Partition_Batch
  imports Ruka_Partition_Inv "HOL-Library.Sublist"
begin

text \<open>
  A partition as an append-only log, and the batch operations of \<open>storage/partition.rs\<close>: what the
  loops of \<open>append_batch\<close> and \<open>read_batch\<close> do to the records of the partition.
\<close>

section \<open>A partition as an append-only log\<close>

definition partition_log :: "partition \<times> world \<Rightarrow> log_record list \<Rightarrow> bool" where
  "partition_log sw rs \<longleftrightarrow>
     quiet (snd sw) \<and> (\<exists>rss. partition_ok (fst sw) (snd sw) rss \<and> rs = concat rss)"

lemma partition_ok_cursor:
  assumes "partition_ok p w rss" "i < length rss"
  shows "partition_ok (put_segment i (at_cursor c (pt_segments p ! i)) p) w rss"
proof -
  let ?p = "put_segment i (at_cursor c (pt_segments p ! i)) p"
  have holds: "partition_holds ?p w rss"
    using assms partition_holds_cursor by (simp add: partition_ok_def)
  obtain k where k: "length (pt_segments p) = Suc k" "length rss = Suc k"
    using assms(1) by (auto simp: partition_ok_def partition_holds_def) (metis Suc_pred length_greater_0_conv)
  have "last (pt_segments ?p) = (if i = k then at_cursor c (last (pt_segments p)) else last (pt_segments p))"
    using k snoc_nth_last(2) [of "pt_segments ?p" k] snoc_nth_last(2) [of "pt_segments p" k]
    by (simp add: nth_list_update)
  moreover have "base_of ?p j = base_of p j" for j
    using assms(2) k by (cases "i = j") simp_all
  ultimately show ?thesis
    using assms(1) holds segment_ok_at_cursor by (auto simp: partition_ok_def filed_def)
qed

context bytes_crate
begin

sublocale partition: append_log partition_log partition_admits "partition_append bx" "partition_read bx"
proof
  show "sorted_wrt (<) (map lr_offset rs)" if "partition_log s rs" for s rs
    using that offsets_from_sorted [OF holds_offsets] by (auto simp: partition_log_def partition_ok_def)
  show "\<exists>s'. partition_read bx off s = (Ok (record_at off rs), s') \<and> partition_log s' rs"
    if "partition_log s rs" for s rs off
  proof -
    from that obtain p w rss where s: "s = (p, w)" "partition_ok p w rss" "quiet w" "rs = concat rss"
      by (cases s) (auto simp: partition_log_def)
    have "partition_holds p w rss"
      using s(2) by (simp add: partition_ok_def)
    from partition_read_log [OF this s(3), of off] obtain i c where "i < length rss"
      "partition_read bx off (p, w) =
        (Ok (record_at off (concat rss)), (put_segment i (at_cursor c (pt_segments p ! i)) p, w))"
      by blast
    with partition_ok_cursor [OF s(2)] s show ?thesis
      by (auto simp: partition_log_def)
  qed
  show "(\<exists>e s'. partition_append bx k v s = (Err e, s') \<and> partition_log s' rs) \<or>
      (\<exists>off ts s'. partition_append bx k v s = (Ok off, s') \<and>
        partition_log s' (rs @ [\<lparr> lr_offset = off, lr_timestamp_ms = ts, lr_key = k, lr_value = v \<rparr>]))"
    if "partition_log s rs" "partition_admits s k v" for s rs k v
  proof -
    from that(1) obtain p w rss where s: "s = (p, w)" "partition_ok p w rss" "quiet w" "rs = concat rss"
      by (cases s) (auto simp: partition_log_def)
    let ?r = "\<lparr> lr_offset = partition_next_offset p, lr_timestamp_ms = clock w, lr_key = k, lr_value = v \<rparr>"
    note cases = partition_append_cases [OF s(2,3) that(2) [unfolded s(1)] refl]
    show ?thesis
    proof (cases "unat (pt_max_segment_bytes p) < record_len ?r")
      case True
      then have "partition_append bx k v (p, w) = (Err MessageTooLarge, (p, w))"
        using cases by simp
      then show ?thesis
        using that(1) s(1) by blast
    next
      case False
      then obtain p' w' rss' where "partition_append bx k v (p, w) = (Ok (partition_next_offset p), (p', w'))"
        "partition_ok p' w' rss'" "concat rss' = concat rss @ [?r]" "only_touches (dir_files (pt_base_dir p)) w w'"
        using cases by (simp only: if_False) blast
      then have "partition_append bx k v s = (Ok (partition_next_offset p), (p', w'))"
        "partition_log (p', w') (rs @ [?r])"
        unfolding s(1,4) partition_log_def fst_conv snd_conv using only_touches_quiet by metis+
      then show ?thesis by blast
    qed
  qed
qed

lemmas partition_log_append_law = partition.append_law
lemmas partition_log_read_own_append = partition.read_own_append
lemmas partition_log_append_keeps_reads = partition.append_keeps_reads
lemmas partition_log_read_keeps_reads = partition.read_keeps_reads
lemmas partition_log_failed_append_keeps_reads = partition.failed_append_keeps_reads

end

section \<open>Appending a batch to a partition\<close>

lemma stamp_append: "stamp ts off (ps @ qs) = stamp ts off ps @ stamp ts (off + of_nat (length ps)) qs"
  by (induction ts off ps rule: stamp.induct) (simp_all add: add.assoc)

lemma batch_taken_nonempty:
  assumes "segment_holds s w rs" "payloads \<noteq> []" "28 + length (hd payloads) \<le> unat (sg_max_bytes s)"
    "batch_taken s w rs payloads = []"
  shows "rs \<noteq> []"
proof
  assume "rs = []"
  with assms(2-4) show False
    by (cases payloads) (auto simp: batch_taken_def record_len_def opt_len_def split: if_splits)
qed

text \<open>
  One round of the loop: it goes on with fewer payloads, or with the same ones and an empty
  segment, and the partition has gained the records of the payloads that were taken.
\<close>

definition batch_round ::
    "bytes_ops \<Rightarrow> bytes list \<Rightarrow> u64 option \<Rightarrow> partition \<Rightarrow> world \<Rightarrow> log_record list list \<Rightarrow>
     nat \<Rightarrow> u64 option \<Rightarrow> partition \<Rightarrow> world \<Rightarrow> log_record list list \<Rightarrow> bool" where
  "batch_round bx payloads base p w rss n base' p' w' rss' \<longleftrightarrow>
     append_batch_loop bx payloads base (p, w) = append_batch_loop bx (drop n payloads) base' (p', w') \<and>
     n \<le> length payloads \<and> partition_ok p' w' rss' \<and> same_partition p p' \<and>
     only_touches (dir_files (pt_base_dir p)) w w' \<and>
     concat rss' = concat rss @ stamp (clock w) (partition_next_offset p) (take n payloads) \<and>
     partition_next_offset p' = partition_next_offset p + of_nat n \<and>
     batch_measure (drop n payloads) p' < batch_measure payloads p"

definition batch_admits :: "bytes list \<Rightarrow> partition \<Rightarrow> bool" where
  "batch_admits payloads p \<longleftrightarrow>
     (\<forall>q \<in> set payloads. wf_payload q) \<and> unat (partition_next_offset p) + length payloads < 2 ^ 64"

definition payload_fits :: "u64 \<Rightarrow> bytes \<Rightarrow> bool" where
  "payload_fits max_bytes q \<longleftrightarrow> 28 + length q \<le> unat max_bytes"

lemma active_facts:
  assumes "partition_ok p w rss"
  shows "segment_ok (last (pt_segments p)) w (last rss)" "segment_holds (last (pt_segments p)) w (last rss)"
    "sg_max_bytes (last (pt_segments p)) = pt_max_segment_bytes p" "pt_segments p \<noteq> []" "rss \<noteq> []"
    "length rss = length (pt_segments p)"
    "last (pt_segments p) = pt_segments p ! (length (pt_segments p) - 1)"
    "partition_next_offset p = sg_next_offset (last (pt_segments p))"
  using assms partition_next_last [OF assms]
  by (auto simp: partition_ok_def partition_holds_def segment_ok_def last_conv_nth)

lemma on_active:
  assumes "partition_ok p w rss" "m (last (pt_segments p), w) = (r, (s', w'))"
  shows "on_segment (length (pt_segments p) - 1) m (p, w) = (r, (put_segment (length (pt_segments p) - 1) s' p, w'))"
  using assms active_facts(4,7) [OF assms(1)] by (intro on_segment_eq) simp_all

lemma put_last [simp]: "pt_segments p \<noteq> [] \<Longrightarrow> put_segment (length (pt_segments p) - Suc 0) (last (pt_segments p)) p = p"
  by (simp add: last_conv_nth)

lemma stamp_sizes: "length (log_bytes (stamp ts off qs)) = sum_list (map (\<lambda>q. 28 + length q) qs)"
  by (induction ts off qs rule: stamp.induct) (simp_all add: record_len_def opt_len_def)

lemma batch_taken_facts:
  assumes "partition_ok p w rss" "ns = batch_taken (last (pt_segments p)) w (last rss) payloads"
  shows "length ns \<le> length payloads"
    "ns = stamp (clock w) (partition_next_offset p) (take (length ns) payloads)"
    "\<forall>q \<in> set (take (length ns) payloads). payload_fits (pt_max_segment_bytes p) q"
proof -
  show "length ns \<le> length payloads" and eq: "ns = stamp (clock w) (partition_next_offset p) (take (length ns) payloads)"
    using length_batch_taken [of "last (pt_segments p)" w "last rss" payloads]
      batch_taken_take [of "last (pt_segments p)" w "last rss" payloads] active_facts(8) [OF assms(1)]
    by (simp_all add: assms(2) stamp_take)
  have "length (log_bytes ns) \<le> unat (pt_max_segment_bytes p)"
    using greedy_bound active_facts(3) [OF assms(1)] unfolding assms(2) batch_taken_def
    by (metis diff_le_self le_trans)
  moreover have "28 + length q \<le> length (log_bytes ns)" if "q \<in> set (take (length ns) payloads)" for q
  proof -
    have "28 + length q \<le> sum_list (map (\<lambda>q. 28 + length q) (take (length ns) payloads))"
      using that by (intro member_le_sum_list) auto
    then show ?thesis
      using eq stamp_sizes by metis
  qed
  ultimately show "\<forall>q \<in> set (take (length ns) payloads). payload_fits (pt_max_segment_bytes p) q"
    by (fastforce simp: payload_fits_def)
qed

lemma batch_admits_rest:
  assumes "batch_round bx payloads base p w rss n base' p' w' rss'" "batch_admits payloads p"
  shows "batch_admits (drop n payloads) p'"
proof -
  have "unat (partition_next_offset p + of_nat n) = unat (partition_next_offset p) + n"
    using assms by (intro unat_offset) (simp add: batch_round_def batch_admits_def)
  then show ?thesis
    using assms by (auto simp: batch_round_def batch_admits_def dest: in_set_dropD)
qed

context bytes_crate
begin

text \<open>The three ways a round can go: the batch is refused, the segment is full, some are taken.\<close>

lemma batch_round_large:
  assumes ok: "partition_ok p w rss" and adm: "batch_admits payloads p"
    and rest: "rest = drop (length (batch_taken (last (pt_segments p)) w (last rss) payloads)) payloads"
      "rest \<noteq> []" "\<not> payload_fits (pt_max_segment_bytes p) (hd rest)"
  shows "append_batch_loop bx payloads base (p, w) = (Err MessageTooLarge, (p, w))"
proof -
  note act = active_facts [OF ok]
  have ne: "payloads \<noteq> []" and wf: "\<forall>q \<in> set payloads. wf_payload q"
    using rest(1,2) adm by (auto simp: batch_admits_def)
  have "segment_append_batch bx payloads (last (pt_segments p), w) = (Err MessageTooLarge, (last (pt_segments p), w))"
    using segment_append_batch_unfold [OF act(2) wf ne refl] rest act(3) by (simp add: Let_def payload_fits_def)
  from on_active [where m = "segment_append_batch bx payloads", OF ok this] show ?thesis
    using ne act(4) by (subst append_batch_loop.simps) (simp add: Let_def)
qed

lemma batch_round_full:
  assumes ok: "partition_ok p w rss" and q: "quiet w" and adm: "batch_admits payloads p" and ne: "payloads \<noteq> []"
    and fits: "payload_fits (pt_max_segment_bytes p) (hd payloads)"
    and none: "batch_taken (last (pt_segments p)) w (last rss) payloads = []"
  shows "\<exists>p' w'. batch_round bx payloads base p w rss 0 base p' w' (rss @ [[]])"
proof -
  let ?s = "last (pt_segments p)" and ?i = "length (pt_segments p) - 1"
  note act = active_facts [OF ok]
  have wf: "\<forall>q \<in> set payloads. wf_payload q" and small: "28 + length (hd payloads) \<le> unat (sg_max_bytes ?s)"
    using fits adm act(3) by (simp_all add: batch_admits_def payload_fits_def)
  have "last rss \<noteq> []"
    using batch_taken_nonempty [OF act(2) ne small none] .
  then obtain s w1 where rot: "partition_rotate ?i (p, w) = (Ok (), (p \<lparr> pt_segments := pt_segments p @ [s] \<rparr>, w1))"
    "partition_ok (p \<lparr> pt_segments := pt_segments p @ [s] \<rparr>) w1 (rss @ [[]])" "quiet w1" "clock w1 = clock w"
    "sg_next_offset s = sg_next_offset ?s" "only_touches (dir_files (pt_base_dir p)) w w1"
    using partition_rotate_ok [OF ok q] by blast
  let ?p = "p \<lparr> pt_segments := pt_segments p @ [s] \<rparr>"
  have "segment_append_batch bx payloads (?s, w) =
      (Err (SegmentFull (sg_current_size ?s) (sg_max_bytes ?s)), (?s, w))"
    using segment_append_batch_unfold [OF act(2) wf ne none [symmetric]] small ne by (simp add: Let_def)
  from on_active [where m = "segment_append_batch bx payloads", OF ok this] have full: "on_segment ?i (segment_append_batch bx payloads) (p, w) =
      (Err (SegmentFull (sg_current_size ?s) (sg_max_bytes ?s)), (p, w))"
    using act(4) by simp
  have "sg_current_size ?s \<noteq> 0"
    using append_batch_full [of "(p, w)"] full act(4) by simp
  moreover have "sg_current_size s = 0"
    using partition_rotate_empty(2) [OF rot(1)] by simp
  ultimately have "batch_measure payloads ?p < batch_measure payloads p"
    using act(4) by (simp add: batch_measure_def)
  moreover have "append_batch_loop bx payloads base (p, w) = append_batch_loop bx payloads base (?p, w1)"
    using ne act(4) full rot(1) by (subst append_batch_loop.simps) (simp add: Let_def)
  moreover have "partition_next_offset ?p = partition_next_offset p"
    using rot(5) act(8) by (simp add: partition_next_offset_def)
  ultimately have "batch_round bx payloads base p w rss 0 base ?p w1 (rss @ [[]])"
    using rot(2,6) by (simp add: batch_round_def)
  then show ?thesis by blast
qed

text \<open>When some payloads are taken, a new segment is started if any are left.\<close>

lemma batch_taken_stores:
  assumes ok: "partition_ok p w rss" and q: "quiet w" and adm: "batch_admits payloads p"
    and ns: "ns = batch_taken (last (pt_segments p)) w (last rss) payloads" "ns \<noteq> []"
    and fits: "drop (length ns) payloads \<noteq> [] \<Longrightarrow> payload_fits (pt_max_segment_bytes p) (hd (drop (length ns) payloads))"
  shows "\<exists>p1 w1 rss1. on_segment (length (pt_segments p) - 1) (segment_append_batch bx payloads) (p, w) =
      (Ok (partition_next_offset p, length ns), (p1, w1)) \<and>
    partition_ok p1 w1 rss1 \<and> only_touches (dir_files (pt_base_dir p)) w w1 \<and> last rss1 \<noteq> [] \<and>
    concat rss1 = concat rss @ stamp (clock w) (partition_next_offset p) (take (length ns) payloads) \<and>
    partition_next_offset p1 = partition_next_offset p + of_nat (length ns) \<and>
    length (pt_segments p1) = length (pt_segments p) \<and> same_partition p p1"
proof -
  let ?s = "last (pt_segments p)" and ?i = "length (pt_segments p) - 1" and ?rs = "last rss"
  note act = active_facts [OF ok]
  have wf: "\<forall>q \<in> set payloads. wf_payload q" and off: "unat (sg_next_offset ?s) + length payloads < 2 ^ 64"
    using adm act(8) by (simp_all add: batch_admits_def)
  obtain s1 w1 where app: "segment_append_batch bx payloads (?s, w) = (Ok (sg_next_offset ?s, length ns), (s1, w1))"
    "segment_ok s1 w1 (?rs @ ns)" "same_segment ?s s1" "only_touches (seg_files ?s) w w1"
    "on_disk s1 w1"
    using segment_append_batch_stores [OF act(1) q wf off ns] fits act(3) by (auto simp: payload_fits_def)
  let ?p1 = "put_segment ?i s1 p" and ?rss1 = "butlast rss @ [?rs @ ns]"
  have "seg_files ?s \<subseteq> dir_files (pt_base_dir p)"
    using ok files_of_dir act(4,7) by (simp add: partition_ok_def partition_holds_def)
  then have ok1: "partition_ok ?p1 w1 ?rss1" and touch: "only_touches (dir_files (pt_base_dir p)) w w1"
    using partition_ok_grow [OF ok app(2-5)] act(6) only_touches_mono [OF app(4)] by simp_all
  have cat: "concat ?rss1 = concat rss @ stamp (clock w) (partition_next_offset p) (take (length ns) payloads)"
    using act(5) batch_taken_facts(2) [OF ok ns(1)] by (cases rss rule: rev_cases) simp_all
  have "last (pt_segments ?p1) = s1"
    using act(4) snoc_nth_last(2) [of "(pt_segments p)[?i := s1]" ?i] by simp
  moreover have "sg_next_offset s1 = sg_next_offset ?s + of_nat (length ns)"
    using app(2,3) act(2) by (simp add: segment_ok_def segment_holds_def same_segment_def add.assoc)
  ultimately have "partition_next_offset ?p1 = partition_next_offset p + of_nat (length ns)"
    using active_facts(8) [OF ok1] act(8) by simp
  then show ?thesis
    using on_active [where m = "segment_append_batch bx payloads", OF ok app(1)] ok1 touch cat act(8) ns(2)
    by (intro exI [of _ ?p1] exI [of _ w1] exI [of _ ?rss1]) simp
qed

lemma batch_round_taken:
  assumes ok: "partition_ok p w rss" and q: "quiet w" and adm: "batch_admits payloads p"
    and ns: "ns = batch_taken (last (pt_segments p)) w (last rss) payloads" "ns \<noteq> []"
    and fits: "drop (length ns) payloads \<noteq> [] \<Longrightarrow> payload_fits (pt_max_segment_bytes p) (hd (drop (length ns) payloads))"
    and base': "base' = Some (case base of None \<Rightarrow> partition_next_offset p | Some b \<Rightarrow> b)"
  shows "\<exists>p' w' rss'. batch_round bx payloads base p w rss (length ns) base' p' w' rss'"
proof -
  let ?i = "length (pt_segments p) - 1" and ?n = "length ns" and ?rest = "drop (length ns) payloads"
  note n = batch_taken_facts(1) [OF ok ns(1)] and seg = active_facts(4) [OF ok]
  obtain p1 w1 rss1 where one: "on_segment ?i (segment_append_batch bx payloads) (p, w) =
      (Ok (partition_next_offset p, ?n), (p1, w1))"
    and ok1: "partition_ok p1 w1 rss1" and touch: "only_touches (dir_files (pt_base_dir p)) w w1"
    and full: "last rss1 \<noteq> []"
    and cat: "concat rss1 = concat rss @ stamp (clock w) (partition_next_offset p) (take ?n payloads)"
    and next1: "partition_next_offset p1 = partition_next_offset p + of_nat ?n"
    and same: "length (pt_segments p1) = length (pt_segments p)" "same_partition p p1"
    using batch_taken_stores [OF ok q adm ns fits] by blast
  have base: "(case base of None \<Rightarrow> Some (partition_next_offset p) | Some b \<Rightarrow> Some b) = base'"
    using base' by (simp split: option.split)
  have "0 < length ns"
    using ns(2) by simp
  then have less: "2 * length ?rest + 1 < 2 * length payloads" and ne: "payloads \<noteq> []"
    unfolding length_drop using n by (linarith, auto)
  show ?thesis
  proof (cases "?rest = []")
    case True
    have "append_batch_loop bx payloads base (p, w) = append_batch_loop bx ?rest base' (p1, w1)"
      using ne seg one n True base by (subst append_batch_loop.simps) (simp add: Let_def)
    moreover have "batch_measure ?rest p1 < batch_measure payloads p"
      using less by (simp add: batch_measure_def)
    ultimately have "batch_round bx payloads base p w rss ?n base' p1 w1 rss1"
      using ok1 touch cat next1 n same unfolding batch_round_def by simp
    then show ?thesis by blast
  next
    case False
    obtain s w2 where rot: "partition_rotate ?i (p1, w1) = (Ok (), (p1 \<lparr> pt_segments := pt_segments p1 @ [s] \<rparr>, w2))"
      "partition_ok (p1 \<lparr> pt_segments := pt_segments p1 @ [s] \<rparr>) w2 (rss1 @ [[]])"
      "sg_next_offset s = sg_next_offset (last (pt_segments p1))" "only_touches (dir_files (pt_base_dir p1)) w1 w2"
      using partition_rotate_ok [OF ok1 only_touches_quiet [OF touch] full] same(1) by metis
    let ?p2 = "p1 \<lparr> pt_segments := pt_segments p1 @ [s] \<rparr>"
    have touch2: "only_touches (dir_files (pt_base_dir p)) w w2"
      using only_touches_again [OF touch] rot(4) same(2) by (simp add: same_partition_def)
    have "append_batch_loop bx payloads base (p, w) = append_batch_loop bx ?rest base' (?p2, w2)"
      using ne seg one n False base rot(1) by (subst append_batch_loop.simps) (simp add: Let_def)
    moreover have "partition_next_offset ?p2 = partition_next_offset p + of_nat ?n"
      using rot(3) active_facts(8) [OF ok1] next1 by (simp add: partition_next_offset_def)
    moreover have "batch_measure ?rest ?p2 < batch_measure payloads p"
      using partition_rotate_empty(2) [OF rot(1)] less by (simp add: batch_measure_def)
    ultimately have "batch_round bx payloads base p w rss ?n base' ?p2 w2 (rss1 @ [[]])"
      using rot(2) touch2 cat n same unfolding batch_round_def by (simp add: same_partition_def)
    then show ?thesis by blast
  qed
qed

lemma batch_round_cases:
  assumes "partition_ok p w rss" "quiet w" "batch_admits payloads p" "payloads \<noteq> []"
  shows "append_batch_loop bx payloads base (p, w) = (Err MessageTooLarge, (p, w)) \<and>
      \<not> (\<forall>q \<in> set payloads. payload_fits (pt_max_segment_bytes p) q) \<or>
    (\<exists>n base' p' w' rss'. batch_round bx payloads base p w rss n base' p' w' rss' \<and>
      base' = (if n = 0 then base else Some (case base of None \<Rightarrow> partition_next_offset p | Some b \<Rightarrow> b)) \<and>
      (\<forall>q \<in> set (take n payloads). payload_fits (pt_max_segment_bytes p) q))"
proof -
  define ns where "ns = batch_taken (last (pt_segments p)) w (last rss) payloads"
  let ?rest = "drop (length ns) payloads"
  consider (large) "?rest \<noteq> []" "\<not> payload_fits (pt_max_segment_bytes p) (hd ?rest)"
    | (full) "ns = []" "payload_fits (pt_max_segment_bytes p) (hd payloads)"
    | (taken) "ns \<noteq> []" "?rest \<noteq> [] \<Longrightarrow> payload_fits (pt_max_segment_bytes p) (hd ?rest)"
    using assms(4) by fastforce
  then show ?thesis
  proof cases
    case large
    then have "hd ?rest \<in> set payloads"
      using hd_in_set in_set_dropD by metis
    then show ?thesis
      using batch_round_large [OF assms(1,3) _ large] large(2) by (auto simp: ns_def)
  next
    case full
    obtain p' w' where "batch_round bx payloads base p w rss 0 base p' w' (rss @ [[]])"
      using batch_round_full [OF assms full(2)] full(1) unfolding ns_def by blast
    then show ?thesis
      by (intro disjI2 exI [of _ "0 :: nat"] exI [of _ base] exI [of _ p'] exI [of _ w'] exI [of _ "rss @ [[]]"]) simp
  next
    case taken
    obtain base' where base': "base' = Some (case base of None \<Rightarrow> partition_next_offset p | Some b \<Rightarrow> b)"
      by blast
    obtain p' w' rss' where "batch_round bx payloads base p w rss (length ns) base' p' w' rss'"
      using batch_round_taken [OF assms(1-3) ns_def taken base'] by blast
    then show ?thesis
      using taken(1) batch_taken_facts(3) [OF assms(1) ns_def]
      by (intro disjI2 exI [of _ "length ns"] exI [of _ base'] exI [of _ p'] exI [of _ w'] exI [of _ rss'])
        (simp add: base')
  qed
qed

text \<open>
  The whole loop: with payloads that fit a segment everything is appended; otherwise the call
  fails and a prefix of the payloads before the first one that does not fit has been appended.
\<close>

lemma append_batch_loop_cases:
  assumes "partition_ok p w rss" "quiet w" "batch_admits payloads p"
  shows "\<exists>n p' w' rss'. append_batch_loop bx payloads base (p, w) =
      ((if \<forall>q \<in> set payloads. payload_fits (pt_max_segment_bytes p) q
        then Ok (if payloads = [] then base
                 else Some (case base of None \<Rightarrow> partition_next_offset p | Some b \<Rightarrow> b))
        else Err MessageTooLarge), (p', w')) \<and>
    partition_ok p' w' rss' \<and> same_partition p p' \<and> only_touches (dir_files (pt_base_dir p)) w w' \<and>
    concat rss' = concat rss @ stamp (clock w) (partition_next_offset p) (take n payloads) \<and>
    n \<le> length (takeWhile (payload_fits (pt_max_segment_bytes p)) payloads) \<and>
    ((\<forall>q \<in> set payloads. payload_fits (pt_max_segment_bytes p) q) \<longrightarrow> n = length payloads)"
  using assms
proof (induction "batch_measure payloads p" arbitrary: payloads p w rss base rule: less_induct)
  case less
  let ?fits = "payload_fits (pt_max_segment_bytes p)"
  show ?case
  proof (cases "payloads = []")
    case True
    then show ?thesis
      using less.prems(1) only_touches_refl [OF less.prems(2)] by (subst append_batch_loop.simps) auto
  next
    case ne: False
    let ?base = "Some (case base of None \<Rightarrow> partition_next_offset p | Some b \<Rightarrow> b)"
    from batch_round_cases [OF less.prems ne, of base] show ?thesis
    proof (elim disjE exE conjE)
      assume "append_batch_loop bx payloads base (p, w) = (Err MessageTooLarge, (p, w))"
        "\<not> (\<forall>q \<in> set payloads. ?fits q)"
      then show ?thesis
        using less.prems(1) only_touches_refl [OF less.prems(2)] by (intro exI [of _ 0] exI [of _ p] exI [of _ w] exI [of _ rss]) auto
    next
      fix n base' p' w' rss'
      assume round: "batch_round bx payloads base p w rss n base' p' w' rss'"
        and base': "base' = (if n = 0 then base else ?base)" and fits: "\<forall>q \<in> set (take n payloads). ?fits q"
      note step = round [unfolded batch_round_def]
      have all: "(\<forall>q \<in> set payloads. ?fits q) \<longleftrightarrow> (\<forall>q \<in> set (drop n payloads). ?fits q)"
        and while: "takeWhile ?fits payloads = take n payloads @ takeWhile ?fits (drop n payloads)"
        using fits takeWhile_append2 [of "take n payloads" ?fits "drop n payloads"]
        by (metis Un_iff append_take_drop_id set_append, simp)
      have "batch_measure (drop n payloads) p' < batch_measure payloads p" "partition_ok p' w' rss'" "quiet w'"
        and max': "pt_max_segment_bytes p' = pt_max_segment_bytes p" "pt_base_dir p' = pt_base_dir p"
        and clk: "clock w' = clock w"
        using step only_touches_quiet by (auto simp: same_partition_def only_touches_def)
      note IH0 = less.hyps [OF this(1-3) batch_admits_rest [OF round less.prems(3)], of base', unfolded max']
      let ?res = "if drop n payloads = [] then base' else Some (case base' of None \<Rightarrow> partition_next_offset p' | Some b \<Rightarrow> b)"
      obtain k p2 w2 rss2 where IH: "append_batch_loop bx (drop n payloads) base' (p', w') =
          ((if \<forall>q \<in> set (drop n payloads). ?fits q then Ok ?res else Err MessageTooLarge), (p2, w2))"
        "partition_ok p2 w2 rss2" "same_partition p' p2" "only_touches (dir_files (pt_base_dir p)) w' w2"
        "concat rss2 = concat rss' @ stamp (clock w') (partition_next_offset p') (take k (drop n payloads))"
        "k \<le> length (takeWhile ?fits (drop n payloads))"
        "(\<forall>q \<in> set (drop n payloads). ?fits q) \<longrightarrow> k = length (drop n payloads)"
        using IH0 by (elim exE conjE) (rule that; assumption)
      have "stamp (clock w) (partition_next_offset p) (take (n + k) payloads) =
          stamp (clock w) (partition_next_offset p) (take n payloads) @
          stamp (clock w) (partition_next_offset p + of_nat n) (take k (drop n payloads))"
        using stamp_append [of "clock w" "partition_next_offset p" "take n payloads" "take k (drop n payloads)"] step
        by (simp add: take_add)
      moreover have "?res = ?base"
        using base' ne step by (auto split: if_splits option.splits)
      moreover have "n + k \<le> length (takeWhile ?fits payloads)"
        using IH(6) step unfolding while by simp
      moreover have "only_touches (dir_files (pt_base_dir p)) w w2" "same_partition p p2"
        using only_touches_again [OF _ IH(4)] same_partition_trans [OF _ IH(3)] step by auto
      ultimately show ?thesis
        using IH(1,2,5-) step ne clk unfolding all
        by (intro exI [of _ "n + k"] exI [of _ p2] exI [of _ w2] exI [of _ rss2]) auto
    qed
  qed
qed

lemma append_batch_loop_partial:
  assumes "partition_ok p w rss" "quiet w" "batch_admits payloads p" "n = length (batch_taken (last (pt_segments p)) w (last rss) payloads)"
    "0 < n" "drop n payloads \<noteq> []" "payload_fits (pt_max_segment_bytes p) (hd (drop n payloads))"
    "\<not> (\<forall>q \<in> set (drop n payloads). payload_fits (pt_max_segment_bytes p) q)"
  shows "\<exists>k p' w' rss'. append_batch_loop bx payloads None (p, w) = (Err MessageTooLarge, (p', w')) \<and>
    partition_ok p' w' rss' \<and>
    concat rss' = concat rss @ stamp (clock w) (partition_next_offset p) (take (n + k) payloads)"
proof -
  from assms(4,5) have "batch_taken (last (pt_segments p)) w (last rss) payloads \<noteq> []"
    by auto
  from batch_round_taken [OF assms(1-3) refl this _ refl, of None] assms(4,7)
  obtain base' p' w' rss' where round: "batch_round bx payloads None p w rss n base' p' w' rss'"
    by auto
  note step = round [unfolded batch_round_def]
  have max': "pt_max_segment_bytes p' = pt_max_segment_bytes p" and clk: "clock w' = clock w" and q: "quiet w'"
    using step only_touches_quiet by (auto simp: same_partition_def only_touches_def)
  from append_batch_loop_cases [OF _ q batch_admits_rest [OF round assms(3)], of rss' base', unfolded max'] step assms(8)
  obtain k p2 w2 rss2 where "append_batch_loop bx (drop n payloads) base' (p', w') = (Err MessageTooLarge, (p2, w2))"
    "partition_ok p2 w2 rss2"
    "concat rss2 = concat rss' @ stamp (clock w') (partition_next_offset p') (take k (drop n payloads))"
    by (simp only: if_False) blast
  moreover have "stamp (clock w) (partition_next_offset p) (take (n + k) payloads) =
      stamp (clock w) (partition_next_offset p) (take n payloads) @
      stamp (clock w) (partition_next_offset p + of_nat n) (take k (drop n payloads))"
    using stamp_append [of "clock w" "partition_next_offset p" "take n payloads" "take k (drop n payloads)"] step
    by (simp add: take_add)
  ultimately show ?thesis
    using step clk by (intro exI [of _ k] exI [of _ p2] exI [of _ w2] exI [of _ rss2]) simp
qed

end

section \<open>Reading a batch from a partition\<close>

text \<open>
  What a batch read collects from the records that remain in each segment: the longest run
  that fits the budget, then the same from the next segment with what is left of it. A first
  record that does not fit is returned alone when nothing has been collected, and ends the
  read otherwise.
\<close>

fun gather :: "bool \<Rightarrow> nat \<Rightarrow> log_record list list \<Rightarrow> log_record list" where
  "gather first budget [] = []"
| "gather first budget ([] # rss) = (if budget = 0 then [] else gather first budget rss)"
| "gather first budget ((r # rs) # rss) =
     (if budget = 0 then []
      else if budget < record_len r then (if first then [r] else [])
      else greedy budget (r # rs) @
        gather False (budget - length (log_bytes (greedy budget (r # rs)))) rss)"

lemma gather_Cons:
  "gather first b (rs # rss) =
     (if b = 0 then []
      else if rs \<noteq> [] \<and> b < record_len (hd rs) then (if first then [hd rs] else [])
      else greedy b rs @ gather (first \<and> greedy b rs = []) (b - length (log_bytes (greedy b rs))) rss)"
  by (cases rs) auto

lemma rec_len_u32:
  assumes "wf_record r"
  shows "unat (28 + of_nat (opt_len (lr_key r)) + of_nat (opt_len (lr_value r)) :: u32) = record_len r"
proof -
  have "(28 + of_nat (opt_len (lr_key r)) + of_nat (opt_len (lr_value r)) :: u32) = of_nat (record_len r)"
    by (simp add: record_len_def)
  then show ?thesis
    using record_len_u32 [OF assms] by simp
qed

lemma take_records_fit:
  assumes "\<forall>r \<in> set rs. wf_record r" "length (log_bytes rs) \<le> unat budget"
  shows "\<exists>off'. take_records rs budget off results =
    (False, of_nat (unat budget - length (log_bytes rs)), off', results @ rs)"
  using assms
proof (induction rs arbitrary: budget off results)
  case (Cons r rs)
  let ?len = "28 + of_nat (opt_len (lr_key r)) + of_nat (opt_len (lr_value r)) :: u32"
  have len: "unat ?len = record_len r"
    using rec_len_u32 Cons.prems(1) by simp
  then have le: "?len \<le> budget"
    using Cons.prems(2) by (simp add: word_le_nat_alt)
  then have "unat (budget - ?len) = unat budget - record_len r"
    using len by (simp add: unat_sub)
  then show ?case
    using Cons.IH [of "budget - ?len" "lr_offset r + 1" "results @ [r]"] Cons.prems le
    by (simp add: Let_def)
qed simp

lemma take_records_large:
  assumes "wf_record r" "unat budget < record_len r"
  shows "take_records (r # rs) budget off results =
    (True, budget, off, if results = [] then [r] else results)"
  using assms rec_len_u32 [OF assms(1)] by (simp add: Let_def word_le_nat_alt)

lemma batch_prefix_fits: "record_len r \<le> n \<Longrightarrow> batch_prefix n (r # rs) = greedy n (r # rs)"
  by simp

lemma batch_prefix_large: "n < record_len r \<Longrightarrow> batch_prefix n (r # rs) = [r]"
  by simp

text \<open>Where a read starts: the segment and the position in it that belong to an offset.\<close>

lemma locate:
  assumes "partition_holds p w rss" "find_segment (pt_segments p) off = Some i" "m = unat off - unat (base_of p i)"
  shows "i < length rss" "off = base_of p i + of_nat m" "unat (base_of p i) + m < 2 ^ 64"
    "Suc i < length rss \<Longrightarrow> m < length (rss ! i)"
    "record_at off (concat rss) = (if m < length (rss ! i) then Some (rss ! i ! m) else None)"
proof -
  have len: "length (pt_segments p) = length rss"
    using assms(1) by (simp add: partition_holds_def)
  have range: "i < length rss" "base_of p i \<le> off" "\<And>j. i < j \<Longrightarrow> j < length rss \<Longrightarrow> off < base_of p j"
    using find_segment_range [OF holds_bases_increase [OF assms(1)], of off] assms(2) len by auto
  then show "i < length rss" by simp
  have m: "unat off = unat (base_of p i) + m"
    using assms(3) range(2) by (simp add: word_le_nat_alt)
  then show off: "off = base_of p i + of_nat m" and small: "unat (base_of p i) + m < 2 ^ 64"
    using offset_from_unat [OF m] unat_u64_less [of off] by simp_all
  have seg: "segment_holds (pt_segments p ! i) w (rss ! i)"
    using assms(1) range(1) by (simp add: partition_holds_def)
  show "m < length (rss ! i)" if "Suc i < length rss"
  proof -
    have "base_of p (Suc i) = sg_next_offset (pt_segments p ! i)"
      using assms(1) that by (simp add: partition_holds_def)
    then show ?thesis
      using range(3) [of "Suc i"] that holds_next [OF seg] m by (simp add: word_less_nat_alt)
  qed
  have "record_at off (rss ! i) = (if m < length (rss ! i) then Some (rss ! i ! m) else None)"
  proof (cases "m < length (rss ! i)")
    case True
    then have "lr_offset (rss ! i ! m) = off"
      using seg off offsets_from_nth by (auto simp: segment_holds_def)
    then show ?thesis
      using record_at_nth [OF holds_sorted [OF seg] True] True by simp
  next
    case False
    then have "sg_next_offset (pt_segments p ! i) \<le> off"
      using holds_next [OF seg] m by (simp add: word_le_nat_alt)
    then have "record_at off (rss ! i) = None"
      using holds_record_range(2) [OF seg] by (force simp: record_at_None)
    with False show ?thesis by simp
  qed
  then show "record_at off (concat rss) = (if m < length (rss ! i) then Some (rss ! i ! m) else None)"
    using holds_record_at [OF assms(1) range] by simp
qed

text \<open>The records of the partition from a position inside a segment on.\<close>

definition rest_from :: "log_record list list \<Rightarrow> nat \<Rightarrow> nat \<Rightarrow> log_record list list" where
  "rest_from rss i m = (if i < length rss then drop m (rss ! i) # drop (Suc i) rss else [])"

lemma rest_from_next: "i < length rss \<Longrightarrow> rest_from rss (Suc i) 0 = drop (Suc i) rss"
  by (simp add: rest_from_def Cons_nth_drop_Suc)

context bytes_crate
begin

lemma segment_read_batch_from:
  assumes "segment_holds s w rs" "quiet w" "off = sg_base_offset s + of_nat m"
    "unat (sg_base_offset s) + m < 2 ^ 64"
  shows "\<exists>c. segment_read_batch bx off mx (s, w) = (Ok (batch_prefix (unat mx) (drop m rs)), (at_cursor c s, w))"
proof (cases "m < length rs")
  case True
  then show ?thesis
    using segment_read_batch_inside [OF assms(1,2)] assms(3) by blast
next
  case False
  have "sg_next_offset s \<le> off"
    using False holds_next [OF assms(1)] unat_offset [OF assms(4)] assms(3) by (simp add: word_le_nat_alt)
  then have "segment_read_batch bx off mx (s, w) = (Ok [], (s, w))"
    using segment_read_at_outside(2) by blast
  moreover have "at_cursor (cursor (sg_log_file s)) s = s"
    by (simp add: at_cursor_def)
  ultimately show ?thesis
    using False by (metis batch_prefix.simps(1) drop_all not_less)
qed

text \<open>One round of the loop of \<open>read_batch\<close>, when there is budget left.\<close>

lemma read_batch_round:
  assumes "partition_holds p w rss" "quiet w" "i < length rss" "0 < budget"
    "off = base_of p i + of_nat m" "unat (base_of p i) + m < 2 ^ 64" "rs = drop m (rss ! i)"
  shows "\<exists>p' off'. partition_holds p' w rss \<and> (partition_ok p w rss \<longrightarrow> partition_ok p' w rss) \<and>
    read_batch_loop bx i off budget results (p, w) =
      (if rs \<noteq> [] \<and> unat budget < record_len (hd rs)
       then (Ok (if results = [] then [hd rs] else results), (p', w))
       else read_batch_loop bx (Suc i) (segment_base (pt_segments p') (Suc i) off')
         (of_nat (unat budget - length (log_bytes (greedy (unat budget) rs))))
         (results @ greedy (unat budget) rs) (p', w))"
proof -
  have seg: "segment_holds (pt_segments p ! i) w (rss ! i)" and len: "length (pt_segments p) = length rss"
    using assms(1,3) by (simp_all add: partition_holds_def)
  obtain c where "segment_read_batch bx off budget (pt_segments p ! i, w) =
      (Ok (batch_prefix (unat budget) rs), (at_cursor c (pt_segments p ! i), w))"
    using segment_read_batch_from [OF seg assms(2,5,6)] assms(7) by blast
  then have run: "on_segment i (segment_read_batch bx off budget) (p, w) =
      (Ok (batch_prefix (unat budget) rs), (put_segment i (at_cursor c (pt_segments p ! i)) p, w))"
    using assms(3) len by (intro on_segment_eq) simp_all
  let ?p = "put_segment i (at_cursor c (pt_segments p ! i)) p"
  have keeps: "partition_holds ?p w rss" "partition_ok p w rss \<longrightarrow> partition_ok ?p w rss"
    using partition_holds_cursor [OF assms(1,3)] partition_ok_cursor assms(3) by blast+
  note unroll = read_batch_loop.simps [of bx i off budget results "(p, w)"]
  show ?thesis
  proof (cases rs)
    case Nil
    then have "read_batch_loop bx i off budget results (p, w) =
        read_batch_loop bx (Suc i) (segment_base (pt_segments ?p) (Suc i) off) budget results (?p, w)"
      using assms(3,4) len run unfolding unroll by simp
    then show ?thesis
      using keeps Nil by (intro exI [of _ ?p] exI [of _ off]) simp
  next
    case (Cons r rs')
    have "\<forall>x \<in> set rs. wf_record x"
      using seg unfolding assms(7) by (auto simp: segment_holds_def dest: in_set_dropD)
    then have wf: "\<forall>x \<in> set (r # rs'). wf_record x"
      unfolding Cons .
    show ?thesis
    proof (cases "unat budget < record_len r")
      case True
      then have "read_batch_loop bx i off budget results (p, w) = (Ok (if results = [] then [r] else results), (?p, w))"
        using assms(3,4) len run take_records_large [of r budget "[]" off results] wf
        unfolding unroll Cons batch_prefix_large [OF True] by auto
      then show ?thesis
        using keeps Cons True by (intro exI [of _ ?p]) simp
    next
      case False
      define g where "g = greedy (unat budget) (r # rs')"
      have "\<forall>x \<in> set g. wf_record x" and ne: "g \<noteq> []"
        using wf greedy_prefix [of "unat budget" "r # rs'"] False by (metis g_def in_set_takeD, simp add: g_def)
      then obtain off' where take: "take_records g budget off results =
          (False, of_nat (unat budget - length (log_bytes g)), off', results @ g)"
        using take_records_fit greedy_bound unfolding g_def by blast
      have "on_segment i (segment_read_batch bx off budget) (p, w) = (Ok g, (?p, w))"
        using run unfolding Cons batch_prefix_fits [OF False [unfolded not_less]] g_def .
      then have "read_batch_loop bx i off budget results (p, w) =
          read_batch_loop bx (Suc i) (segment_base (pt_segments ?p) (Suc i) off')
            (of_nat (unat budget - length (log_bytes g))) (results @ g) (?p, w)"
        using assms(3,4) len take ne unfolding unroll by simp
      then show ?thesis
        using keeps False unfolding Cons g_def [symmetric] by (intro exI [of _ ?p] exI [of _ off']) simp
    qed
  qed
qed

lemma read_batch_loop_gather:
  assumes "partition_holds p w rss" "quiet w"
    "i < length rss \<Longrightarrow> off = base_of p i + of_nat m \<and> unat (base_of p i) + m < 2 ^ 64"
  shows "\<exists>p'. read_batch_loop bx i off budget results (p, w) =
      (Ok (results @ gather (results = []) (unat budget) (rest_from rss i m)), (p', w)) \<and>
    partition_holds p' w rss \<and> (partition_ok p w rss \<longrightarrow> partition_ok p' w rss)"
  using assms
proof (induction "length rss - i" arbitrary: i off m budget results p)
  case 0
  then show ?case
    by (subst read_batch_loop.simps) (auto simp: rest_from_def partition_holds_def)
next
  case (Suc k)
  then have i: "i < length rss" by simp
  define rs where "rs = drop m (rss ! i)"
  have rest: "rest_from rss i m = rs # drop (Suc i) rss"
    using i by (simp add: rest_from_def rs_def)
  show ?case
  proof (cases "budget = 0")
    case True
    then show ?thesis
      using Suc.prems(1) unfolding rest by (subst read_batch_loop.simps) (simp add: gather_Cons)
  next
    case False
    then have pos: "0 < budget" "unat budget \<noteq> 0"
      by (simp_all add: word_gt_0 unat_eq_0)
    obtain p' off' where step: "partition_holds p' w rss" "partition_ok p w rss \<longrightarrow> partition_ok p' w rss"
      "read_batch_loop bx i off budget results (p, w) =
        (if rs \<noteq> [] \<and> unat budget < record_len (hd rs)
         then (Ok (if results = [] then [hd rs] else results), (p', w))
         else read_batch_loop bx (Suc i) (segment_base (pt_segments p') (Suc i) off')
           (of_nat (unat budget - length (log_bytes (greedy (unat budget) rs))))
           (results @ greedy (unat budget) rs) (p', w))"
      using read_batch_round [OF Suc.prems(1,2) i pos(1) _ _ rs_def, of off results] Suc.prems(3) [OF i] by blast
    have "Suc i < length rss \<Longrightarrow> segment_base (pt_segments p') (Suc i) off' = base_of p' (Suc i) + of_nat 0 \<and>
        unat (base_of p' (Suc i)) + 0 < 2 ^ 64"
      using step(1) unat_u64_less [of "base_of p' (Suc i)"] by (simp add: segment_base_def partition_holds_def)
    moreover have "k = length rss - Suc i"
      using Suc.hyps(2) by simp
    moreover have "unat (of_nat (unat budget - length (log_bytes (greedy (unat budget) rs))) :: u32) =
        unat budget - length (log_bytes (greedy (unat budget) rs))"
      using unat_u32_less [of budget] by (intro unat_of_nat_u32) simp
    ultimately show ?thesis
      using Suc.hyps(1) [of "Suc i" p' "segment_base (pt_segments p') (Suc i) off'" 0
          "of_nat (unat budget - length (log_bytes (greedy (unat budget) rs)))" "results @ greedy (unat budget) rs"]
        step Suc.prems(2) pos(2)
      unfolding rest rest_from_next [OF i] gather_Cons by auto
  qed
qed

lemma partition_read_batch_gather:
  assumes "partition_holds p w rss" "quiet w" "find_segment (pt_segments p) off = Some i"
    "m = unat off - unat (base_of p i)"
  shows "\<exists>p'. partition_read_batch bx off mx (p, w) =
      (Ok (gather True (unat mx) (rest_from rss i m)), (p', w)) \<and>
    partition_holds p' w rss \<and> (partition_ok p w rss \<longrightarrow> partition_ok p' w rss)"
  using read_batch_loop_gather [OF assms(1,2), of i off m mx "[]"] locate(2,3) [OF assms(1,3,4)] assms(3)
  by (simp add: partition_read_batch_def)

end

lemma sorted_wrt_subseq: "subseq xs ys \<Longrightarrow> sorted_wrt R ys \<Longrightarrow> sorted_wrt R xs"
proof (induction rule: list_emb.induct)
  case (list_emb_Cons2 x y xs ys)
  then show ?case by (auto elim: list_emb_set)
qed simp_all

lemma greedy_subseq: "subseq (greedy n rs) rs"
  using greedy_prefix [of n rs] by (metis prefix_imp_subseq take_is_prefix)

lemma gather_subseq: "subseq (gather first b rss) (concat rss)"
proof (induction first b rss rule: gather.induct)
  case (3 first b r rs rss)
  show ?case
  proof (cases "b = 0 \<or> b < record_len r")
    case True
    then show ?thesis by auto
  next
    case False
    then show ?thesis
      using list_emb_append_mono [OF greedy_subseq [of b "r # rs"]] 3 by auto
  qed
qed simp_all

lemma gather_bound:
  "length (log_bytes (gather first b rss)) \<le> b \<or> first \<and> length (gather first b rss) = 1"
proof (induction first b rss rule: gather.induct)
  case (3 first b r rs rss)
  show ?case
  proof (cases "b = 0 \<or> b < record_len r")
    case False
    then show ?thesis
      using 3 greedy_bound [of b "r # rs"] by auto
  qed auto
qed auto

lemma gather_head: "0 < b \<Longrightarrow> \<exists>xs. gather True b ((r # rs) # rss) = r # xs"
  by auto

lemma greedy_all: "length (log_bytes rs) \<le> b \<Longrightarrow> greedy b rs = rs"
  by (induction b rs rule: greedy.induct) auto

lemma gather_all: "length (log_bytes (concat rss)) \<le> b \<Longrightarrow> gather first b rss = concat rss"
proof (induction rss arbitrary: first b)
  case (Cons rs rss)
  have "b \<noteq> 0 \<or> rs = [] \<and> concat rss = []" "\<not> (rs \<noteq> [] \<and> b < record_len (hd rs))"
    using Cons.prems by (auto simp: neq_Nil_conv)
  moreover have "greedy b rs = rs"
    using Cons.prems by (intro greedy_all) simp
  ultimately show ?case
    using Cons by (auto simp: gather_Cons)
qed simp

lemma offsets_from_filter:
  assumes "offsets_from b rs" "unat b + length rs < 2 ^ 64" "unat b + n < 2 ^ 64"
  shows "filter (\<lambda>r. b + of_nat n \<le> lr_offset r) rs = drop n rs"
proof -
  have off: "b + of_nat n \<le> lr_offset (rs ! i) \<longleftrightarrow> n \<le> i" if "i < length rs" for i
    using assms that by (simp add: offsets_from_nth word_le_nat_alt unat_offset)
  have "filter (\<lambda>r. b + of_nat n \<le> lr_offset r) (take n rs) = []"
    using off by (auto simp: filter_empty_conv in_set_conv_nth)
  moreover have "filter (\<lambda>r. b + of_nat n \<le> lr_offset r) (drop n rs) = drop n rs"
    using off by (auto simp: filter_id_conv in_set_conv_nth)
  ultimately show ?thesis
    by (metis append_Nil append_take_drop_id filter_append)
qed

text \<open>What remains from a position on are the records with at least the offset of that position.\<close>

lemma rest_from_filter:
  assumes "partition_holds p w rss" "i < length rss" "off = base_of p i + of_nat m"
    "unat (base_of p i) + m < 2 ^ 64" "Suc i < length rss \<Longrightarrow> m < length (rss ! i)"
  shows "concat (rest_from rss i m) = filter (\<lambda>r. off \<le> lr_offset r) (concat rss)"
proof -
  let ?n = "length (concat (take i rss)) + m"
  have split: "concat rss = concat (take i rss) @ rss ! i @ concat (drop (Suc i) rss)"
    using assms(2) by (metis concat.simps(2) concat_append id_take_nth_drop)
  have "concat (rest_from rss i m) = drop ?n (concat rss)"
    unfolding split using assms(2,5) by (cases "Suc i < length rss") (simp_all add: rest_from_def del: length_concat)
  moreover have "off = base_of p 0 + of_nat ?n" "unat (base_of p 0) + ?n < 2 ^ 64"
    using holds_chain [OF assms(1,2)] assms(3,4) offset_from_unat
    by (metis (no_types, lifting) add.assoc of_nat_add, simp)
  ultimately show ?thesis
    using offsets_from_filter [OF holds_offsets [OF assms(1)], of ?n] by (simp only:)
qed

text \<open>The records a batch read is about: none before the first segment or behind the last record.\<close>

lemma read_batch_start:
  assumes "partition_holds p w rss"
  shows "case find_segment (pt_segments p) off of
      None \<Rightarrow> off < base_of p 0 \<and> record_at off (concat rss) = None
    | Some i \<Rightarrow> let rest = rest_from rss i (unat off - unat (base_of p i)) in
        base_of p 0 \<le> off \<and> concat rest = filter (\<lambda>r. off \<le> lr_offset r) (concat rss) \<and>
        (case record_at off (concat rss) of
           None \<Rightarrow> rest = [[]]
         | Some r \<Rightarrow> \<exists>rs rss'. rest = (r # rs) # rss')"
proof (cases "find_segment (pt_segments p) off")
  case None
  have "off < base_of p 0"
    using find_segment_range [OF holds_bases_increase [OF assms], of off] None assms
    by (simp add: partition_holds_def)
  moreover have "base_of p 0 \<le> lr_offset r" if "r \<in> set (concat rss)" for r
    using offsets_from_filter [OF holds_offsets [OF assms], of 0] that unat_u64_less [of "base_of p 0"]
    by (auto simp: filter_id_conv)
  ultimately show ?thesis
    using None by (force simp: record_at_None)
next
  case (Some i)
  define m where "m = unat off - unat (base_of p i)"
  note loc = locate [OF assms Some m_def]
  have "base_of p 0 \<le> off"
    using holds_chain [OF assms loc(1)] loc(2) unat_offset [OF loc(3)] by (simp add: word_le_nat_alt)
  moreover have "case record_at off (concat rss) of None \<Rightarrow> rest_from rss i m = [[]]
      | Some r \<Rightarrow> \<exists>rs rss'. rest_from rss i m = (r # rs) # rss'"
    using loc(1,4) by (cases "Suc i < length rss") (auto simp: loc(5) rest_from_def not_less simp flip: Cons_nth_drop_Suc)
  ultimately show ?thesis
    using rest_from_filter [OF assms loc(1-4)] Some by (simp add: Let_def flip: m_def)
qed

text \<open>
  What a batch read from an offset may return of the records of a partition: some of those from the
  offset on, in order, within the byte limit or a single one, and the record at the offset first.
\<close>

definition fetched :: "log_record list \<Rightarrow> u64 \<Rightarrow> u32 \<Rightarrow> log_record list \<Rightarrow> bool" where
  "fetched rs off mx out \<longleftrightarrow>
     subseq out (filter (\<lambda>r. off \<le> lr_offset r) rs) \<and> sorted_wrt (<) (map lr_offset out) \<and>
     (length (log_bytes out) \<le> unat mx \<or> length out = 1) \<and>
     (case record_at off rs of
        None \<Rightarrow> out = []
      | Some r \<Rightarrow> if mx = 0 then out = [] else \<exists>rest. out = r # rest)"

context bytes_crate
begin

lemma partition_read_batch_fetched:
  assumes "partition_holds p w rss" "quiet w"
  shows "\<exists>out p'. partition_read_batch bx off mx (p, w) = (Ok out, (p', w)) \<and>
    partition_holds p' w rss \<and> (partition_ok p w rss \<longrightarrow> partition_ok p' w rss) \<and> fetched (concat rss) off mx out \<and>
    (base_of p 0 \<le> off \<and> length (log_bytes (filter (\<lambda>r. off \<le> lr_offset r) (concat rss))) \<le> unat mx \<longrightarrow>
     out = filter (\<lambda>r. off \<le> lr_offset r) (concat rss))"
proof (cases "find_segment (pt_segments p) off")
  case None
  then show ?thesis
    using read_batch_start [OF assms(1), of off] assms(1)
    by (auto simp: partition_read_batch_def fetched_def not_le [symmetric])
next
  case (Some i)
  define m where "m = unat off - unat (base_of p i)"
  let ?all = "filter (\<lambda>r. off \<le> lr_offset r) (concat rss)" and ?rest = "rest_from rss i m"
  obtain p' where run: "partition_read_batch bx off mx (p, w) = (Ok (gather True (unat mx) ?rest), (p', w))"
    "partition_holds p' w rss" "partition_ok p w rss \<longrightarrow> partition_ok p' w rss"
    using partition_read_batch_gather [OF assms Some m_def] by blast
  have start: "concat ?rest = ?all"
    "case record_at off (concat rss) of None \<Rightarrow> ?rest = [[]] | Some r \<Rightarrow> \<exists>rs rss'. ?rest = (r # rs) # rss'"
    using read_batch_start [OF assms(1), of off] Some by (simp_all add: Let_def flip: m_def)
  let ?out = "gather True (unat mx) ?rest"
  have sub: "subseq ?out ?all"
    using gather_subseq [of True "unat mx" ?rest] start(1) by simp
  moreover have "sorted_wrt (<) (map lr_offset ?out)"
    unfolding sorted_wrt_map using offsets_from_sorted [OF holds_offsets [OF assms(1)]]
    by (intro sorted_wrt_subseq [OF sub] sorted_wrt_filter) (simp add: sorted_wrt_map)
  moreover have "case record_at off (concat rss) of None \<Rightarrow> ?out = []
      | Some r \<Rightarrow> if mx = 0 then ?out = [] else \<exists>rest. ?out = r # rest"
    using start(2) gather_head [of "unat mx"] by (auto simp: unat_eq_0 unat_gt_0 split: option.splits)
  moreover have "length (log_bytes ?out) \<le> unat mx \<or> length ?out = 1"
    using gather_bound by blast
  moreover have "length (log_bytes ?all) \<le> unat mx \<Longrightarrow> ?out = ?all"
    using gather_all [of ?rest] start(1) by simp
  ultimately have "fetched (concat rss) off mx ?out" "length (log_bytes ?all) \<le> unat mx \<longrightarrow> ?out = ?all"
    unfolding fetched_def by blast+
  then show ?thesis
    using run by (intro exI [of _ ?out] exI [of _ p']) simp
qed

end

end
