(* ===== verification/Ruka_Partition_Props.thy ===== *)
theory Ruka_Partition_Props
  imports Ruka_Partition_Batch
begin

text \<open>
  The properties of partitions, with a sample partition of two segments on which they are applied.
\<close>

section \<open>A sample partition\<close>

text \<open>Two segments: a small and a large record in the first, a small one in the second.\<close>

definition plain_record :: "u64 \<Rightarrow> nat \<Rightarrow> log_record" where
  "plain_record off n = \<lparr> lr_offset = off, lr_timestamp_ms = 1, lr_key = None, lr_value = Some (replicate n 7) \<rparr>"

definition sample_rss :: "log_record list list" where
  "sample_rss = [[plain_record 0 2, plain_record 1 1000], [plain_record 2 4]]"

definition sample_partition :: partition where
  "sample_partition =
     \<lparr> pt_topic = ''d'', pt_id = 0, pt_base_dir = [''d''],
       pt_segments = [loaded_segment [''d''] 0 2000 SyncNone (sample_rss ! 0),
         (loaded_segment [''d''] 2 2000 SyncNone (sample_rss ! 1))
           \<lparr> sg_log_file := \<lparr> fpath = log_path [''d''] 2, cursor = 0, append_mode = True \<rparr> \<rparr>],
       pt_max_segment_bytes = 2000, pt_sync_level = SyncNone \<rparr>"

definition sample_world :: world where
  "sample_world =
     \<lparr> nodes = [([''d''], DirNode),
         (log_path [''d''] 0, FileNode (log_bytes (sample_rss ! 0)) []),
         (index_path [''d''] 0, FileNode (entries_bytes (entries_at 0 (sample_rss ! 0))) []),
         (log_path [''d''] 2, FileNode (log_bytes (sample_rss ! 1)) []),
         (index_path [''d''] 2, FileNode (entries_bytes (entries_at 0 (sample_rss ! 1))) [])],
       choices = [], clock = 5 \<rparr>"

lemma record_len_plain [simp]: "record_len (plain_record off n) = 28 + n"
  by (simp add: plain_record_def record_len_def opt_len_def)

lemma plain_record_offset [simp]: "lr_offset (plain_record off n) = off"
  by (simp add: plain_record_def)

lemma file_not_dir [simp]: "log_path dir b \<noteq> dir" "index_path dir b \<noteq> dir"
  by (simp_all add: log_path_def index_path_def)

lemma quiet_sample_world [simp]: "quiet sample_world" "clock sample_world = 5"
  by (simp_all add: quiet_def sample_world_def)

lemma sample_segments:
  "segment_ok (pt_segments sample_partition ! 0) sample_world (sample_rss ! 0)"
  "segment_ok (pt_segments sample_partition ! Suc 0) sample_world (sample_rss ! 1)"
proof -
  have rec: "recoverable 0 2000 (sample_rss ! 0) []" "recoverable 2 2000 (sample_rss ! 1) []"
    by (simp_all add: recoverable_def sample_rss_def wf_record_def)
  have srt: "sorted_wrt (<) (map lr_offset (sample_rss ! 0))" "sorted_wrt (<) (map lr_offset (sample_rss ! 1))"
    by (simp_all add: sample_rss_def)
  have files: "content sample_world (log_path [''d''] 0) = Some (log_bytes (sample_rss ! 0))"
    "content sample_world (log_path [''d''] 2) = Some (log_bytes (sample_rss ! 1))"
    "content sample_world (index_path [''d''] 0) = Some (entries_bytes (entries_at 0 (sample_rss ! 0)))"
    "content sample_world (index_path [''d''] 2) = Some (entries_bytes (entries_at 0 (sample_rss ! 1)))"
    by (simp_all add: sample_world_def content_def)
  show "segment_ok (pt_segments sample_partition ! 0) sample_world (sample_rss ! 0)"
    using loaded_segment_ok [OF rec(1) files(1) index_ok_loaded [OF files(3)]] srt(1)
    by (simp add: sample_partition_def)
  have "segment_ok (loaded_segment [''d''] 2 2000 SyncNone (sample_rss ! 1)) sample_world (sample_rss ! 1)"
    using loaded_segment_ok [OF rec(2) files(2) index_ok_loaded [OF files(4)]] srt(2) by simp
  then show "segment_ok (pt_segments sample_partition ! Suc 0) sample_world (sample_rss ! 1)"
    by (simp add: sample_partition_def segment_ok_def segment_holds_def)
qed

lemma sample_partition_ok: "partition_ok sample_partition sample_world sample_rss"
proof -
  have two: "length sample_rss = 2" "length (pt_segments sample_partition) = 2"
    "pt_segments sample_partition \<noteq> []" "pt_base_dir sample_partition = [''d'']"
    "sample_rss ! 0 \<noteq> []" "pt_max_segment_bytes sample_partition = 2000"
    by (simp_all add: sample_rss_def sample_partition_def)
  have segs: "sg_base_offset (pt_segments sample_partition ! 0) = 0"
    "sg_base_offset (pt_segments sample_partition ! Suc 0) = 2"
    "sg_next_offset (pt_segments sample_partition ! 0) = 2"
    "seg_files (pt_segments sample_partition ! 0) = files_of [''d''] 0"
    "seg_files (pt_segments sample_partition ! Suc 0) = files_of [''d''] 2"
    "fpath (sg_log_file (pt_segments sample_partition ! 0)) = log_path [''d''] 0"
    "fpath (sg_log_file (pt_segments sample_partition ! Suc 0)) = log_path [''d''] 2"
    by (simp_all add: sample_partition_def seg_files_def files_of_def) (simp add: sample_rss_def)
  have dir: "has_dir sample_world [''d'']"
    by (auto simp: has_dir_def is_dir_def sample_world_def le_Suc_eq)
  have ends: "last (pt_segments sample_partition) = pt_segments sample_partition ! Suc 0" "last sample_rss = sample_rss ! 1"
    by (simp_all add: sample_partition_def sample_rss_def)
  have "partition_holds sample_partition sample_world sample_rss"
    using two segs dir sample_segments by (auto simp: partition_holds_def less_2_cases_iff segment_ok_def)
  moreover have "append_mode (sg_log_file (pt_segments sample_partition ! Suc 0))"
    "sg_max_bytes (pt_segments sample_partition ! Suc 0) = 2000"
    by (simp_all add: sample_partition_def)
  moreover have "filed sample_partition sample_world sample_rss"
  proof -
    have "content sample_world (index_path [''d''] 0) = Some (entries_bytes (entries_at 0 (sample_rss ! 0)))"
      "content sample_world (index_path [''d''] 2) = Some (entries_bytes (entries_at 0 (sample_rss ! 1)))"
      by (simp_all add: sample_world_def content_def)
    moreover have "b = 0 \<or> b = 2" if "q \<in> files_of [''d''] b" "map_of (nodes sample_world) q \<noteq> None" for q b
      using that by (auto simp: sample_world_def files_of_def file_not_dir [THEN not_sym] split: if_splits)
    moreover have "sg_sync_level (pt_segments sample_partition ! Suc 0) = SyncNone" "pt_sync_level sample_partition = SyncNone"
      by (simp_all add: sample_partition_def)
    ultimately show ?thesis
      using two segs by (fastforce simp: filed_def segment_filed_def ends less_2_cases_iff dir_files_def)
  qed
  ultimately show ?thesis
    using two segs sample_segments by (simp add: partition_ok_def ends)
qed

lemma sample_holds: "partition_holds sample_partition sample_world sample_rss"
  using sample_partition_ok by (simp add: partition_ok_def)

lemma sample_next: "partition_next_offset sample_partition = 3"
  by (simp add: partition_next_offset_def sample_partition_def sample_rss_def)

section \<open>Properties of partitions\<close>

text \<open>C5: Appending to a partition, on every branch. A record larger than the segment limit is
  refused and nothing changes. Otherwise the append succeeds with the next offset: the record
  goes to the end of the active segment if it fits there, and to a new segment that starts at
  this offset if it does not; in both cases the records of the partition are the old ones
  followed by the new one, and the partition is again ready for appends.\<close>

theorem partition_append_correct:
  assumes "bytes_crate bx" "partition_ok p w rss" "quiet w" "partition_admits (p, w) k v"
  shows "let r = \<lparr> lr_offset = partition_next_offset p, lr_timestamp_ms = clock w, lr_key = k, lr_value = v \<rparr> in
    if unat (pt_max_segment_bytes p) < record_len r
    then partition_append bx k v (p, w) = (Err MessageTooLarge, (p, w))
    else \<exists>p' w' rss'. partition_append bx k v (p, w) = (Ok (partition_next_offset p), (p', w')) \<and>
      partition_ok p' w' rss' \<and> concat rss' = concat rss @ [r] \<and> quiet w' \<and>
      (if last rss \<noteq> [] \<and> unat (pt_max_segment_bytes p) < length (log_bytes (last rss)) + record_len r
       then rss' = rss @ [[r]] else rss' = butlast rss @ [last rss @ [r]])"
proof -
  have "sg_max_bytes (last (pt_segments p)) = pt_max_segment_bytes p"
    using assms(2) by (simp add: partition_ok_def)
  then show ?thesis
    using bytes_crate.partition_append_cases [OF assms refl] only_touches_quiet
    unfolding Let_def no_room_def by (simp only: split: if_splits) blast+
qed

lemma sample_admits: "n < 2000 \<Longrightarrow> partition_admits (sample_partition, sample_world) None (Some (replicate n 7))"
  by (simp add: partition_admits_def opt_len_def sample_next)

lemma sample_sizes: "pt_max_segment_bytes sample_partition = 2000" "length (log_bytes (last sample_rss)) = 32"
  by (simp_all add: sample_partition_def sample_rss_def)

lemma sample_rotates:
  "\<exists>p' w'. partition_append be_ops None (Some (replicate 1970 7)) (sample_partition, sample_world) = (Ok 3, (p', w')) \<and>
    length (pt_segments p') = 3"
proof -
  let ?r = "\<lparr> lr_offset = 3, lr_timestamp_ms = clock sample_world, lr_key = None, lr_value = Some (replicate 1970 7) \<rparr>"
  have "sg_max_bytes (last (pt_segments sample_partition)) = 2000"
    by (simp add: sample_partition_def)
  then have "no_room (last (pt_segments sample_partition)) (last sample_rss) ?r" "record_len ?r = 1998"
    by (simp_all add: no_room_def sample_sizes record_len_def opt_len_def) (simp add: sample_rss_def)
  then obtain p' w' where "partition_append be_ops None (Some (replicate 1970 7)) (sample_partition, sample_world) =
      (Ok 3, (p', w'))" "partition_ok p' w' (sample_rss @ [[?r]])"
    using be.partition_append_cases [OF sample_partition_ok quiet_sample_world(1) sample_admits [of 1970] refl]
    by (auto simp: sample_next sample_sizes)
  then show ?thesis
    by (auto simp: partition_ok_def partition_holds_def sample_rss_def)
qed

theorem partition_append_correct_witness:
  "\<exists>p' w'. partition_append be_ops None (Some (replicate 990 7)) (sample_partition, sample_world) = (Ok 3, (p', w')) \<and>
    partition_ok p' w' [[plain_record 0 2, plain_record 1 1000],
      [plain_record 2 4, (plain_record 3 990) \<lparr> lr_timestamp_ms := 5 \<rparr>]]"
  using partition_append_correct [OF be.bytes_crate_axioms sample_partition_ok quiet_sample_world(1)
      sample_admits [of 990]]
  by (simp add: Let_def sample_next sample_sizes record_len_def opt_len_def) (auto simp: sample_rss_def plain_record_def)

text \<open>C6: A partition whose active segment was created by the running broker, so that its log file is
  open in append mode, is an append-only log for its readers, across segments. A successful
  append is visible at once at the offset it returned, with the key and value that were given;
  what a read returns at any other offset is unchanged by the append, whether or not it started a
  new segment, by a refused append, and by other reads. (A partition that was just loaded is not
  of this kind until its first new segment.)\<close>

theorem partition_read_your_writes:
  assumes "bytes_crate bx" "partition_log sw rs" "partition_admits sw k v"
  shows "(case partition_append bx k v sw of
      (Ok off, sw') \<Rightarrow>
        (\<exists>ts. fst (partition_read bx off sw') =
           Ok (Some \<lparr> lr_offset = off, lr_timestamp_ms = ts, lr_key = k, lr_value = v \<rparr>)) \<and>
        (\<forall>off'. off' \<noteq> off \<longrightarrow> fst (partition_read bx off' sw') = fst (partition_read bx off' sw))
    | (Err e, sw') \<Rightarrow> \<forall>off'. fst (partition_read bx off' sw') = fst (partition_read bx off' sw)
    | (Panic, sw') \<Rightarrow> False) \<and>
    (\<forall>off off'. fst (partition_read bx off' (snd (partition_read bx off sw))) =
      fst (partition_read bx off' sw))"
  using bytes_crate.partition_log_append_law [OF assms]
    bytes_crate.partition_log_read_own_append [OF assms] bytes_crate.partition_log_append_keeps_reads [OF assms]
    bytes_crate.partition_log_failed_append_keeps_reads [OF assms]
    bytes_crate.partition_log_read_keeps_reads [OF assms(1,2)]
  by (auto split: prod.split outcome.split)

theorem partition_read_your_writes_witness:
  "\<exists>sw' ts. partition_append be_ops None (Some (replicate 1970 7)) (sample_partition, sample_world) = (Ok 3, sw') \<and>
    length (pt_segments (fst sw')) = 3 \<and>
    fst (partition_read be_ops 3 sw') =
      Ok (Some \<lparr> lr_offset = 3, lr_timestamp_ms = ts, lr_key = None, lr_value = Some (replicate 1970 7) \<rparr>) \<and>
    fst (partition_read be_ops 1 sw') = fst (partition_read be_ops 1 (sample_partition, sample_world))"
proof -
  have log: "partition_log (sample_partition, sample_world) (concat sample_rss)"
    using sample_partition_ok by (auto simp: partition_log_def)
  obtain p' w' where run: "partition_append be_ops None (Some (replicate 1970 7)) (sample_partition, sample_world) =
      (Ok 3, (p', w'))" "length (pt_segments p') = 3"
    using sample_rotates by blast
  show ?thesis
    using partition_read_your_writes [OF be.bytes_crate_axioms log sample_admits [of 1970], simplified] run by auto
qed

text \<open>C7: Appending a batch ends on every input and gives one of two results. If every payload fits a
  segment, the call returns the next offset and the records of the partition are the old ones
  followed by one record per payload, in order, with consecutive offsets from the one
  returned, however many segments the batch fills. Otherwise it fails with the error for a
  message that is too large, and what was appended are the first payloads, fewer than precede
  the one that is too large or just those; the partition is ready for appends in both cases.\<close>

theorem partition_append_batch_correct:
  assumes "bytes_crate bx" "partition_ok p w rss" "quiet w" "\<forall>q \<in> set payloads. wf_payload q"
    "unat (partition_next_offset p) + length payloads < 2 ^ 64"
  shows "\<exists>n p' w' rss'. partition_append_batch bx payloads (p, w) =
      ((if \<forall>q \<in> set payloads. 28 + length q \<le> unat (pt_max_segment_bytes p)
        then Ok (partition_next_offset p) else Err MessageTooLarge), (p', w')) \<and>
    partition_ok p' w' rss' \<and> quiet w' \<and>
    concat rss' = concat rss @ stamp (clock w) (partition_next_offset p) (take n payloads) \<and>
    n \<le> length (takeWhile (\<lambda>q. 28 + length q \<le> unat (pt_max_segment_bytes p)) payloads) \<and>
    ((\<forall>q \<in> set payloads. 28 + length q \<le> unat (pt_max_segment_bytes p)) \<longrightarrow> n = length payloads)"
proof (cases "payloads = []")
  case True
  then have "partition_append_batch bx payloads (p, w) = (Ok (partition_next_offset p), (p, w))"
    by (simp add: partition_append_batch_def bindp_def append_batch_loop.simps)
  then show ?thesis
    using assms(2,3) True by auto
next
  case False
  have "batch_admits payloads p"
    using assms(4,5) by (simp add: batch_admits_def)
  then obtain n p' w' rss' where loop: "append_batch_loop bx payloads None (p, w) =
      ((if \<forall>q \<in> set payloads. 28 + length q \<le> unat (pt_max_segment_bytes p)
        then Ok (Some (partition_next_offset p)) else Err MessageTooLarge), (p', w'))"
    "partition_ok p' w' rss'" "quiet w'"
    "concat rss' = concat rss @ stamp (clock w) (partition_next_offset p) (take n payloads)"
    "n \<le> length (takeWhile (\<lambda>q. 28 + length q \<le> unat (pt_max_segment_bytes p)) payloads)"
    "(\<forall>q \<in> set payloads. 28 + length q \<le> unat (pt_max_segment_bytes p)) \<longrightarrow> n = length payloads"
    using bytes_crate.append_batch_loop_cases [OF assms(1-3), of payloads None] False
      only_touches_quiet
    unfolding payload_fits_def [abs_def] option.case by (simp only: if_False) blast
  then show ?thesis
    by (intro exI [of _ n] exI [of _ p'] exI [of _ w'] exI [of _ rss'])
      (simp add: partition_append_batch_def bindp_def)
qed

theorem partition_append_batch_correct_witness:
  "\<exists>p' w' rss'. partition_append_batch be_ops [[1], replicate 1950 2, [3]] (sample_partition, sample_world) =
      (Ok 3, (p', w')) \<and> partition_ok p' w' rss' \<and>
    concat rss' = concat sample_rss @ stamp 5 3 [[1], replicate 1950 2, [3]]"
  using partition_append_batch_correct [OF be.bytes_crate_axioms sample_partition_ok quiet_sample_world(1),
      of "[[1], replicate 1950 2, [3]]"]
  by (simp add: sample_next sample_sizes wf_payload_def) auto

text \<open>C10: A failed batch may have been appended in part. If the active segment takes the first payload
  and not the second, which would fit a segment of its own, and a later payload is larger than
  the segment limit, the call fails although at least the first payload has been appended and
  can be read.\<close>

theorem partition_append_batch_not_atomic:
  assumes "bytes_crate bx" "partition_ok p w rss" "quiet w" "payloads = q1 # q2 # qs"
    "\<forall>q \<in> set payloads. wf_payload q" "unat (partition_next_offset p) + length payloads < 2 ^ 64"
    "length (log_bytes (last rss)) + (28 + length q1) \<le> unat (pt_max_segment_bytes p)"
    "unat (pt_max_segment_bytes p) < length (log_bytes (last rss)) + (28 + length q1) + (28 + length q2)"
    "28 + length q2 \<le> unat (pt_max_segment_bytes p)"
    "big \<in> set qs" "unat (pt_max_segment_bytes p) < 28 + length big"
  shows "\<exists>n p' w' rss'. partition_append_batch bx payloads (p, w) = (Err MessageTooLarge, (p', w')) \<and>
    partition_ok p' w' rss' \<and> 0 < n \<and>
    concat rss' = concat rss @ stamp (clock w) (partition_next_offset p) (take n payloads)"
proof -
  have adm: "batch_admits payloads p"
    using assms(5,6) by (simp add: batch_admits_def)
  have "length (batch_taken (last (pt_segments p)) w (last rss) payloads) = 1"
    using assms(7,8) active_facts(3) [OF assms(2)]
    by (simp add: batch_taken_def assms(4) record_len_def opt_len_def)
  moreover have "\<not> (\<forall>q \<in> set (drop 1 payloads). payload_fits (pt_max_segment_bytes p) q)"
    using assms(4,10,11) by (force simp: payload_fits_def)
  ultimately obtain k p' w' rss' where "append_batch_loop bx payloads None (p, w) = (Err MessageTooLarge, (p', w'))"
    "partition_ok p' w' rss'"
    "concat rss' = concat rss @ stamp (clock w) (partition_next_offset p) (take (1 + k) payloads)"
    using bytes_crate.append_batch_loop_partial [OF assms(1-3) adm, of 1] assms(4,9) by (auto simp: payload_fits_def)
  then show ?thesis
    by (intro exI [of _ "1 + k"] exI [of _ p'] exI [of _ w'] exI [of _ rss'])
      (simp add: partition_append_batch_def bindp_def)
qed

theorem partition_append_batch_not_atomic_witness:
  "\<exists>n p' w' rss'. partition_append_batch be_ops [replicate 1900 1, replicate 1900 2, replicate 2000 3]
      (sample_partition, sample_world) = (Err MessageTooLarge, (p', w')) \<and> partition_ok p' w' rss' \<and> 0 < n \<and>
    concat rss' = concat sample_rss @
      stamp 5 3 (take n [replicate 1900 1, replicate 1900 2, replicate 2000 3])"
  using partition_append_batch_not_atomic [OF be.bytes_crate_axioms sample_partition_ok quiet_sample_world(1) refl,
      of "replicate 1900 1" "replicate 1900 2" "[replicate 2000 3]" "replicate 2000 3"]
  by (simp add: sample_next sample_sizes wf_payload_def)

text \<open>C8: A batch read never fails and changes no file. It returns records of the partition in
  increasing offset order, none of them before the requested offset, and starts with the
  record at that offset if there is one and the byte limit is not zero. The encoded size of
  the result stays within the limit, except that one record may be returned alone. If
  everything from the offset on fits the limit, all of it is returned.\<close>

theorem partition_read_batch_correct:
  assumes "bytes_crate bx" "partition_holds p w rss" "quiet w"
  shows "\<exists>out p'. partition_read_batch bx off mx (p, w) = (Ok out, (p', w)) \<and>
    partition_holds p' w rss \<and> subseq out (filter (\<lambda>r. off \<le> lr_offset r) (concat rss)) \<and>
    sorted_wrt (<) (map lr_offset out) \<and>
    (length (log_bytes out) \<le> unat mx \<or> length out = 1) \<and>
    (case record_at off (concat rss) of
       None \<Rightarrow> out = []
     | Some r \<Rightarrow> if mx = 0 then out = [] else \<exists>rest. out = r # rest) \<and>
    (sg_base_offset (pt_segments p ! 0) \<le> off \<and>
       length (log_bytes (filter (\<lambda>r. off \<le> lr_offset r) (concat rss))) \<le> unat mx \<longrightarrow>
     out = filter (\<lambda>r. off \<le> lr_offset r) (concat rss))"
  using bytes_crate.partition_read_batch_fetched [OF assms, of off mx] unfolding fetched_def by blast

theorem partition_read_batch_correct_witness:
  "\<exists>p'. partition_read_batch be_ops 1 2000 (sample_partition, sample_world) =
    (Ok [plain_record 1 1000, plain_record 2 4], (p', sample_world))"
proof -
  have "filter (\<lambda>r. 1 \<le> lr_offset r) (concat sample_rss) = [plain_record 1 1000, plain_record 2 4]"
    "sg_base_offset (pt_segments sample_partition ! 0) = 0"
    by (simp_all add: sample_rss_def sample_partition_def)
  then show ?thesis
    using partition_read_batch_correct [OF be.bytes_crate_axioms sample_holds quiet_sample_world(1), of 1 2000] by auto
qed

text \<open>C9: A batch read may skip records. When a record in the middle of a segment does not fit what is
  left of the byte limit, the read goes on with the next segment as if the rest of the
  segment had been consumed: the result has a gap, and a client that continues after the last
  record received never sees the skipped ones.\<close>

theorem partition_read_batch_skips:
  assumes "bytes_crate bx" "partition_holds p w ((r0 # r1 # rs) # (r2 # rs') # rss)" "quiet w"
    "record_len r0 \<le> unat mx" "unat mx < record_len r0 + record_len r1"
    "record_len r0 + record_len r2 \<le> unat mx"
  shows "\<exists>rest p'. partition_read_batch bx (lr_offset r0) mx (p, w) = (Ok (r0 # r2 # rest), (p', w)) \<and>
    lr_offset r1 < lr_offset r2"
proof -
  let ?rss = "(r0 # r1 # rs) # (r2 # rs') # rss"
  have off: "lr_offset r0 = base_of p 0"
    using holds_offsets(1) [OF assms(2)] by simp
  have less: "lr_offset r1 < lr_offset r2"
    using offsets_from_sorted [OF holds_offsets [OF assms(2)]] by simp
  obtain i where "find_segment (pt_segments p) (lr_offset r0) = Some i"
    using read_batch_start [OF assms(2), of "lr_offset r0"] off by (auto split: option.splits)
  moreover from this have "i = 0"
    using find_segment_range [OF holds_bases_increase [OF assms(2)], of "lr_offset r0"]
      holds_bases_less [OF assms(2), of 0 i] assms(2) off by (auto simp: partition_holds_def leD)
  ultimately have "\<exists>p'. partition_read_batch bx (lr_offset r0) mx (p, w) =
      (Ok (gather True (unat mx) ?rss), (p', w))"
    using bytes_crate.partition_read_batch_gather [OF assms(1-3) _ refl, of "lr_offset r0" 0 mx] off
    by (auto simp: rest_from_def)
  moreover have "\<exists>rest. gather True (unat mx) ?rss = r0 # r2 # rest"
    using assms(4-6) record_len_pos [of r0] record_len_pos [of r2] by auto
  ultimately show ?thesis
    using less by auto
qed

theorem partition_read_batch_skips_witness:
  "\<exists>rest p'. partition_read_batch be_ops 0 100 (sample_partition, sample_world) =
    (Ok (plain_record 0 2 # plain_record 2 4 # rest), (p', sample_world))"
  using partition_read_batch_skips [OF be.bytes_crate_axioms sample_holds [unfolded sample_rss_def] quiet_sample_world(1),
      of 100]
  by simp

end
