(* ===== verification/Ruka_Open.thy ===== *)
theory Ruka_Open
  imports Ruka_Partition_Props
begin

text \<open>
  \<open>Partition::open_or_create\<close> of \<open>storage/partition.rs\<close>: a new partition in a vacant directory, and
  the recovery of an existing one from its files.
\<close>

section \<open>Creating directories\<close>

text \<open>The directories above and including a path.\<close>

definition dirs_to :: "path \<Rightarrow> path set" where
  "dirs_to dir = {take k dir | k. 0 < k \<and> k \<le> length dir}"

lemma make_dirs_creates:
  assumes "\<And>k x d. 0 < k \<Longrightarrow> k \<le> length cs \<Longrightarrow> map_of (nodes w) (q @ take k cs) \<noteq> Some (FileNode x d)"
  shows "\<exists>w'. make_dirs q cs w = (Ok (), w') \<and> choices w' = choices w \<and> clock w' = clock w \<and>
    (\<forall>k. 0 < k \<and> k \<le> length cs \<longrightarrow> map_of (nodes w') (q @ take k cs) = Some DirNode) \<and>
    (\<forall>r. (\<forall>k. 0 < k \<and> k \<le> length cs \<longrightarrow> r \<noteq> q @ take k cs) \<longrightarrow> map_of (nodes w') r = map_of (nodes w) r)"
  using assms
proof (induction cs arbitrary: q w)
  case (Cons c cs)
  define w1 where "w1 = (if map_of (nodes w) (q @ [c]) = None then set_node (q @ [c]) DirNode w else w)"
  have here: "map_of (nodes w) (q @ [c]) = None \<or> map_of (nodes w) (q @ [c]) = Some DirNode"
    using Cons.prems [of 1] by (cases "map_of (nodes w) (q @ [c])") (auto, metis node.exhaust)
  then have run: "make_dirs q (c # cs) w = make_dirs (q @ [c]) cs w1" and dir: "map_of (nodes w1) (q @ [c]) = Some DirNode"
    by (auto simp: w1_def fs_simps)
  have same: "map_of (nodes w1) r = map_of (nodes w) r" if "r \<noteq> q @ [c]" for r
    using that by (simp add: w1_def fs_simps)
  have meta: "choices w1 = choices w" "clock w1 = clock w"
    by (simp_all add: w1_def fs_simps)
  have "map_of (nodes w1) ((q @ [c]) @ take k cs) \<noteq> Some (FileNode x d)" if "0 < k" "k \<le> length cs" for k x d
    using Cons.prems [of "Suc k" x d] that same [of "(q @ [c]) @ take k cs"] by (cases cs) auto
  from Cons.IH [OF this] obtain w' where w': "make_dirs (q @ [c]) cs w1 = (Ok (), w')"
    "choices w' = choices w1" "clock w' = clock w1"
    "\<And>k. 0 < k \<and> k \<le> length cs \<Longrightarrow> map_of (nodes w') ((q @ [c]) @ take k cs) = Some DirNode"
    "\<And>r. \<forall>k. 0 < k \<and> k \<le> length cs \<longrightarrow> r \<noteq> (q @ [c]) @ take k cs \<Longrightarrow> map_of (nodes w') r = map_of (nodes w1) r"
    by blast
  have "map_of (nodes w') (q @ take k (c # cs)) = Some DirNode" if k: "0 < k" "k \<le> length (c # cs)" for k
  proof (cases "k = 1")
    case True
    have "q @ [c] \<noteq> (q @ [c]) @ take j cs" if "0 < j" "j \<le> length cs" for j
      using that by (cases cs) auto
    then have "map_of (nodes w') (q @ [c]) = Some DirNode"
      using w'(5) [of "q @ [c]"] dir by auto
    with True show ?thesis by simp
  next
    case False
    with k show ?thesis
      using w'(4) [of "k - 1"] by (cases k) auto
  qed
  moreover have "map_of (nodes w') r = map_of (nodes w) r"
    if r: "\<forall>k. 0 < k \<and> k \<le> length (c # cs) \<longrightarrow> r \<noteq> q @ take k (c # cs)" for r
  proof -
    have "r \<noteq> (q @ [c]) @ take k cs" if "k \<le> length cs" for k
      using r [rule_format, of "Suc k"] that by simp
    then show ?thesis
      using w'(5) [of r] same [of r] by (metis append_Nil2 le0 take_0)
  qed
  ultimately show ?case
    using run w'(1-3) meta by auto
qed auto

lemma create_dir_all_creates:
  assumes "quiet w" "\<And>q x d. q \<in> dirs_to dir \<Longrightarrow> map_of (nodes w) q \<noteq> Some (FileNode x d)"
  shows "\<exists>w'. create_dir_all dir ((), w) = (Ok (), ((), w')) \<and> has_dir w' dir \<and>
    only_touches (dirs_to dir) w w' \<and> (\<forall>q. is_dir w q \<longrightarrow> is_dir w' q)"
proof -
  have "map_of (nodes w) ([] @ take k dir) \<noteq> Some (FileNode x d)" if "0 < k" "k \<le> length dir" for k x d
    using assms(2) that by (auto simp: dirs_to_def)
  from make_dirs_creates [OF this] obtain w' where w': "make_dirs [] dir w = (Ok (), w')"
    "choices w' = choices w" "clock w' = clock w"
    "\<And>k. 0 < k \<and> k \<le> length dir \<Longrightarrow> map_of (nodes w') (take k dir) = Some DirNode"
    "\<And>r. \<forall>k. 0 < k \<and> k \<le> length dir \<longrightarrow> r \<noteq> take k dir \<Longrightarrow> map_of (nodes w') r = map_of (nodes w) r"
    by auto
  have "is_dir w' q" if "is_dir w q" for q
  proof (cases "\<exists>k. 0 < k \<and> k \<le> length dir \<and> q = take k dir")
    case True
    then show ?thesis
      using w'(4) by (auto simp: is_dir_def)
  next
    case False
    then have "map_of (nodes w') q = map_of (nodes w) q"
      using w'(5) [of q] by blast
    with that show ?thesis
      by (simp add: is_dir_def)
  qed
  moreover have "has_dir w' dir"
    unfolding has_dir_def is_dir_def using w'(4) by (metis gr0I take_0)
  moreover have "only_touches (dirs_to dir) w w'"
    using assms(1) w'(2,3,5) by (auto simp: only_touches_def quiet_def dirs_to_def)
  moreover have "create_dir_all dir ((), w) = (Ok (), ((), w'))"
    using assms(1) w'(1) by (simp add: create_dir_all_def sys_quiet)
  ultimately show ?thesis by blast
qed

section \<open>Listing a directory\<close>

definition names_in :: "world \<Rightarrow> path \<Rightarrow> string list" where
  "names_in w dir = map last (filter (\<lambda>q. q \<noteq> [] \<and> butlast q = dir) (remdups (map fst (nodes w))))"

lemma read_dir_names: "quiet w \<Longrightarrow> is_dir w dir \<Longrightarrow> read_dir dir ((), w) = (Ok (names_in w dir), ((), w))"
  by (simp add: read_dir_def sys_quiet names_in_def)

lemma names_in_empty:
  assumes "\<And>q. q \<noteq> [] \<Longrightarrow> butlast q = dir \<Longrightarrow> map_of (nodes w) q = None"
  shows "names_in w dir = []"
proof -
  have "map_of (nodes w) q \<noteq> None" if "q \<in> fst ` set (nodes w)" for q
    using that by (simp add: map_of_eq_None_iff)
  then show ?thesis
    using assms by (fastforce simp: names_in_def filter_empty_conv)
qed

section \<open>A new partition\<close>

text \<open>No file is in the way of the directories, and there is nothing in the directory.\<close>

definition vacant :: "world \<Rightarrow> path \<Rightarrow> bool" where
  "vacant w dir \<longleftrightarrow>
     (\<forall>q \<in> dirs_to dir. \<forall>x d. map_of (nodes w) q \<noteq> Some (FileNode x d)) \<and>
     (\<forall>name. map_of (nodes w) (dir @ [name]) = None)"

lemma dirs_to_length: "q \<in> dirs_to dir \<Longrightarrow> length q \<le> length dir"
  by (auto simp: dirs_to_def)

lemma partition_open_new:
  assumes "quiet w" "dir = path_join (path_join base topic) (show_nat (unat pid))" "vacant w dir" "unat mx < 2 ^ 63"
  shows "\<exists>p w'. partition_open_or_create bx topic pid base mx lev ((), w) = (Ok p, ((), w')) \<and>
    partition_ok p w' [[]] \<and> partition_next_offset p = 0 \<and> pt_base_dir p = dir \<and> pt_topic p = topic \<and> pt_id p = pid \<and>
    pt_max_segment_bytes p = mx \<and> pt_sync_level p = lev \<and> only_touches (dirs_to dir \<union> dir_files dir) w w' \<and> (\<forall>q. is_dir w q \<longrightarrow> is_dir w' q)"
proof -
  obtain w1 where w1: "create_dir_all dir ((), w) = (Ok (), ((), w1))" "has_dir w1 dir"
    "only_touches (dirs_to dir) w w1" "\<forall>q. is_dir w q \<longrightarrow> is_dir w1 q"
    using create_dir_all_creates [OF assms(1)] assms(3) unfolding vacant_def by blast
  have "dir @ [name] \<notin> dirs_to dir" for name
    using dirs_to_length by fastforce
  then have none: "map_of (nodes w1) (dir @ [name]) = None" for name
    using w1(3) assms(3) by (simp add: only_touches_def vacant_def)
  have q1: "quiet w1"
    using w1(3) by (rule only_touches_quiet)
  have "map_of (nodes w1) q = None" if "q \<noteq> []" "butlast q = dir" for q
    using none [of "last q"] that by (metis append_butlast_last_id)
  then have names: "read_dir dir ((), w1) = (Ok [], ((), w1))"
    using read_dir_names [OF q1] names_in_empty [of dir w1] w1(2) by (auto simp: has_dir_def)
  have free: "map_of (nodes w1) (log_path dir b) = None" "map_of (nodes w1) (index_path dir b) = None" for b
    using none by (simp_all add: log_path_def index_path_def)
  obtain w2 where w2: "segment_create dir 0 mx lev ((), w1) = (Ok (created_segment dir 0 mx lev), ((), w2))"
    "segment_ok (created_segment dir 0 mx lev) w2 []" "only_touches (files_of dir 0) w1 w2"
    "\<forall>q \<in> files_of dir 0. durable w2 q = content w2 q"
    using segment_create_ok [OF q1 w1(2), of 0 mx lev] free assms(4) by auto
  let ?p = "\<lparr> pt_topic = topic, pt_id = pid, pt_base_dir = dir, pt_segments = [created_segment dir 0 mx lev],
    pt_max_segment_bytes = mx, pt_sync_level = lev \<rparr>"
  have opened: "partition_open_or_create bx topic pid base mx lev ((), w) = (Ok ?p, ((), w2))"
    unfolding partition_open_or_create_def assms(2) [symmetric] Let_def
    by (simp add: bindp_def w1(1) names w2(1))
  have "has_dir w2 dir"
    using has_dir_other [OF w1(2) w2(3)] .
  moreover have "map_of (nodes w1) q = None" if "q \<in> dir_files dir" for q
    using that free by (auto simp: dir_files_def files_of_def)
  then have "filed ?p w2 [[]]"
    using w2(2-4) by (auto simp: filed_def segment_filed_def segment_ok_def segment_holds_def index_ok_def only_touches_def)
  ultimately have "partition_ok ?p w2 [[]]"
    using w2(2) assms(4)
    by (auto simp: partition_ok_def partition_holds_def segment_ok_def seg_files_def files_of_def)
  moreover have "only_touches (dirs_to dir \<union> dir_files dir) w w2"
    using only_touches_trans [OF w1(3) only_touches_mono [OF w2(3) files_of_dir]] .
  moreover have "is_dir w2 q" if "is_dir w q" for q
  proof -
    have "is_dir w1 q"
      using w1(4) that by blast
    moreover from this have "q = [] \<or> q \<notin> files_of dir 0"
      using free [of 0] by (auto simp: files_of_def is_dir_def)
    ultimately show ?thesis
      using w2(3) by (auto simp: only_touches_def is_dir_def)
  qed
  ultimately show ?thesis
    by (intro exI [of _ ?p] exI [of _ w2]) (simp add: partition_next_offset_def opened)
qed

section \<open>An existing partition\<close>

text \<open>The base offset that the scan reads from a file name.\<close>

definition segment_name :: "string \<Rightarrow> u64 option" where
  "segment_name name =
     (case split_ext name of (stem, Some ext) \<Rightarrow> if ext = ''log'' then parse_u64 stem else None | _ \<Rightarrow> None)"

text \<open>
  A segment on disk: its log starts with the records and may end in a torn write, and its index
  belongs to the records or will be rebuilt.
\<close>

definition stored_segment :: "bytes_ops \<Rightarrow> path \<Rightarrow> u64 \<Rightarrow> world \<Rightarrow> u64 \<Rightarrow> log_record list \<Rightarrow> bool" where
  "stored_segment bx dir mx w base rs \<longleftrightarrow>
     (\<exists>tail. content w (log_path dir base) = Some (log_bytes rs @ tail) \<and> recoverable base mx rs tail \<and>
        torn bx tail \<and> index_usable w (index_path dir base) rs)"

lemma stored_segment_other:
  assumes "stored_segment bx dir mx w b rs" "only_touches (files_of dir c) w w'" "b \<noteq> c"
  shows "stored_segment bx dir mx w' b rs"
proof -
  have same: "map_of (nodes w') (log_path dir b) = map_of (nodes w) (log_path dir b)"
    "map_of (nodes w') (index_path dir b) = map_of (nodes w) (index_path dir b)"
    "map_of (nodes w') (butlast (index_path dir b)) = map_of (nodes w) (butlast (index_path dir b))"
    using assms(2,3) prefix_not_file [of "length dir" dir c]
    by (simp_all add: only_touches_def files_of_def index_path_def [of dir b])
      (simp_all add: log_path_def index_path_def show_020_inj)
  have dir: "is_dir w' (butlast (index_path dir b)) = is_dir w (butlast (index_path dir b))"
    by (simp add: is_dir_def same(3))
  show ?thesis
    using assms(1) unfolding stored_segment_def index_usable_def content_def same(1,2) dir .
qed

lemma load_segments_Cons:
  "load_segments bx dir mx lev (name # names) segs =
     (case segment_name name of
        None \<Rightarrow> load_segments bx dir mx lev names segs
      | Some b \<Rightarrow> bindp (segment_load bx dir b mx lev) (\<lambda>seg. load_segments bx dir mx lev names (segs @ [seg])))"
  by (auto simp: segment_name_def split: option.splits prod.splits)

context bytes_crate
begin

lemma load_segments_recovers:
  assumes "quiet w" "bs = List.map_filter segment_name names" "distinct bs"
    "\<And>b. b \<in> set bs \<Longrightarrow> stored_segment bx dir mx w b (recs b)"
  shows "\<exists>w'. load_segments bx dir mx lev names segs ((), w) =
      (Ok (segs @ map (\<lambda>b. loaded_segment dir b mx lev (recs b)) bs), ((), w')) \<and>
    only_touches (\<Union>b \<in> set bs. files_of dir b) w w' \<and>
    (\<forall>b \<in> set bs. segment_ok (loaded_segment dir b mx lev (recs b)) w' (recs b))"
  using assms
proof (induction names arbitrary: segs w bs)
  case Nil
  then show ?case
    by (simp add: List.map_filter_def only_touches_refl)
next
  case (Cons name names)
  show ?case
  proof (cases "segment_name name")
    case None
    then show ?thesis
      using Cons unfolding load_segments_Cons by (simp add: List.map_filter_simps)
  next
    case (Some b)
    define cs where "cs = List.map_filter segment_name names"
    have bs: "bs = b # cs" "b \<notin> set cs" "distinct cs"
      using Cons.prems(2,3) Some by (simp_all add: List.map_filter_simps cs_def)
    obtain tail where tail: "content w (log_path dir b) = Some (log_bytes (recs b) @ tail)"
      "recoverable b mx (recs b) tail" "torn bx tail" "index_usable w (index_path dir b) (recs b)"
      using Cons.prems(4) [of b] bs(1) unfolding stored_segment_def by auto
    let ?s = "loaded_segment dir b mx lev (recs b)"
    from segment_load_recovers [OF Cons.prems(1) tail, of lev] obtain w1 where
      w1: "segment_load bx dir b mx lev ((), w) = (Ok ?s, ((), w1))" "segment_ok ?s w1 (recs b)"
      "only_touches (files_of dir b) w w1"
      unfolding files_of_def by blast
    have "stored_segment bx dir mx w1 c (recs c)" if "c \<in> set cs" for c
      using Cons.prems(4) [of c] stored_segment_other [OF _ w1(3)] that bs by auto
    from Cons.IH [OF only_touches_quiet [OF w1(3)] cs_def bs(3) this, of "segs @ [?s]"] obtain w2 where
      w2: "load_segments bx dir mx lev names (segs @ [?s]) ((), w1) =
        (Ok ((segs @ [?s]) @ map (\<lambda>b. loaded_segment dir b mx lev (recs b)) cs), ((), w2))"
      "only_touches (\<Union>b \<in> set cs. files_of dir b) w1 w2"
      "\<forall>b \<in> set cs. segment_ok (loaded_segment dir b mx lev (recs b)) w2 (recs b)"
      by blast
    have "seg_files ?s \<inter> (\<Union>b \<in> set cs. files_of dir b) = {}"
      using files_of_disjoint bs(2) by (fastforce simp: seg_files_loaded files_of_def)
    from segment_ok_other [OF w1(2) w2(2) this] show ?thesis
      using w1(1) w2 only_touches_trans [OF w1(3) w2(2)] unfolding load_segments_Cons Some bs(1)
      by (simp add: bindp_Ok)
  qed
qed

end

lemma sort_key_map: "sort_key f (map g xs) = map g (sort_key (\<lambda>x. f (g x)) xs)"
proof -
  have "insort_key f (g x) (map g ys) = map g (insort_key (\<lambda>x. f (g x)) x ys)" for x ys
    by (induction ys) simp_all
  then show ?thesis
    by (induction xs) simp_all
qed

context bytes_crate
begin

text \<open>The bases of the stored segments increase, so each names its own records.\<close>

lemma stored_bases_sorted:
  assumes "\<And>i. i < length bases \<Longrightarrow> stored_segment bx dir mx w (bases ! i) (rss ! i)"
    "\<And>i. Suc i < length bases \<Longrightarrow> rss ! i \<noteq> [] \<and> bases ! Suc i = bases ! i + of_nat (length (rss ! i))"
  shows "sorted_wrt (<) bases"
proof -
  have "bases ! i < bases ! Suc i" if "Suc i < length bases" for i
  proof -
    have "unat (bases ! i) + length (rss ! i) < 2 ^ 64"
      using assms(1) [of i] that by (auto simp: stored_segment_def recoverable_def)
    then show ?thesis
      using assms(2) [OF that] unat_offset by (simp add: word_less_nat_alt)
  qed
  then show ?thesis
    by (simp add: sorted_wrt_iff_nth_Suc_transp)
qed

text \<open>Loading the segments of a directory and sorting them by their bases.\<close>

lemma load_segments_sorted:
  assumes "quiet w" "sort (List.map_filter segment_name (names_in w dir)) = bases" "length rss = length bases" "distinct bases"
    "\<And>i. i < length bases \<Longrightarrow> stored_segment bx dir mx w (bases ! i) (rss ! i)"
  shows "\<exists>segs w'. load_segments bx dir mx lev (names_in w dir) [] ((), w) = (Ok segs, ((), w')) \<and>
    sort_key sg_base_offset segs = map (\<lambda>i. loaded_segment dir (bases ! i) mx lev (rss ! i)) [0..<length bases] \<and>
    only_touches (\<Union>b \<in> set bases. files_of dir b) w w' \<and>
    (\<forall>i < length bases. segment_ok (loaded_segment dir (bases ! i) mx lev (rss ! i)) w' (rss ! i))"
proof -
  let ?bs = "List.map_filter segment_name (names_in w dir)"
  define recs where "recs b = the (map_of (zip bases rss) b)" for b
  have recs: "recs (bases ! i) = rss ! i" if "i < length bases" for i
    using that assms(3,4) by (simp add: recs_def map_of_zip_nth)
  have set_bs: "set ?bs = set bases" "distinct ?bs"
    using assms(4) unfolding assms(2) [symmetric] by simp_all
  have stored: "stored_segment bx dir mx w b (recs b)" if b: "b \<in> set ?bs" for b
  proof -
    from b obtain i where "i < length bases" "bases ! i = b"
      unfolding set_bs in_set_conv_nth by blast
    then show ?thesis
      using assms(5) recs by auto
  qed
  let ?segs = "map (\<lambda>b. loaded_segment dir b mx lev (recs b)) ?bs"
  obtain w' where w': "load_segments bx dir mx lev (names_in w dir) [] ((), w) = (Ok ?segs, ((), w'))"
    "only_touches (\<Union>b \<in> set ?bs. files_of dir b) w w'"
    "\<forall>b \<in> set ?bs. segment_ok (loaded_segment dir b mx lev (recs b)) w' (recs b)"
    using load_segments_recovers [OF assms(1) refl set_bs(2) stored, of lev "[]"] by auto
  have "sort_key sg_base_offset ?segs = map (\<lambda>b. loaded_segment dir b mx lev (recs b)) bases"
    unfolding sort_key_map assms(2) [symmetric] by (simp add: loaded_segment_def)
  also have "\<dots> = map (\<lambda>i. loaded_segment dir (bases ! i) mx lev (rss ! i)) [0..<length bases]"
    by (rule nth_equalityI) (simp_all add: recs)
  finally show ?thesis
    using w' recs set_bs(1) by (intro exI [of _ ?segs] exI [of _ w']) (metis nth_mem)
qed

lemma partition_reopen:
  assumes "quiet w" "dir = path_join (path_join base topic) (show_nat (unat pid))" "has_dir w dir"
    "sort (List.map_filter segment_name (names_in w dir)) = bases" "bases \<noteq> []" "length rss = length bases"
    "\<And>i. i < length bases \<Longrightarrow> stored_segment bx dir mx w (bases ! i) (rss ! i)"
    "\<And>i. Suc i < length bases \<Longrightarrow> rss ! i \<noteq> [] \<and> bases ! Suc i = bases ! i + of_nat (length (rss ! i))"
    "p = \<lparr> pt_topic = topic, pt_id = pid, pt_base_dir = dir,
       pt_segments = map (\<lambda>i. loaded_segment dir (bases ! i) mx lev (rss ! i)) [0..<length bases],
       pt_max_segment_bytes = mx, pt_sync_level = lev \<rparr>"
  shows "\<exists>w'. partition_open_or_create bx topic pid base mx lev ((), w) = (Ok p, ((), w')) \<and>
    partition_holds p w' rss \<and> only_touches (dir_files dir) w w'"
proof -
  obtain segs w' where w': "load_segments bx dir mx lev (names_in w dir) [] ((), w) = (Ok segs, ((), w'))"
    "sort_key sg_base_offset segs = pt_segments p" "only_touches (\<Union>b \<in> set bases. files_of dir b) w w'"
    "\<forall>i < length bases. segment_ok (loaded_segment dir (bases ! i) mx lev (rss ! i)) w' (rss ! i)"
    using load_segments_sorted [OF assms(1,4,6) _ assms(7), of lev] stored_bases_sorted [OF assms(7,8)]
    unfolding assms(9) strict_sorted_iff by auto
  have ne: "pt_segments p \<noteq> []"
    using assms(5) by (simp add: assms(9))
  then have segs: "segs \<noteq> []"
    using w'(2) by auto
  have "create_dir_all dir ((), w) = (Ok (), ((), w))" "read_dir dir ((), w) = (Ok (names_in w dir), ((), w))"
    using create_dir_existing [OF assms(1,3)] read_dir_names [OF assms(1)] assms(3) by (auto simp: has_dir_def)
  then have "partition_open_or_create bx topic pid base mx lev ((), w) = (Ok p, ((), w'))"
    unfolding partition_open_or_create_def assms(2) [symmetric] Let_def
    using w'(1,2) ne segs by (simp add: bindp_def assms(9))
  moreover have "has_dir w' dir"
    using assms(3) w'(3) prefix_not_file by (auto simp: has_dir_def is_dir_def only_touches_def)
  then have "partition_holds p w' rss"
    using ne assms(6,8) w'(4) by (simp add: partition_holds_def assms(9) seg_files_loaded files_of_def segment_ok_def)
  moreover have "only_touches (dir_files dir) w w'"
    using only_touches_mono [OF w'(3)] files_of_dir by blast
  ultimately show ?thesis
    by blast
qed

end

section \<open>The names of the files\<close>

lemma split_ext_dot:
  assumes "s \<noteq> []" "e \<noteq> []" "CHR ''.'' \<notin> set e"
  shows "split_ext (s @ CHR ''.'' # e) = (s, Some e)"
proof -
  have "\<forall>c \<in> set (rev e). c \<noteq> CHR ''.''"
    using assms(3) by auto
  then have "takeWhile (\<lambda>c. c \<noteq> CHR ''.'') (rev e @ CHR ''.'' # rev s) = rev e"
    "dropWhile (\<lambda>c. c \<noteq> CHR ''.'') (rev e @ CHR ''.'' # rev s) = CHR ''.'' # rev s"
    by (simp_all add: takeWhile_append dropWhile_append)
  moreover have "s @ CHR ''.'' # e \<noteq> ''..''"
    using assms(1,2) by (auto simp: append_eq_Cons_conv)
  ultimately show ?thesis
    using assms(1) by (simp add: split_ext_def Let_def)
qed

lemma segment_name_files [simp]:
  "segment_name (show_020 (unat b) @ ''.log'') = Some b"
  "segment_name (show_020 (unat b) @ ''.index'') = None"
proof -
  have "show_020 (unat b) \<noteq> []"
    by (simp add: show_020_def)
  from split_ext_dot [OF this, of "''log''"] split_ext_dot [OF this, of "''index''"]
  show "segment_name (show_020 (unat b) @ ''.log'') = Some b" "segment_name (show_020 (unat b) @ ''.index'') = None"
    by (simp_all add: segment_name_def)
qed

section \<open>Properties of opening a partition\<close>

lemma sample_dir: "path_join (path_join [''b''] ''t'') (show_nat (unat (0 :: u32))) = [''b'', ''t'', ''0'']"
  by code_simp

text \<open>C11: Opening a partition that exists recovers it from its files, in whatever order the directory
  lists them. Each segment may end in a torn write, which is cut off; the partition then
  holds exactly the complete records of all segments in offset order, and every read
  returns what they say. Only files of the partition are touched.\<close>

theorem partition_open_recovers:
  assumes "bytes_crate bx" "quiet w" "dir = path_join (path_join base topic) (show_nat (unat pid))" "has_dir w dir"
    "sort (List.map_filter segment_name (names_in w dir)) = bases" "bases \<noteq> []" "length rss = length bases"
    "\<forall>i < length bases. stored_segment bx dir mx w (bases ! i) (rss ! i)"
    "\<forall>i. Suc i < length bases \<longrightarrow> rss ! i \<noteq> [] \<and> bases ! Suc i = bases ! i + of_nat (length (rss ! i))"
  shows "\<exists>p w'. partition_open_or_create bx topic pid base mx lev ((), w) = (Ok p, ((), w')) \<and>
    partition_holds p w' rss \<and> only_touches (dir_files dir) w w' \<and>
    (\<forall>off. fst (partition_read bx off (p, w')) = Ok (record_at off (concat rss)))"
proof -
  obtain p w' where open1: "partition_open_or_create bx topic pid base mx lev ((), w) = (Ok p, ((), w'))"
    "partition_holds p w' rss" "only_touches (dir_files dir) w w'"
    using bytes_crate.partition_reopen [OF assms(1-7) _ _ refl, where mx = mx and lev = lev] assms(8,9) by blast
  have "fst (partition_read bx off (p, w')) = Ok (record_at off (concat rss))" for off
    using bytes_crate.partition_read_log [OF assms(1) open1(2) only_touches_quiet [OF open1(3)], of off] by auto
  with open1 show ?thesis by blast
qed

definition reopen_world :: world where
  "reopen_world =
     \<lparr> nodes = [([''b''], DirNode), ([''b'', ''t''], DirNode), ([''b'', ''t'', ''0''], DirNode),
         (log_path [''b'', ''t'', ''0''] 2, FileNode (log_bytes (sample_rss ! 1) @ take 30 (record_bytes (plain_record 3 9))) []),
         (log_path [''b'', ''t'', ''0''] 0, FileNode (log_bytes (sample_rss ! 0)) []),
         (index_path [''b'', ''t'', ''0''] 0, FileNode (entries_bytes (entries_at 0 (sample_rss ! 0))) [])],
       choices = [], clock = 5 \<rparr>"

lemma file_path_short [simp]:
  "length q \<le> length dir \<Longrightarrow> log_path dir b \<noteq> q" "length q \<le> length dir \<Longrightarrow> index_path dir b \<noteq> q"
  "log_path dir b \<noteq> []" "index_path dir b \<noteq> []" "butlast (log_path dir b) = dir" "butlast (index_path dir b) = dir"
  by (auto simp: log_path_def index_path_def)

lemma reopen_world_names: "List.map_filter segment_name (names_in reopen_world [''b'', ''t'', ''0'']) = [2, 0]"
  using segment_name_files(1) [of 2] segment_name_files [of 0]
  by (simp add: reopen_world_def names_in_def) (simp add: log_path_def index_path_def List.map_filter_simps)

lemma reopen_world_facts: "quiet reopen_world" "has_dir reopen_world [''b'', ''t'', ''0'']"
  by (simp add: quiet_def reopen_world_def) (auto simp: reopen_world_def has_dir_def is_dir_def le_Suc_eq)

lemma reopen_world_stored:
  "stored_segment be_ops [''b'', ''t'', ''0''] 2000 reopen_world 0 (sample_rss ! 0)"
  "stored_segment be_ops [''b'', ''t'', ''0''] 2000 reopen_world 2 (sample_rss ! 1)"
proof -
  have "torn be_ops (take 30 (record_bytes (plain_record 3 9)))"
    by (rule be.torn_prefix) (simp_all add: wf_record_def)
  then show "stored_segment be_ops [''b'', ''t'', ''0''] 2000 reopen_world 2 (sample_rss ! 1)"
    unfolding stored_segment_def
    by (intro exI [of _ "take 30 (record_bytes (plain_record 3 9))"])
      (simp add: reopen_world_def content_def index_usable_def recoverable_def is_dir_def sample_rss_def wf_record_def)
  show "stored_segment be_ops [''b'', ''t'', ''0''] 2000 reopen_world 0 (sample_rss ! 0)"
    using be.torn_Nil unfolding stored_segment_def
    by (intro exI [of _ "[]"])
      (simp add: reopen_world_def content_def index_usable_def recoverable_def sample_rss_def wf_record_def)
qed

theorem partition_open_recovers_witness:
  "\<exists>p w'. partition_open_or_create be_ops ''t'' 0 [''b''] 2000 SyncNone ((), reopen_world) = (Ok p, ((), w')) \<and>
    partition_holds p w' sample_rss"
proof -
  have "sort [2, 0] = [0, 2 :: u64]"
    by simp
  then have "sort (List.map_filter segment_name (names_in reopen_world [''b'', ''t'', ''0''])) = [0, 2]"
    unfolding reopen_world_names .
  from partition_open_recovers [OF be.bytes_crate_axioms reopen_world_facts(1) sample_dir [symmetric]
      reopen_world_facts(2) this, of sample_rss 2000 SyncNone] reopen_world_stored
  show ?thesis
    by (auto simp: less_Suc_eq sample_rss_def)
qed

end
