(* ===== verification/Ruka_Frame.thy ===== *)
theory Ruka_Frame
  imports Ruka_Bytes Ruka_Types
begin

text \<open>
  Wire frames: \<open>protocol/frame.rs\<close>, and the codec of \<open>protocol/codec.rs\<close> that hands them to the
  connection. \<open>frame_encode\<close> and \<open>frame_decode\<close> follow the code field by field; a decoder
  returns its result with the buffer it leaves behind.
\<close>

record frame =
  fr_magic :: u8
  fr_api_key :: api_key
  fr_correlation_id :: u32
  fr_topic :: string
  fr_partition :: u32
  fr_payload :: bytes

definition body_len :: "frame \<Rightarrow> nat" where
  "body_len f = 1 + 2 + 4 + 2 + length (fr_topic f) + 4 + 4 + length (fr_payload f)"

definition frame_encode :: "bytes_ops \<Rightarrow> frame \<Rightarrow> bytes \<Rightarrow> bytes" where
  "frame_encode bx f dst =
     (let dst = put_u32 bx (of_nat (body_len f)) dst;
          dst = put_u8 bx (fr_magic f) dst;
          dst = put_u16 bx (as_u16 (fr_api_key f)) dst;
          dst = put_u32 bx (fr_correlation_id f) dst;
          dst = put_u16 bx (of_nat (length (fr_topic f))) dst;
          dst = put_slice bx (as_bytes (fr_topic f)) dst;
          dst = put_u32 bx (fr_partition f) dst;
          dst = put_u32 bx (of_nat (length (fr_payload f))) dst
      in put_slice bx (fr_payload f) dst)"

text \<open>The part of \<open>Frame::decode\<close> after the frame has been split off the input.\<close>

definition frame_decode_body :: "bytes_ops \<Rightarrow> bytes \<Rightarrow> frame option res" where
  "frame_decode_body bx frame_buf =
     obind (must (get_u8 bx frame_buf)) (\<lambda>(magic, frame_buf).
     if magic \<noteq> MAGIC_BYTE then Err (InvalidMagicByte magic)
     else
     obind (must (get_u16 bx frame_buf)) (\<lambda>(api_key_raw, frame_buf).
     obind (api_key_try_from api_key_raw) (\<lambda>api_key.
     obind (must (get_u32 bx frame_buf)) (\<lambda>(correlation_id, frame_buf).
     obind (must (get_u16 bx frame_buf)) (\<lambda>(topic_len_raw, frame_buf).
     let topic_len = unat topic_len_raw in
     if topic_len = 0 \<and> api_key \<noteq> Error then Err InvalidTopicName
     else if topic_len > 255 then Err InvalidTopicName
     else if length frame_buf < topic_len + 4 + 4
     then Err (FrameTooShort (topic_len + 4 + 4) (length frame_buf))
     else
     obind (must (split_to bx topic_len frame_buf)) (\<lambda>(topic_bytes, frame_buf).
     if \<not> utf8_valid topic_bytes then Err InvalidTopicName
     else
     obind (must (get_u32 bx frame_buf)) (\<lambda>(partition, frame_buf).
     obind (must (get_u32 bx frame_buf)) (\<lambda>(payload_len_raw, frame_buf).
     let payload_len = unat payload_len_raw in
     if length frame_buf < payload_len
     then Err (FrameTooShort payload_len (length frame_buf))
     else
     obind (must (split_to bx payload_len frame_buf)) (\<lambda>(payload, frame_buf).
     Ok (Some \<lparr> fr_magic = magic, fr_api_key = api_key, fr_correlation_id = correlation_id,
                fr_topic = from_bytes topic_bytes, fr_partition = partition,
                fr_payload = payload \<rparr>))))))))))"

definition frame_decode :: "bytes_ops \<Rightarrow> bytes \<Rightarrow> frame option res \<times> bytes" where
  "frame_decode bx src =
     (if length src < 4 then (Ok None, src)
      else let total_len = unat (be_word (take 4 src) :: u32) in
      if total_len > MAX_FRAME_SIZE then (Err (FrameTooLarge MAX_FRAME_SIZE total_len), src)
      else if total_len < MIN_HEADER_SIZE then (Err (FrameTooShort MIN_HEADER_SIZE total_len), src)
      else if length src < 4 + total_len then (Ok None, src)
      else case advance bx 4 src of
        None \<Rightarrow> (Panic, src)
      | Some src \<Rightarrow>
         (case split_to bx total_len src of
            None \<Rightarrow> (Panic, src)
          | Some (frame_buf, src) \<Rightarrow> (frame_decode_body bx frame_buf, src)))"

text \<open>\<open>RukaCodec\<close> delegates both directions to \<open>Frame\<close>.\<close>

definition codec_decode :: "bytes_ops \<Rightarrow> bytes \<Rightarrow> frame option res \<times> bytes" where
  "codec_decode bx src = frame_decode bx src"

definition codec_encode :: "bytes_ops \<Rightarrow> frame \<Rightarrow> bytes \<Rightarrow> unit res \<times> bytes" where
  "codec_encode bx item dst = (Ok (), frame_encode bx item dst)"

section \<open>The layout of a frame\<close>

text \<open>The bytes of a frame after the length prefix, and the whole frame.\<close>

definition body_bytes :: "frame \<Rightarrow> bytes" where
  "body_bytes f =
     word_be (fr_magic f) @ word_be (as_u16 (fr_api_key f)) @ word_be (fr_correlation_id f) @
     word_be (of_nat (length (fr_topic f)) :: u16) @ as_bytes (fr_topic f) @
     word_be (fr_partition f) @ word_be (of_nat (length (fr_payload f)) :: u32) @ fr_payload f"

definition wire_bytes :: "frame \<Rightarrow> bytes" where
  "wire_bytes f = word_be (of_nat (body_len f) :: u32) @ body_bytes f"

text \<open>The frames that travel: what a decoder may return.\<close>

definition wf_frame :: "frame \<Rightarrow> bool" where
  "wf_frame f \<longleftrightarrow>
     fr_magic f = MAGIC_BYTE \<and> valid_string (fr_topic f) \<and> length (fr_topic f) \<le> 255 \<and>
     (fr_topic f = [] \<longrightarrow> fr_api_key f = Error) \<and> body_len f \<le> MAX_FRAME_SIZE"

lemma length_body_bytes [simp]: "length (body_bytes f) = body_len f"
  by (simp add: body_bytes_def body_len_def)

lemma body_len_ge: "MIN_HEADER_SIZE \<le> body_len f"
  by (simp add: body_len_def MIN_HEADER_SIZE_def)

lemma frame_size_u32: "n \<le> MAX_FRAME_SIZE \<Longrightarrow> unat (of_nat n :: u32) = n"
  by (rule unat_of_nat_u32) (simp add: MAX_FRAME_SIZE_def)

lemma wf_frame_lengths:
  assumes "wf_frame f"
  shows "unat (of_nat (length (fr_topic f)) :: u16) = length (fr_topic f)"
    and "unat (of_nat (length (fr_payload f)) :: u32) = length (fr_payload f)"
    and "unat (of_nat (body_len f) :: u32) = body_len f"
proof -
  show "unat (of_nat (length (fr_topic f)) :: u16) = length (fr_topic f)"
    using assms by (simp add: wf_frame_def unat_of_nat)
  have "length (fr_payload f) \<le> MAX_FRAME_SIZE" "body_len f \<le> MAX_FRAME_SIZE"
    using assms by (simp_all add: wf_frame_def body_len_def)
  then show "unat (of_nat (length (fr_payload f)) :: u32) = length (fr_payload f)"
    and "unat (of_nat (body_len f) :: u32) = body_len f"
    by (simp_all add: frame_size_u32)
qed

lemma body_bytes_fields:
  assumes "length tb = unat (tlen :: u16)" "length p = unat (plen :: u32)"
  shows "word_be m @ word_be (as_u16 k) @ word_be c @ word_be tlen @ tb @ word_be part @
      word_be plen @ p @ extra =
    body_bytes \<lparr> fr_magic = m, fr_api_key = k, fr_correlation_id = c, fr_topic = from_bytes tb,
      fr_partition = part, fr_payload = p \<rparr> @ extra"
  using assms by (simp add: body_bytes_def)

context bytes_crate
begin

lemma frame_encode_eq: "frame_encode bx f dst = dst @ wire_bytes f"
  by (simp add: frame_encode_def writer_laws wire_bytes_def body_bytes_def Let_def)

text \<open>Decoding the body of a frame, with whatever follows the payload inside it.\<close>

lemma decode_body_eq:
  assumes "wf_frame f"
  shows "frame_decode_body bx (body_bytes f @ extra) = Ok (Some f)"
proof -
  have split_topic: "split_to bx (length (fr_topic f)) (as_bytes (fr_topic f) @ r) =
      Some (as_bytes (fr_topic f), r)" for r
    using split_back [of "as_bytes (fr_topic f)" r] by simp
  show ?thesis
    using assms wf_frame_lengths [OF assms]
    by (simp add: frame_decode_body_def body_bytes_def read_back split_topic split_back
        wf_frame_def valid_string_def Let_def)
qed

lemma decode_wire:
  assumes "length src = n" "MIN_HEADER_SIZE \<le> n" "n \<le> MAX_FRAME_SIZE"
  shows "frame_decode bx (word_be (of_nat n :: u32) @ src @ rest) =
    (frame_decode_body bx src, rest)"
proof -
  have "advance bx 4 (word_be (of_nat n :: u32) @ r) = Some r" for r
    using advance_back [of "word_be (of_nat n :: u32)" r] by simp
  then show ?thesis
    using assms split_back [of src rest]
    by (simp add: frame_decode_def be_simps frame_size_u32 Let_def)
qed

text \<open>A body that decodes is the layout of the frame it decodes to, and possibly more bytes.\<close>

lemma decode_body_Ok:
  assumes "frame_decode_body bx b = Ok r" "length b \<le> MAX_FRAME_SIZE"
  shows "\<exists>f extra. r = Some f \<and> b = body_bytes f @ extra \<and> wf_frame f"
  using assms unfolding frame_decode_body_def Let_def
  by (clarsimp simp: must_eq_Ok obind_eq_Ok api_key_try_from_Ok get_u8_Some get_u16_Some
        get_u32_Some split_to_Some split: if_splits)
     (intro exI conjI, rule body_bytes_fields, assumption, assumption,
      auto simp: wf_frame_def body_len_def valid_string_def)

lemma decode_topic_no_panic:
  assumes "8 + n \<le> length b"
  shows "\<exists>tb (p :: u32) (l :: u32) r. b = tb @ word_be p @ word_be l @ r \<and> length tb = n"
proof -
  have "4 \<le> length (drop n b)"
    using assms by simp
  then obtain p r1 where "drop n b = word_be (p :: u32) @ r1" and r1: "length (drop n b) = 4 + length r1"
    using front_u32 [of "drop n b"] by blast
  moreover have "4 \<le> length r1"
    using r1 assms by simp
  then obtain l r where "r1 = word_be (l :: u32) @ r"
    using front_u32 [of r1] by blast
  ultimately show ?thesis
    using assms append_take_drop_id [of n b]
    by (intro exI [of _ "take n b"] exI [of _ p] exI [of _ l] exI [of _ r]) simp
qed

lemma decode_body_no_panic:
  assumes "MIN_HEADER_SIZE \<le> length b"
  shows "frame_decode_body bx b \<noteq> Panic"
proof -
  obtain m r1 where "b = word_be (m :: u8) @ r1" "length b = 1 + length r1"
    using front_u8 [of b] assms by (auto simp: MIN_HEADER_SIZE_def)
  moreover from this obtain k r2 where "r1 = word_be (k :: u16) @ r2" "length r1 = 2 + length r2"
    using front_u16 [of r1] assms by (auto simp: MIN_HEADER_SIZE_def)
  moreover from calculation obtain c r3 where "r2 = word_be (c :: u32) @ r3" "length r2 = 4 + length r3"
    using front_u32 [of r2] assms by (auto simp: MIN_HEADER_SIZE_def)
  moreover from calculation obtain t r where r: "r3 = word_be (t :: u16) @ r" "length r3 = 2 + length r"
    using front_u16 [of r3] assms by (auto simp: MIN_HEADER_SIZE_def)
  ultimately have b: "b = word_be m @ word_be k @ word_be c @ word_be t @ r"
    by simp
  show ?thesis
  proof (cases "length r < unat t + 4 + 4")
    case True
    then show ?thesis
      by (cases "api_key_try_from k")
        (simp_all add: b frame_decode_body_def read_back Let_def)
  next
    case False
    then obtain tb p l r' where r: "r = tb @ word_be (p :: u32) @ word_be (l :: u32) @ r'"
        "length tb = unat t"
      using decode_topic_no_panic [of "unat t" r] by auto
    have "split_to bx (unat t) (tb @ x) = Some (tb, x)" for x
      using r(2) split_back [of tb x] by simp
    then show ?thesis
      using False
      by (cases "api_key_try_from k")
        (simp_all add: b r frame_decode_body_def read_back split_to Let_def)
  qed
qed

lemma frame_decode_cases:
  assumes "\<not> length src < 4" "tot = unat (be_word (take 4 src) :: u32)"
    "\<not> tot > MAX_FRAME_SIZE" "\<not> tot < MIN_HEADER_SIZE" "\<not> length src < 4 + tot"
  shows "frame_decode bx src =
    (frame_decode_body bx (take tot (drop 4 src)), drop (4 + tot) src)"
  using assms by (auto simp: frame_decode_def reader_laws Let_def add.commute)

lemma decode_no_panic: "fst (frame_decode bx src) \<noteq> Panic"
proof (cases "length src < 4")
  case False
  define tot where "tot = unat (be_word (take 4 src) :: u32)"
  show ?thesis
  proof (cases "tot > MAX_FRAME_SIZE \<or> tot < MIN_HEADER_SIZE \<or> length src < 4 + tot")
    case True
    with False show ?thesis
      by (auto simp: frame_decode_def Let_def tot_def)
  next
    case no_error: False
    then have "frame_decode bx src =
        (frame_decode_body bx (take tot (drop 4 src)), drop (4 + tot) src)"
      using False by (intro frame_decode_cases) (auto simp: tot_def)
    moreover have "MIN_HEADER_SIZE \<le> length (take tot (drop 4 src))"
      using no_error by simp linarith
    ultimately show ?thesis
      using decode_body_no_panic [of "take tot (drop 4 src)"] by simp
  qed
qed (simp add: frame_decode_def)

lemma decode_shrinks: "length (snd (frame_decode bx src)) \<le> length src"
proof -
  define tot where "tot = unat (be_word (take 4 src) :: u32)"
  show ?thesis
  proof (cases "length src < 4 \<or> tot > MAX_FRAME_SIZE \<or> tot < MIN_HEADER_SIZE \<or> length src < 4 + tot")
    case True
    then show ?thesis
      by (auto simp: frame_decode_def Let_def tot_def)
  next
    case False
    then have "frame_decode bx src = (frame_decode_body bx (take tot (drop 4 src)), drop (4 + tot) src)"
      by (intro frame_decode_cases) (auto simp: tot_def)
    then show ?thesis
      by simp
  qed
qed

lemma decode_Some:
  assumes "frame_decode bx src = (Ok (Some f), rest)"
  shows "\<exists>extra. src = word_be (of_nat (body_len f + length extra) :: u32) @ body_bytes f @ extra @ rest
    \<and> body_len f + length extra \<le> MAX_FRAME_SIZE \<and> wf_frame f"
proof -
  define tot where "tot = unat (be_word (take 4 src) :: u32)"
  have bounds: "\<not> length src < 4" "\<not> tot > MAX_FRAME_SIZE" "\<not> tot < MIN_HEADER_SIZE"
      "\<not> length src < 4 + tot"
    using assms by (auto simp: frame_decode_def Let_def tot_def split: if_splits)
  then have eq: "frame_decode bx src =
      (frame_decode_body bx (take tot (drop 4 src)), drop (4 + tot) src)"
    by (intro frame_decode_cases) (auto simp: tot_def)
  with assms have body: "frame_decode_body bx (take tot (drop 4 src)) = Ok (Some f)"
    and rest: "rest = drop (4 + tot) src"
    by simp_all
  obtain extra where extra: "take tot (drop 4 src) = body_bytes f @ extra" "wf_frame f"
    using decode_body_Ok [OF body] bounds by auto
  have tot: "tot = body_len f + length extra"
    using arg_cong [OF extra(1), of length] bounds by simp
  have "src = take 4 src @ take tot (drop 4 src) @ drop (4 + tot) src"
    by (metis append_take_drop_id drop_drop add.commute)
  moreover have "take 4 src = word_be (of_nat tot :: u32)"
    using bounds(1) by (simp add: tot_def word_be_round)
  ultimately show ?thesis
    using extra rest tot bounds by auto
qed

text \<open>Whatever a decoder makes of an encoded frame, it sees the frame's API key.\<close>

lemma decode_key:
  assumes "frame_decode bx (frame_encode bx f []) = (Ok (Some x), rest)"
  shows "fr_api_key x = fr_api_key f"
proof -
  obtain extra where "wire_bytes f = word_be (of_nat (body_len x + length extra) :: u32) @ body_bytes x @ extra @ rest"
    using decode_Some [OF assms] by (auto simp: frame_encode_eq)
  then have "word_be (as_u16 (fr_api_key f)) = word_be (as_u16 (fr_api_key x))"
    by (simp add: wire_bytes_def body_bytes_def)
  then have "as_u16 (fr_api_key f) = as_u16 (fr_api_key x)"
    by (metis be_simps)
  then show ?thesis
    by (cases "fr_api_key f"; cases "fr_api_key x") simp_all
qed

lemma decode_prefix:
  assumes "wf_frame f" "n < length (wire_bytes f)"
  shows "frame_decode bx (take n (wire_bytes f)) = (Ok None, take n (wire_bytes f))"
proof (cases "n < 4")
  case True
  then have "length (take n (wire_bytes f)) < 4"
    by simp
  then show ?thesis
    by (simp add: frame_decode_def)
next
  case False
  then have "take 4 (take n (wire_bytes f)) = word_be (of_nat (body_len f) :: u32)"
    by (simp add: wire_bytes_def min_def)
  moreover have "body_len f \<le> MAX_FRAME_SIZE"
    using assms(1) by (simp add: wf_frame_def)
  ultimately show ?thesis
    using False assms body_len_ge [of f] wf_frame_lengths(3) [OF assms(1)]
    by (simp add: frame_decode_def Let_def be_simps wire_bytes_def)
qed

end

lemma frame_decode_wire_bytes:
  assumes "bytes_crate bx" "wf_frame f"
  shows "frame_decode bx (frame_encode bx f [] @ rest) = (Ok (Some f), rest)"
proof -
  have "body_len f \<le> MAX_FRAME_SIZE"
    using assms(2) by (simp add: wf_frame_def)
  then show ?thesis
    using bytes_crate.decode_wire [OF assms(1), of "body_bytes f" "body_len f" rest]
      bytes_crate.decode_body_eq [OF assms, of "[]"] body_len_ge [of f]
    by (simp add: bytes_crate.frame_encode_eq [OF assms(1)] wire_bytes_def)
qed

section \<open>Properties of frames\<close>

text \<open>C30: Encoding appends the frame to whatever the output buffer holds, and decoding what was
  appended gives the frame back and consumes exactly its bytes, whatever follows. Every strict
  prefix of them is left in the buffer untouched and the decoder asks for more input, so
  frames survive any fragmentation of the stream.\<close>

theorem frame_roundtrip:
  assumes "bytes_crate bx" "wf_frame f"
  shows "\<exists>w. frame_encode bx f dst = dst @ w \<and> frame_decode bx (w @ rest) = (Ok (Some f), rest) \<and>
    (\<forall>n < length w. frame_decode bx (take n w) = (Ok None, take n w))"
  using frame_decode_wire_bytes [OF assms] bytes_crate.decode_prefix [OF assms]
  by (simp add: bytes_crate.frame_encode_eq [OF assms(1)])

definition sample_frame :: frame where
  "sample_frame =
     \<lparr> fr_magic = MAGIC_BYTE, fr_api_key = Produce, fr_correlation_id = 42,
       fr_topic = ''t'', fr_partition = 0, fr_payload = [104, 105] \<rparr>"

lemma wf_sample_frame: "wf_frame sample_frame"
  by (simp add: wf_frame_def sample_frame_def body_len_def MAX_FRAME_SIZE_def valid_string_def
      as_bytes_def)

theorem frame_roundtrip_witness:
  "wf_frame sample_frame \<and>
   (\<exists>w. frame_encode be_ops sample_frame [1] = [1] @ w \<and>
      frame_decode be_ops (w @ [7]) = (Ok (Some sample_frame), [7]) \<and>
      (\<forall>n < length w. frame_decode be_ops (take n w) = (Ok None, take n w)))"
  using frame_roundtrip [OF be.bytes_crate_axioms wf_sample_frame] wf_sample_frame by blast

text \<open>C32: Exactly which inputs decode to a frame: a length prefix, the layout of a well-formed
  frame, and inside the announced length any further bytes, which are dropped.\<close>

theorem frame_decode_accepts:
  assumes "bytes_crate bx"
  shows "frame_decode bx src = (Ok (Some f), rest) \<longleftrightarrow>
    wf_frame f \<and>
    (\<exists>extra. body_len f + length extra \<le> MAX_FRAME_SIZE \<and>
       src = word_be (of_nat (body_len f + length extra) :: u32) @ body_bytes f @ extra @ rest)"
    (is "?lhs \<longleftrightarrow> ?rhs")
proof
  assume ?lhs
  then show ?rhs
    using bytes_crate.decode_Some [OF assms] by blast
next
  assume ?rhs
  then obtain extra where wf: "wf_frame f" and le: "body_len f + length extra \<le> MAX_FRAME_SIZE"
    and src: "src = word_be (of_nat (body_len f + length extra) :: u32) @ body_bytes f @ extra @ rest"
    by blast
  show ?lhs
    using bytes_crate.decode_wire [OF assms, of "body_bytes f @ extra" "body_len f + length extra" rest]
      bytes_crate.decode_body_eq [OF assms wf] le body_len_ge [of f] src
    by simp
qed

theorem frame_decode_accepts_witness:
  "frame_decode be_ops (word_be (22 :: u32) @ body_bytes sample_frame @ [1, 2] @ [9]) =
     (Ok (Some sample_frame), [9])"
proof -
  have "body_len sample_frame = 20"
    by (simp add: sample_frame_def body_len_def)
  then have "body_len sample_frame + length [1, 2 :: u8] \<le> MAX_FRAME_SIZE \<and>
      word_be (22 :: u32) @ body_bytes sample_frame @ [1, 2] @ [9] =
      word_be (of_nat (body_len sample_frame + length [1, 2 :: u8]) :: u32) @
        body_bytes sample_frame @ [1, 2] @ [9]"
    by (simp add: MAX_FRAME_SIZE_def)
  then show ?thesis
    using frame_decode_accepts [OF be.bytes_crate_axioms] wf_sample_frame by blast
qed

text \<open>C33: The encoder does not enforce the frame limit: a frame with a larger body is written,
  and the decoder on the other side refuses it.\<close>

theorem oversized_frame_refused:
  assumes "bytes_crate bx" "MAX_FRAME_SIZE < body_len f" "body_len f < 2 ^ 32"
  shows "frame_decode bx (frame_encode bx f [] @ rest) =
    (Err (FrameTooLarge MAX_FRAME_SIZE (body_len f)), frame_encode bx f [] @ rest)"
  using assms(2,3)
  by (simp add: frame_decode_def bytes_crate.frame_encode_eq [OF assms(1)] wire_bytes_def be_simps
      unat_of_nat_u32 Let_def)

definition huge_frame :: frame where
  "huge_frame = sample_frame \<lparr> fr_payload := replicate MAX_FRAME_SIZE 0 \<rparr>"

theorem oversized_frame_refused_witness:
  "fst (frame_decode be_ops (frame_encode be_ops huge_frame [] @ [])) =
     Err (FrameTooLarge 16777216 16777234)"
proof -
  have "body_len huge_frame = 16777234"
    by (simp add: huge_frame_def sample_frame_def body_len_def MAX_FRAME_SIZE_def)
  then show ?thesis
    using oversized_frame_refused [OF be.bytes_crate_axioms, of huge_frame "[]"]
    by (simp add: MAX_FRAME_SIZE_def)
qed

end
