(* ===== verification/Ruka_Request.thy ===== *)
theory Ruka_Request
  imports Ruka_Frame
begin

text \<open>
  Typed requests over frames: \<open>protocol/request.rs\<close>. \<open>request_from_frame\<close> is
  \<open>Request::from_frame\<close>, the three \<open>into_frame\<close> functions are the client's direction.
\<close>

record produce_request =
  pr_correlation_id :: u32
  pr_topic :: string
  pr_partition :: u32
  pr_payload :: bytes

record produce_batch_request =
  pb_correlation_id :: u32
  pb_topic :: string
  pb_partition :: u32
  pb_payloads :: "bytes list"

record fetch_request =
  fq_correlation_id :: u32
  fq_topic :: string
  fq_partition :: u32
  fq_offset :: u64
  fq_max_bytes :: u32

datatype request =
    Req_Produce produce_request
  | Req_ProduceBatch produce_batch_request
  | Req_Fetch fetch_request

text \<open>The loop of \<open>from_frame\<close> over the messages of a batch.\<close>

fun read_payloads :: "bytes_ops \<Rightarrow> nat \<Rightarrow> bytes \<Rightarrow> bytes list \<Rightarrow> (bytes list \<times> bytes) res" where
  "read_payloads bx 0 payload payloads = Ok (payloads, payload)"
| "read_payloads bx (Suc n) payload payloads =
     (if length payload < 4 then Err (FrameTooShort 4 (length payload))
      else obind (must (get_u32 bx payload)) (\<lambda>(msg_len_raw, payload).
        let msg_len = unat msg_len_raw in
        if length payload < msg_len then Err (FrameTooShort msg_len (length payload))
        else obind (must (copy_to_bytes bx msg_len payload)) (\<lambda>(msg, payload).
          read_payloads bx n payload (payloads @ [msg]))))"

definition request_from_frame :: "bytes_ops \<Rightarrow> frame \<Rightarrow> request res" where
  "request_from_frame bx f =
     (case fr_api_key f of
        Error \<Rightarrow> Err (InvalidFrame ''Client cannot send Error frames'')
      | Produce \<Rightarrow>
          Ok (Req_Produce
            \<lparr> pr_correlation_id = fr_correlation_id f, pr_topic = fr_topic f,
              pr_partition = fr_partition f, pr_payload = fr_payload f \<rparr>)
      | ProduceBatch \<Rightarrow>
          (if length (fr_payload f) < 4 then Err (FrameTooShort 4 (length (fr_payload f)))
           else obind (must (get_u32 bx (fr_payload f))) (\<lambda>(batch_len, payload).
             obind (read_payloads bx (unat batch_len) payload []) (\<lambda>(payloads, payload).
             if payload \<noteq> [] then Err (InvalidFrame ''trailing bytes in batch payload'')
             else Ok (Req_ProduceBatch
               \<lparr> pb_correlation_id = fr_correlation_id f, pb_topic = fr_topic f,
                 pb_partition = fr_partition f, pb_payloads = payloads \<rparr>))))
      | Fetch \<Rightarrow>
          (if length (fr_payload f) \<noteq> 12 then Err (FrameTooShort 12 (length (fr_payload f)))
           else obind (must (get_u64 bx (fr_payload f))) (\<lambda>(offset, payload).
             obind (must (get_u32 bx payload)) (\<lambda>(max_bytes, payload).
             Ok (Req_Fetch
               \<lparr> fq_correlation_id = fr_correlation_id f, fq_topic = fr_topic f,
                 fq_partition = fr_partition f, fq_offset = offset, fq_max_bytes = max_bytes \<rparr>)))))"

text \<open>
  The number of elements for which \<open>from_frame\<close> reserves room, \<open>Vec::with_capacity(batch_len)\<close>,
  before it reads the messages, and the whole function with an allocator that grants at most
  \<open>mem\<close> elements: \<open>None\<close> is the abort of the process when it does not grant them. The
  other theories use \<open>request_from_frame\<close>, with allocations that succeed.
\<close>

definition batch_capacity :: "bytes_ops \<Rightarrow> frame \<Rightarrow> nat" where
  "batch_capacity bx f =
     (case fr_api_key f of
        ProduceBatch \<Rightarrow>
          (if length (fr_payload f) < 4 then 0
           else case get_u32 bx (fr_payload f) of None \<Rightarrow> 0 | Some (batch_len, _) \<Rightarrow> unat batch_len)
      | _ \<Rightarrow> 0)"

definition request_from_frame_in :: "nat \<Rightarrow> bytes_ops \<Rightarrow> frame \<Rightarrow> request res option" where
  "request_from_frame_in mem bx f =
     (if batch_capacity bx f \<le> mem then Some (request_from_frame bx f) else None)"

definition produce_into_frame :: "produce_request \<Rightarrow> frame" where
  "produce_into_frame r =
     \<lparr> fr_magic = MAGIC_BYTE, fr_api_key = Produce, fr_correlation_id = pr_correlation_id r,
       fr_topic = pr_topic r, fr_partition = pr_partition r, fr_payload = pr_payload r \<rparr>"

fun put_payloads :: "bytes_ops \<Rightarrow> bytes list \<Rightarrow> bytes \<Rightarrow> bytes" where
  "put_payloads bx [] payload = payload"
| "put_payloads bx (p # ps) payload =
     put_payloads bx ps (put_slice bx p (put_u32 bx (of_nat (length p)) payload))"

definition produce_batch_into_frame :: "bytes_ops \<Rightarrow> produce_batch_request \<Rightarrow> frame" where
  "produce_batch_into_frame bx r =
     \<lparr> fr_magic = MAGIC_BYTE, fr_api_key = ProduceBatch, fr_correlation_id = pb_correlation_id r,
       fr_topic = pb_topic r, fr_partition = pb_partition r,
       fr_payload = put_payloads bx (pb_payloads r)
         (put_u32 bx (of_nat (length (pb_payloads r))) []) \<rparr>"

definition fetch_into_frame :: "bytes_ops \<Rightarrow> fetch_request \<Rightarrow> frame" where
  "fetch_into_frame bx r =
     \<lparr> fr_magic = MAGIC_BYTE, fr_api_key = Fetch, fr_correlation_id = fq_correlation_id r,
       fr_topic = fq_topic r, fr_partition = fq_partition r,
       fr_payload = put_u32 bx (fq_max_bytes r) (put_u64 bx (fq_offset r) []) \<rparr>"

section \<open>The layout of a batch\<close>

definition payload_field :: "bytes \<Rightarrow> bytes" where
  "payload_field p = word_be (of_nat (length p) :: u32) @ p"

definition batch_bytes :: "bytes list \<Rightarrow> bytes" where
  "batch_bytes ps = word_be (of_nat (length ps) :: u32) @ concat (map payload_field ps)"

text \<open>The batches whose count and lengths fit their 32-bit fields.\<close>

definition wf_batch :: "bytes list \<Rightarrow> bool" where
  "wf_batch ps \<longleftrightarrow> length ps < 2 ^ 32 \<and> (\<forall>p \<in> set ps. length p < 2 ^ 32)"

fun request_frame :: "bytes_ops \<Rightarrow> request \<Rightarrow> frame" where
  "request_frame bx (Req_Produce r) = produce_into_frame r"
| "request_frame bx (Req_ProduceBatch r) = produce_batch_into_frame bx r"
| "request_frame bx (Req_Fetch r) = fetch_into_frame bx r"

fun wf_request :: "request \<Rightarrow> bool" where
  "wf_request (Req_ProduceBatch r) \<longleftrightarrow> wf_batch (pb_payloads r)"
| "wf_request r \<longleftrightarrow> True"

context bytes_crate
begin

lemma put_payloads_eq: "put_payloads bx ps b = b @ concat (map payload_field ps)"
  by (induction ps arbitrary: b) (simp_all add: writer_laws payload_field_def)

lemma batch_payload_eq:
  "fr_payload (produce_batch_into_frame bx r) = batch_bytes (pb_payloads r)"
  by (simp add: produce_batch_into_frame_def put_payloads_eq writer_laws batch_bytes_def)

lemma read_payloads_fields:
  assumes "\<forall>p \<in> set ps. length p < 2 ^ 32"
  shows "read_payloads bx (length ps) (concat (map payload_field ps) @ rest) acc = Ok (acc @ ps, rest)"
  using assms
proof (induction ps arbitrary: acc)
  case (Cons p ps)
  then have "unat (of_nat (length p) :: u32) = length p"
    by (intro unat_of_nat_u32) simp
  then show ?case
    using Cons by (simp add: payload_field_def read_back copy_back Let_def)
qed simp

lemma read_payloads_Ok:
  assumes "read_payloads bx n b acc = Ok (ps, rest)"
  shows "\<exists>new. ps = acc @ new \<and> length new = n \<and> b = concat (map payload_field new) @ rest
    \<and> (\<forall>p \<in> set new. length p < 2 ^ 32)"
  using assms
proof (induction n arbitrary: b acc)
  case (Suc n)
  from Suc.prems obtain l b1 msg b2 where "get_u32 bx b = Some (l, b1)"
      "copy_to_bytes bx (unat l) b1 = Some (msg, b2)"
    and rec: "read_payloads bx n b2 (acc @ [msg]) = Ok (ps, rest)"
    by (auto simp: obind_eq_Ok must_eq_Ok Let_def split: if_splits)
  then have b: "b = word_be l @ msg @ b2" "length msg = unat l"
    by (simp_all add: get_u32_Some copy_to_bytes_Some)
  from Suc.IH [OF rec] obtain new where new: "ps = (acc @ [msg]) @ new" "length new = n"
      "b2 = concat (map payload_field new) @ rest" "\<forall>p \<in> set new. length p < 2 ^ 32"
    by blast
  have "payload_field msg = word_be l @ msg"
    using b(2) by (simp add: payload_field_def)
  with b new unat_u32_less [of l] show ?case
    by (intro exI [of _ "msg # new"]) simp
qed simp

lemma read_payloads_no_panic: "read_payloads bx n b acc \<noteq> Panic"
proof (induction n arbitrary: b acc)
  case (Suc n)
  show ?case
  proof (cases "length b < 4")
    case False
    then obtain l r where b: "b = word_be (l :: u32) @ r"
      using front_u32 [of b] by auto
    show ?thesis
      using Suc.IH by (simp add: b read_back copy_to_bytes Let_def)
  qed simp
qed simp

lemma from_frame_no_panic: "request_from_frame bx f \<noteq> Panic"
proof (cases "fr_api_key f")
  case ProduceBatch
  show ?thesis
  proof (cases "length (fr_payload f) < 4")
    case False
    then obtain l r where b: "fr_payload f = word_be (l :: u32) @ r"
      using front_u32 [of "fr_payload f"] by auto
    show ?thesis
      using ProduceBatch read_payloads_no_panic [of "unat l" r "[]"]
      by (cases "read_payloads bx (unat l) r []")
        (auto simp: request_from_frame_def b read_back split: if_splits)
  qed (simp add: request_from_frame_def ProduceBatch)
next
  case Fetch
  show ?thesis
  proof (cases "length (fr_payload f) = 12")
    case True
    then obtain off r where off: "fr_payload f = word_be (off :: u64) @ r" "length r = 4"
      using front_u64 [of "fr_payload f"] by auto
    then obtain mx r' where "r = word_be (mx :: u32) @ r'"
      using front_u32 [of r] by auto
    with off Fetch show ?thesis
      by (simp add: request_from_frame_def read_back read_back_end)
  qed (simp add: request_from_frame_def Fetch)
qed (simp_all add: request_from_frame_def)

text \<open>Which frames carry a batch.\<close>

lemma from_frame_batch_Ok:
  assumes "fr_api_key f = ProduceBatch" "request_from_frame bx f = Ok r"
  shows "\<exists>ps. wf_batch ps \<and> fr_payload f = batch_bytes ps \<and>
    r = Req_ProduceBatch \<lparr> pb_correlation_id = fr_correlation_id f, pb_topic = fr_topic f,
      pb_partition = fr_partition f, pb_payloads = ps \<rparr>"
proof -
  from assms obtain l b ps where "get_u32 bx (fr_payload f) = Some (l, b)"
    and ps: "read_payloads bx (unat l) b [] = Ok (ps, [])"
    and r: "r = Req_ProduceBatch \<lparr> pb_correlation_id = fr_correlation_id f, pb_topic = fr_topic f,
      pb_partition = fr_partition f, pb_payloads = ps \<rparr>"
    by (auto simp: request_from_frame_def obind_eq_Ok must_eq_Ok split: if_splits)
  then have l: "fr_payload f = word_be l @ b"
    by (simp add: get_u32_Some)
  from read_payloads_Ok [OF ps] have "length ps = unat l" "b = concat (map payload_field ps)"
      "\<forall>p \<in> set ps. length p < 2 ^ 32"
    by auto
  with l r unat_u32_less [of l] show ?thesis
    by (intro exI [of _ ps]) (simp add: wf_batch_def batch_bytes_def)
qed

lemma length_batch_bytes: "4 + 4 * length ps \<le> length (batch_bytes ps)"
  by (induction ps) (simp_all add: batch_bytes_def payload_field_def)

lemma batch_capacity_accepted:
  assumes "request_from_frame bx f = Ok r"
  shows "batch_capacity bx f \<le> length (fr_payload f) div 4"
proof (cases "fr_api_key f = ProduceBatch")
  case True
  then obtain ps where ps: "wf_batch ps" "fr_payload f = batch_bytes ps"
    using from_frame_batch_Ok [OF _ assms] by blast
  then have "batch_capacity bx f = length ps"
    using True by (simp add: batch_capacity_def batch_bytes_def read_back wf_batch_def unat_of_nat_u32)
  then show ?thesis
    using length_batch_bytes [of ps] ps(2) by simp
qed (simp add: batch_capacity_def split: api_key.split)

lemma from_frame_batch:
  assumes "fr_api_key f = ProduceBatch" "fr_payload f = batch_bytes ps" "wf_batch ps"
  shows "request_from_frame bx f = Ok (Req_ProduceBatch \<lparr> pb_correlation_id = fr_correlation_id f,
    pb_topic = fr_topic f, pb_partition = fr_partition f, pb_payloads = ps \<rparr>)"
  using assms read_payloads_fields [of ps "[]" "[]"]
  by (simp add: request_from_frame_def batch_bytes_def read_back unat_of_nat_u32 wf_batch_def)

lemma from_request_frame:
  assumes "wf_request r"
  shows "request_from_frame bx (request_frame bx r) = Ok r"
proof (cases r)
  case (Req_ProduceBatch b)
  then show ?thesis
    using from_frame_batch [of "request_frame bx r" "pb_payloads b"] assms
    by (simp add: batch_payload_eq) (simp add: produce_batch_into_frame_def)
next
  case (Req_Fetch q)
  then show ?thesis
    using read_back [of _ "[]"] read_back(4)
    by (simp add: request_from_frame_def fetch_into_frame_def writer_laws)
qed (simp add: request_from_frame_def produce_into_frame_def)

end

text \<open>A batch that announces as many messages as the count can say, and has none.\<close>

definition greedy_frame :: frame where
  "greedy_frame =
     \<lparr> fr_magic = MAGIC_BYTE, fr_api_key = ProduceBatch, fr_correlation_id = 0, fr_topic = ''t'',
       fr_partition = 0, fr_payload = word_be (0xFFFFFFFF :: u32) \<rparr>"

context bytes_crate
begin

lemma read_payloads_nothing: "0 < n \<Longrightarrow> read_payloads bx n [] acc = Err (FrameTooShort 4 0)"
  by (cases n) simp_all

lemma greedy_frame_reads:
  "batch_capacity bx greedy_frame = 2 ^ 32 - 1" "request_from_frame bx greedy_frame = Err (FrameTooShort 4 0)"
  using read_payloads_nothing [of "unat (0xFFFFFFFF :: u32)" "[]"]
  by (simp_all add: batch_capacity_def request_from_frame_def greedy_frame_def read_back_end)

end

section \<open>Properties of requests\<close>

text \<open>C34: Every request a client turns into a frame is understood as the same request by the
  broker: produce, batch and fetch requests round-trip through their frames.\<close>

theorem request_roundtrip:
  assumes "bytes_crate bx" "wf_request r"
  shows "request_from_frame bx (request_frame bx r) = Ok r"
  using assms by (rule bytes_crate.from_request_frame)

definition sample_batch :: request where
  "sample_batch = Req_ProduceBatch \<lparr> pb_correlation_id = 7, pb_topic = ''t'', pb_partition = 1,
     pb_payloads = [[1, 2], []] \<rparr>"

theorem request_roundtrip_witness:
  "wf_request sample_batch \<and>
   request_from_frame be_ops (request_frame be_ops sample_batch) = Ok sample_batch"
proof -
  have "wf_request sample_batch"
    by (simp add: sample_batch_def wf_batch_def)
  then show ?thesis
    using request_roundtrip [OF be.bytes_crate_axioms, of sample_batch] by simp
qed

text \<open>C35: No input makes the decoders panic, neither any bytes the frame decoder nor any frame the
  interpretation as a request; but 26 bytes can abort the broker. A batch request reserves room
  for as many messages as its first four payload bytes announce before it looks at the rest.
  Every batch that is accepted announces at most a quarter of its payload's bytes, so it is
  enough to grant that much; but whatever limit below 2^32 - 1 elements the allocator has, some
  26 bytes decode to a frame on which the reservation fails and the process aborts, although the
  frame, once reserved for, is refused because its messages are missing.\<close>

theorem wire_input_aborts_never_panics:
  assumes "bytes_crate bx" "mem < 2 ^ 32 - 1"
  shows "fst (frame_decode bx src) \<noteq> Panic \<and> request_from_frame_in mem bx f \<noteq> Some Panic \<and>
    (request_from_frame bx f = Ok r \<and> length (fr_payload f) div 4 \<le> mem \<longrightarrow>
      request_from_frame_in mem bx f = Some (Ok r)) \<and>
    (\<exists>small x. length small = 26 \<and> frame_decode bx small = (Ok (Some x), []) \<and>
      request_from_frame_in mem bx x = None \<and> request_from_frame bx x = Err (FrameTooShort 4 0))"
proof (intro conjI impI)
  show "fst (frame_decode bx src) \<noteq> Panic" "request_from_frame_in mem bx f \<noteq> Some Panic"
    using bytes_crate.decode_no_panic [OF assms(1)] bytes_crate.from_frame_no_panic [OF assms(1)]
    by (auto simp: request_from_frame_in_def)
  assume "request_from_frame bx f = Ok r \<and> length (fr_payload f) div 4 \<le> mem"
  then show "request_from_frame_in mem bx f = Some (Ok r)"
    using bytes_crate.batch_capacity_accepted [OF assms(1), of f r] by (simp add: request_from_frame_in_def)
next
  have "wf_frame greedy_frame" "length (wire_bytes greedy_frame) = 26"
    by (simp_all add: wf_frame_def greedy_frame_def body_len_def MAX_FRAME_SIZE_def valid_string_def
        as_bytes_def wire_bytes_def)
  then have "length (wire_bytes greedy_frame) = 26" "frame_decode bx (wire_bytes greedy_frame) = (Ok (Some greedy_frame), [])"
    using frame_decode_wire_bytes [OF assms(1), of greedy_frame "[]"] bytes_crate.frame_encode_eq [OF assms(1)] by simp_all
  moreover have "request_from_frame_in mem bx greedy_frame = None"
      "request_from_frame bx greedy_frame = Err (FrameTooShort 4 0)"
    using assms(2) bytes_crate.greedy_frame_reads [OF assms(1)] by (simp_all add: request_from_frame_in_def)
  ultimately show "\<exists>small x. length small = 26 \<and> frame_decode bx small = (Ok (Some x), []) \<and>
      request_from_frame_in mem bx x = None \<and> request_from_frame bx x = Err (FrameTooShort 4 0)"
    by blast
qed

theorem wire_input_aborts_never_panics_witness:
  "request_from_frame_in 1000000 be_ops sample_frame \<noteq> Some Panic \<and>
    (\<exists>small x. length small = 26 \<and> frame_decode be_ops small = (Ok (Some x), []) \<and>
      request_from_frame_in 1000000 be_ops x = None \<and> request_from_frame be_ops x = Err (FrameTooShort 4 0))"
  using wire_input_aborts_never_panics [OF be.bytes_crate_axioms, of 1000000 "[]" sample_frame] by simp

end
