(* ===== verification/Ruka_Response.thy ===== *)
theory Ruka_Response
  imports Ruka_Frame
begin

text \<open>Responses and their frames: \<open>protocol/response.rs\<close>.\<close>

record produce_response =
  ps_correlation_id :: u32
  ps_topic :: string
  ps_partition :: u32
  ps_offset :: u64

record produce_batch_response =
  bs_correlation_id :: u32
  bs_topic :: string
  bs_partition :: u32
  bs_base_offset :: u64

record fetch_response =
  fs_correlation_id :: u32
  fs_topic :: string
  fs_partition :: u32
  fs_payload :: bytes

record error_response =
  es_correlation_id :: u32
  es_error_code :: error_code
  es_error_message :: string

datatype response =
    Resp_Produce produce_response
  | Resp_ProduceBatch produce_batch_response
  | Resp_Fetch fetch_response
  | Resp_Error error_response

definition produce_response_into_frame :: "bytes_ops \<Rightarrow> produce_response \<Rightarrow> frame" where
  "produce_response_into_frame bx r =
     \<lparr> fr_magic = MAGIC_BYTE, fr_api_key = Produce, fr_correlation_id = ps_correlation_id r,
       fr_topic = ps_topic r, fr_partition = ps_partition r,
       fr_payload = put_u64 bx (ps_offset r) [] \<rparr>"

definition produce_batch_response_into_frame :: "bytes_ops \<Rightarrow> produce_batch_response \<Rightarrow> frame" where
  "produce_batch_response_into_frame bx r =
     \<lparr> fr_magic = MAGIC_BYTE, fr_api_key = ProduceBatch, fr_correlation_id = bs_correlation_id r,
       fr_topic = bs_topic r, fr_partition = bs_partition r,
       fr_payload = put_u64 bx (bs_base_offset r) [] \<rparr>"

definition fetch_response_into_frame :: "fetch_response \<Rightarrow> frame" where
  "fetch_response_into_frame r =
     \<lparr> fr_magic = MAGIC_BYTE, fr_api_key = Fetch, fr_correlation_id = fs_correlation_id r,
       fr_topic = fs_topic r, fr_partition = fs_partition r, fr_payload = fs_payload r \<rparr>"

definition error_response_into_frame :: "bytes_ops \<Rightarrow> error_response \<Rightarrow> frame" where
  "error_response_into_frame bx r =
     \<lparr> fr_magic = MAGIC_BYTE, fr_api_key = Error, fr_correlation_id = es_correlation_id r,
       fr_topic = [], fr_partition = 0,
       fr_payload = put_slice bx (as_bytes (es_error_message r))
         (put_u16 bx (error_code_as_u16 (es_error_code r)) []) \<rparr>"

definition from_error :: "u32 \<Rightarrow> error_code \<Rightarrow> string \<Rightarrow> response" where
  "from_error correlation_id code message =
     Resp_Error \<lparr> es_correlation_id = correlation_id, es_error_code = code,
       es_error_message = message \<rparr>"

fun response_into_frame :: "bytes_ops \<Rightarrow> response \<Rightarrow> frame" where
  "response_into_frame bx (Resp_Produce r) = produce_response_into_frame bx r"
| "response_into_frame bx (Resp_ProduceBatch r) = produce_batch_response_into_frame bx r"
| "response_into_frame bx (Resp_Fetch r) = fetch_response_into_frame r"
| "response_into_frame bx (Resp_Error r) = error_response_into_frame bx r"

fun response_correlation_id :: "response \<Rightarrow> u32" where
  "response_correlation_id (Resp_Produce r) = ps_correlation_id r"
| "response_correlation_id (Resp_ProduceBatch r) = bs_correlation_id r"
| "response_correlation_id (Resp_Fetch r) = fs_correlation_id r"
| "response_correlation_id (Resp_Error r) = es_correlation_id r"

section \<open>What a client can read from a response\<close>

text \<open>
  The reading the protocol documentation gives to a response frame: the API key selects
  the variant; offsets are eight big-endian bytes; an error payload is a two-byte code
  followed by the message.
\<close>

definition response_of_frame :: "frame \<Rightarrow> response" where
  "response_of_frame f =
     (case fr_api_key f of
        Produce \<Rightarrow> Resp_Produce \<lparr> ps_correlation_id = fr_correlation_id f, ps_topic = fr_topic f,
          ps_partition = fr_partition f, ps_offset = be_word (fr_payload f) \<rparr>
      | ProduceBatch \<Rightarrow> Resp_ProduceBatch \<lparr> bs_correlation_id = fr_correlation_id f,
          bs_topic = fr_topic f, bs_partition = fr_partition f,
          bs_base_offset = be_word (fr_payload f) \<rparr>
      | Fetch \<Rightarrow> Resp_Fetch \<lparr> fs_correlation_id = fr_correlation_id f, fs_topic = fr_topic f,
          fs_partition = fr_partition f, fs_payload = fr_payload f \<rparr>
      | Error \<Rightarrow> Resp_Error \<lparr> es_correlation_id = fr_correlation_id f,
          es_error_code = error_code_from_u16 (be_word (take 2 (fr_payload f))),
          es_error_message = from_bytes (drop 2 (fr_payload f)) \<rparr>)"

text \<open>A topic that a request frame can carry, and the responses that fit a frame.\<close>

definition wf_topic :: "string \<Rightarrow> bool" where
  "wf_topic t \<longleftrightarrow> t \<noteq> [] \<and> length t \<le> 255 \<and> valid_string t"

fun wf_response :: "response \<Rightarrow> bool" where
  "wf_response (Resp_Produce r) \<longleftrightarrow> wf_topic (ps_topic r)"
| "wf_response (Resp_ProduceBatch r) \<longleftrightarrow> wf_topic (bs_topic r)"
| "wf_response (Resp_Fetch r) \<longleftrightarrow> wf_topic (fs_topic r) \<and>
     17 + length (fs_topic r) + length (fs_payload r) \<le> MAX_FRAME_SIZE"
| "wf_response (Resp_Error r) \<longleftrightarrow> 19 + length (es_error_message r) \<le> MAX_FRAME_SIZE"

context bytes_crate
begin

lemma wf_response_frame:
  assumes "wf_response r"
  shows "wf_frame (response_into_frame bx r)"
  using assms
  by (cases r)
    (auto simp: wf_frame_def wf_topic_def body_len_def produce_response_into_frame_def
      produce_batch_response_into_frame_def fetch_response_into_frame_def
      error_response_into_frame_def writer_laws valid_string_def as_bytes_def MAX_FRAME_SIZE_def)

lemma response_of_into_frame: "response_of_frame (response_into_frame bx r) = r"
  by (cases r)
    (simp_all add: response_of_frame_def produce_response_into_frame_def
      produce_batch_response_into_frame_def fetch_response_into_frame_def
      error_response_into_frame_def writer_laws be_simps)

end

text \<open>C36: Whatever response the broker produces, as long as it fits a frame, the client decodes
  exactly that response from the wire: variant, correlation id, topic, partition, offset or
  records, error code and message.\<close>

theorem response_reaches_client:
  assumes "bytes_crate bx" "wf_response r"
  shows "\<exists>f. frame_decode bx (frame_encode bx (response_into_frame bx r) [] @ rest) = (Ok (Some f), rest)
    \<and> response_of_frame f = r \<and> fr_correlation_id f = response_correlation_id r"
proof -
  have "wf_frame (response_into_frame bx r)"
    using assms by (rule bytes_crate.wf_response_frame)
  then have "frame_decode bx (frame_encode bx (response_into_frame bx r) [] @ rest) =
      (Ok (Some (response_into_frame bx r)), rest)"
    using frame_decode_wire_bytes [OF assms(1)] by blast
  moreover have "fr_correlation_id (response_into_frame bx r) = response_correlation_id r"
    by (cases r) (simp_all add: produce_response_into_frame_def fetch_response_into_frame_def
        produce_batch_response_into_frame_def error_response_into_frame_def)
  ultimately show ?thesis
    using bytes_crate.response_of_into_frame [OF assms(1)] by blast
qed

theorem response_reaches_client_witness:
  "\<exists>f. frame_decode be_ops (frame_encode be_ops (response_into_frame be_ops
      (from_error 5 EC_OffsetNotFound ''gone'')) [] @ []) = (Ok (Some f), []) \<and>
    response_of_frame f = from_error 5 EC_OffsetNotFound ''gone'' \<and>
    fr_correlation_id f = response_correlation_id (from_error 5 EC_OffsetNotFound ''gone'')"
  by (rule response_reaches_client [OF be.bytes_crate_axioms])
    (simp add: from_error_def MAX_FRAME_SIZE_def)

end
