(* ===== verification/Ruka_Broker.thy ===== *)
theory Ruka_Broker
  imports Ruka_Channel Ruka_Open Ruka_Request Ruka_Response
begin

text \<open>
  The broker: the commands of \<open>broker/writer.rs\<close>, the topic registry and the partition actors of
  \<open>storage/topic.rs\<close>, and the request handlers of \<open>broker/handler.rs\<close>.

  A partition actor is a task with a mailbox that owns a partition. A sender of its mailbox is the
  position of the actor, a one-shot reply channel is a position in the list of replies. The
  asynchronous functions are trees of the operations they wait for; everything between two such
  operations is one step. The guards of the registry's lock are never held across such an
  operation, so a section under the lock is one step too.
\<close>

section \<open>Commands and actors\<close>

type_synonym sender = nat
type_synonym reply_id = nat

datatype broker_command =
    Cmd_Produce "bytes option" "bytes option" reply_id
  | Cmd_ProduceBatch "bytes list" reply_id
  | Cmd_Fetch u64 u32 reply_id

fun reply_of :: "broker_command \<Rightarrow> reply_id" where
  "reply_of (Cmd_Produce key val reply) = reply"
| "reply_of (Cmd_ProduceBatch payloads reply) = reply"
| "reply_of (Cmd_Fetch offset max_bytes reply) = reply"

text \<open>What a reply channel holds; \<open>Dropped\<close> is what the receiver sees when the sender is gone.\<close>

datatype reply =
    Waiting
  | OffsetReply "u64 res"
  | RecordsReply "log_record list res"
  | Dropped

record 'q actor =
  ac_partition :: partition
  ac_mailbox :: 'q
  ac_alive :: bool

type_synonym topics = "string \<Rightarrow> (u32 \<Rightarrow> sender option) option"

record registry =
  rg_base_dir :: path
  rg_max_segment_bytes :: u64
  rg_default_partitions :: u32
  rg_sync_level :: sync_level
  rg_channel_capacity :: nat
  rg_topics :: topics

record 'q broker =
  bk_registry :: registry
  bk_actors :: "'q actor list"
  bk_replies :: "reply list"
  bk_world :: world

text \<open>
  The body of the actor's loop: one command is run on the partition and its result is the reply.
  A panic ends the task without a reply.
\<close>

definition actor_handle :: "bytes_ops \<Rightarrow> broker_command \<Rightarrow> partition \<times> world \<Rightarrow> reply option \<times> (partition \<times> world)" where
  "actor_handle bx cmd pw =
     (case cmd of
        Cmd_Produce key val reply \<Rightarrow>
          (case partition_append bx key val pw of
             (Panic, pw') \<Rightarrow> (None, pw') | (res, pw') \<Rightarrow> (Some (OffsetReply res), pw'))
      | Cmd_ProduceBatch payloads reply \<Rightarrow>
          (case partition_append_batch bx payloads pw of
             (Panic, pw') \<Rightarrow> (None, pw') | (res, pw') \<Rightarrow> (Some (OffsetReply res), pw'))
      | Cmd_Fetch offset max_bytes reply \<Rightarrow>
          (case partition_read_batch bx offset max_bytes pw of
             (Panic, pw') \<Rightarrow> (None, pw') | (res, pw') \<Rightarrow> (Some (RecordsReply res), pw')))"

definition live :: "'q broker \<Rightarrow> sender \<Rightarrow> bool" where
  "live b tx \<longleftrightarrow> tx < length (bk_actors b) \<and> ac_alive (bk_actors b ! tx)"

text \<open>One round of the actor's loop; none when its task has ended or its mailbox is empty.\<close>

definition actor_step ::
    "bytes_ops \<Rightarrow> (broker_command, 'q) chan_ops \<Rightarrow> sender \<Rightarrow> 'q broker \<Rightarrow>
     (broker_command \<times> reply option \<times> 'q broker) option" where
  "actor_step bx ch a b =
     (if \<not> live b a then None
      else let actor = bk_actors b ! a in
        case ch_recv ch (ac_mailbox actor) of
          None \<Rightarrow> None
        | Some (cmd, q) \<Rightarrow>
            (case actor_handle bx cmd (ac_partition actor, bk_world b) of
               (None, (p, w)) \<Rightarrow>
                 Some (cmd, None, b \<lparr> bk_actors := (bk_actors b)[a := \<lparr> ac_partition = p, ac_mailbox = q, ac_alive = False \<rparr>],
                   bk_world := w \<rparr>)
             | (Some rep, (p, w)) \<Rightarrow>
                 Some (cmd, Some rep, b \<lparr> bk_actors := (bk_actors b)[a := \<lparr> ac_partition = p, ac_mailbox = q, ac_alive = True \<rparr>],
                   bk_replies := (bk_replies b)[reply_of cmd := rep], bk_world := w \<rparr>)))"

section \<open>The registry\<close>

definition registry_new :: "path \<Rightarrow> u64 \<Rightarrow> u32 \<Rightarrow> sync_level \<Rightarrow> nat \<Rightarrow> registry" where
  "registry_new base_dir max_segment_bytes n_partitions sync capacity =
     \<lparr> rg_base_dir = base_dir, rg_max_segment_bytes = max_segment_bytes,
       rg_default_partitions = n_partitions, rg_sync_level = sync,
       rg_channel_capacity = capacity, rg_topics = Map.empty \<rparr>"

definition find_sender :: "topics \<Rightarrow> string \<Rightarrow> u32 \<Rightarrow> sender option" where
  "find_sender topics topic pid =
     (case topics topic of None \<Rightarrow> None | Some partitions \<Rightarrow> partitions pid)"

text \<open>Opening a partition, making its channel and starting its task.\<close>

definition spawn_partition ::
    "bytes_ops \<Rightarrow> (broker_command, 'q) chan_ops \<Rightarrow> registry \<Rightarrow> string \<Rightarrow> u32 \<Rightarrow>
     ('q actor list \<times> world, ruka_error, sender) prog" where
  "spawn_partition bx ch rg topic pid =
     bindp (on_paths (partition_open_or_create bx topic pid (rg_base_dir rg)
              (rg_max_segment_bytes rg) (rg_sync_level rg))) (\<lambda>p aw.
     case ch_new ch (rg_channel_capacity rg) of
       None \<Rightarrow> (Panic, aw)
     | Some q \<Rightarrow> (Ok (length (fst aw)),
         (fst aw @ [\<lparr> ac_partition = p, ac_mailbox = q, ac_alive = True \<rparr>], snd aw)))"

text \<open>The loops of \<open>load\<close> over the partitions of a topic and over the topics.\<close>

fun load_partitions ::
    "bytes_ops \<Rightarrow> (broker_command, 'q) chan_ops \<Rightarrow> registry \<Rightarrow> string \<Rightarrow> path \<Rightarrow> string list \<Rightarrow>
     (u32 \<Rightarrow> sender option) \<Rightarrow> ('q actor list \<times> world, ruka_error, u32 \<Rightarrow> sender option) prog" where
  "load_partitions bx ch rg topic topic_path [] partition_map aw = (Ok partition_map, aw)"
| "load_partitions bx ch rg topic topic_path (name # names) partition_map aw =
     (if is_dir (snd aw) (topic_path @ [name]) then
        case parse_u32 name of
          Some pid \<Rightarrow>
            bindp (spawn_partition bx ch rg topic pid) (\<lambda>tx.
            load_partitions bx ch rg topic topic_path names (partition_map(pid \<mapsto> tx))) aw
        | None \<Rightarrow> load_partitions bx ch rg topic topic_path names partition_map aw
      else load_partitions bx ch rg topic topic_path names partition_map aw)"

fun load_topics ::
    "bytes_ops \<Rightarrow> (broker_command, 'q) chan_ops \<Rightarrow> registry \<Rightarrow> string list \<Rightarrow> topics \<Rightarrow>
     ('q actor list \<times> world, ruka_error, topics) prog" where
  "load_topics bx ch rg [] topics_map aw = (Ok topics_map, aw)"
| "load_topics bx ch rg (name # names) topics_map aw =
     (let topic_path = rg_base_dir rg @ [name] in
      if is_dir (snd aw) topic_path then
        bindp (on_paths (read_dir topic_path)) (\<lambda>parts.
        bindp (load_partitions bx ch rg name topic_path parts Map.empty) (\<lambda>partition_map.
        load_topics bx ch rg names (topics_map(name \<mapsto> partition_map)))) aw
      else load_topics bx ch rg names topics_map aw)"

definition registry_load ::
    "bytes_ops \<Rightarrow> (broker_command, 'q) chan_ops \<Rightarrow> path \<Rightarrow> u64 \<Rightarrow> u32 \<Rightarrow> sync_level \<Rightarrow> nat \<Rightarrow>
     ('q actor list \<times> world, ruka_error, registry) prog" where
  "registry_load bx ch base_dir max_segment_bytes n_partitions sync capacity aw =
     (let rg = registry_new base_dir max_segment_bytes n_partitions sync capacity in
      if \<not> path_exists (snd aw) base_dir
      then bindp (on_paths (create_dir_all base_dir)) (\<lambda>_. returnp rg) aw
      else bindp (on_paths (read_dir base_dir)) (\<lambda>names.
           bindp (load_topics bx ch rg names Map.empty) (\<lambda>topics_map.
           returnp (rg \<lparr> rg_topics := topics_map \<rparr>))) aw)"

text \<open>
  The section of \<open>get_or_create_partition\<close> under the write lock. The entry of the topic is made
  before the partition is opened and stays when that fails.
\<close>

definition create_partition ::
    "bytes_ops \<Rightarrow> (broker_command, 'q) chan_ops \<Rightarrow> string \<Rightarrow> u32 \<Rightarrow> ('q broker, ruka_error, sender) prog" where
  "create_partition bx ch topic pid b =
     (let rg = bk_registry b;
          partitions = (case rg_topics rg topic of None \<Rightarrow> Map.empty | Some ps \<Rightarrow> ps);
          rg = rg \<lparr> rg_topics := (rg_topics rg)(topic \<mapsto> partitions) \<rparr>
      in case partitions pid of
           Some tx \<Rightarrow> (Ok tx, b \<lparr> bk_registry := rg \<rparr>)
         | None \<Rightarrow>
             (case spawn_partition bx ch rg topic pid (bk_actors b, bk_world b) of
                (Ok tx, (as, w)) \<Rightarrow>
                  (Ok tx, b \<lparr> bk_registry := rg \<lparr> rg_topics := (rg_topics rg)(topic \<mapsto> partitions(pid \<mapsto> tx)) \<rparr>,
                     bk_actors := as, bk_world := w \<rparr>)
              | (Err e, (as, w)) \<Rightarrow> (Err e, b \<lparr> bk_registry := rg, bk_actors := as, bk_world := w \<rparr>)
              | (Panic, (as, w)) \<Rightarrow> (Panic, b \<lparr> bk_registry := rg, bk_actors := as, bk_world := w \<rparr>)))"

section \<open>Asynchronous functions\<close>

datatype 'r async =
    Done 'r
  | Panicked
  | ReadTopics "topics \<Rightarrow> 'r async"
  | WriteTopics string u32 "sender res \<Rightarrow> 'r async"
  | NewReply "reply_id \<Rightarrow> 'r async"
  | Send sender broker_command "bool \<Rightarrow> 'r async"
  | Recv sender reply_id "reply \<Rightarrow> 'r async"

primrec await :: "'a async \<Rightarrow> ('a \<Rightarrow> 'b async) \<Rightarrow> 'b async" where
  "await (Done r) f = f r"
| "await Panicked f = Panicked"
| "await (ReadTopics k) f = ReadTopics (\<lambda>x. await (k x) f)"
| "await (WriteTopics topic pid k) f = WriteTopics topic pid (\<lambda>x. await (k x) f)"
| "await (NewReply k) f = NewReply (\<lambda>x. await (k x) f)"
| "await (Send tx cmd k) f = Send tx cmd (\<lambda>x. await (k x) f)"
| "await (Recv tx rid k) f = Recv tx rid (\<lambda>x. await (k x) f)"

text \<open>
  One step of an asynchronous function; none when it has ended or has to wait. A reply channel
  whose actor is gone has lost its sender: the command was dropped with the mailbox.
\<close>

fun async_step ::
    "bytes_ops \<Rightarrow> (broker_command, 'q) chan_ops \<Rightarrow> 'r async \<Rightarrow> 'q broker \<Rightarrow> ('r async \<times> 'q broker) option" where
  "async_step bx ch (Done r) b = None"
| "async_step bx ch Panicked b = None"
| "async_step bx ch (ReadTopics k) b = Some (k (rg_topics (bk_registry b)), b)"
| "async_step bx ch (WriteTopics topic pid k) b =
     (case create_partition bx ch topic pid b of (r, b') \<Rightarrow> Some (k r, b'))"
| "async_step bx ch (NewReply k) b =
     Some (k (length (bk_replies b)), b \<lparr> bk_replies := bk_replies b @ [Waiting] \<rparr>)"
| "async_step bx ch (Send tx cmd k) b =
     (if \<not> live b tx then Some (k False, b)
      else let actor = bk_actors b ! tx in
        case ch_send ch cmd (ac_mailbox actor) of
          None \<Rightarrow> None
        | Some q \<Rightarrow> Some (k True, b \<lparr> bk_actors := (bk_actors b)[tx := actor \<lparr> ac_mailbox := q \<rparr>] \<rparr>))"
| "async_step bx ch (Recv tx rid k) b =
     (case bk_replies b ! rid of
        Waiting \<Rightarrow> if live b tx then None else Some (k Dropped, b)
      | rep \<Rightarrow> Some (k rep, b))"

definition get_or_create_partition :: "string \<Rightarrow> u32 \<Rightarrow> sender res async" where
  "get_or_create_partition topic pid =
     ReadTopics (\<lambda>map.
     case find_sender map topic pid of
       Some tx \<Rightarrow> Done (Ok tx)
     | None \<Rightarrow> WriteTopics topic pid (\<lambda>r. case r of Panic \<Rightarrow> Panicked | _ \<Rightarrow> Done r))"

definition get_partition :: "string \<Rightarrow> u32 \<Rightarrow> sender res async" where
  "get_partition topic pid =
     ReadTopics (\<lambda>map.
     case find_sender map topic pid of
       Some tx \<Rightarrow> Done (Ok tx)
     | None \<Rightarrow> Done (Err (PartitionNotFound topic pid)))"

section \<open>Request handlers\<close>

definition error_of :: "u32 \<Rightarrow> ruka_error \<Rightarrow> response" where
  "error_of cid e = from_error cid (error_code_from_error e) (error_to_string e)"

text \<open>The end of a handler: the command goes to the actor, and its reply decides the response.\<close>

definition ask_actor ::
    "(broker_command, 'q) chan_ops \<Rightarrow> u32 \<Rightarrow> sender res \<Rightarrow> (reply_id \<Rightarrow> broker_command) \<Rightarrow>
     (reply \<Rightarrow> response) \<Rightarrow> response async" where
  "ask_actor ch cid found cmd respond =
     (case found of
        Panic \<Rightarrow> Panicked
      | Err e \<Rightarrow> Done (error_of cid e)
      | Ok tx \<Rightarrow>
          NewReply (\<lambda>reply.
          Send tx (cmd reply) (\<lambda>sent.
          if \<not> sent then Done (from_error cid EC_ServerError (''Writer task died: '' @ ch_send_error ch))
          else Recv tx reply (\<lambda>rep. Done (respond rep)))))"

definition lost_reply :: "(broker_command, 'q) chan_ops \<Rightarrow> u32 \<Rightarrow> response" where
  "lost_reply ch cid = from_error cid EC_ServerError (''Failed to receive reply: '' @ ch_recv_error ch)"

definition handle_produce :: "(broker_command, 'q) chan_ops \<Rightarrow> produce_request \<Rightarrow> response async" where
  "handle_produce ch req =
     await (get_or_create_partition (pr_topic req) (pr_partition req)) (\<lambda>found.
     ask_actor ch (pr_correlation_id req) found (\<lambda>reply. Cmd_Produce None (Some (pr_payload req)) reply) (\<lambda>rep.
     case rep of
       OffsetReply (Ok offset) \<Rightarrow>
         Resp_Produce \<lparr> ps_correlation_id = pr_correlation_id req, ps_topic = pr_topic req,
           ps_partition = pr_partition req, ps_offset = offset \<rparr>
     | OffsetReply (Err e) \<Rightarrow> error_of (pr_correlation_id req) e
     | _ \<Rightarrow> lost_reply ch (pr_correlation_id req)))"

definition handle_produce_batch :: "(broker_command, 'q) chan_ops \<Rightarrow> produce_batch_request \<Rightarrow> response async" where
  "handle_produce_batch ch req =
     await (get_or_create_partition (pb_topic req) (pb_partition req)) (\<lambda>found.
     ask_actor ch (pb_correlation_id req) found (\<lambda>reply. Cmd_ProduceBatch (pb_payloads req) reply) (\<lambda>rep.
     case rep of
       OffsetReply (Ok base_offset) \<Rightarrow>
         Resp_ProduceBatch \<lparr> bs_correlation_id = pb_correlation_id req, bs_topic = pb_topic req,
           bs_partition = pb_partition req, bs_base_offset = base_offset \<rparr>
     | OffsetReply (Err e) \<Rightarrow> error_of (pb_correlation_id req) e
     | _ \<Rightarrow> lost_reply ch (pb_correlation_id req)))"

text \<open>The payload of a fetch response: the number of records and the records.\<close>

fun encode_records :: "bytes_ops \<Rightarrow> log_record list \<Rightarrow> bytes \<Rightarrow> bytes" where
  "encode_records bx [] payload = payload"
| "encode_records bx (r # rs) payload = encode_records bx rs (record_encode bx r payload)"

definition fetch_payload :: "bytes_ops \<Rightarrow> log_record list \<Rightarrow> bytes" where
  "fetch_payload bx rs = encode_records bx rs (put_u32 bx (of_nat (length rs)) [])"

definition handle_fetch :: "bytes_ops \<Rightarrow> (broker_command, 'q) chan_ops \<Rightarrow> fetch_request \<Rightarrow> response async" where
  "handle_fetch bx ch req =
     await (get_partition (fq_topic req) (fq_partition req)) (\<lambda>found.
     ask_actor ch (fq_correlation_id req) found (\<lambda>reply. Cmd_Fetch (fq_offset req) (fq_max_bytes req) reply) (\<lambda>rep.
     case rep of
       RecordsReply (Ok records) \<Rightarrow>
         if records = [] then error_of (fq_correlation_id req) (OffsetNotFound (fq_offset req))
         else Resp_Fetch \<lparr> fs_correlation_id = fq_correlation_id req, fs_topic = fq_topic req,
           fs_partition = fq_partition req, fs_payload = fetch_payload bx records \<rparr>
     | RecordsReply (Err e) \<Rightarrow> error_of (fq_correlation_id req) e
     | _ \<Rightarrow> lost_reply ch (fq_correlation_id req)))"

fun handle_request :: "bytes_ops \<Rightarrow> (broker_command, 'q) chan_ops \<Rightarrow> request \<Rightarrow> response async" where
  "handle_request bx ch (Req_Produce produce) = handle_produce ch produce"
| "handle_request bx ch (Req_ProduceBatch batch) = handle_produce_batch ch batch"
| "handle_request bx ch (Req_Fetch fetch) = handle_fetch bx ch fetch"

end
