(* ===== verification/Ruka_Connection.thy ===== *)
theory Ruka_Connection
  imports Ruka_Broker
begin

text \<open>
  Connections (\<open>network/connection.rs\<close>), the accept loop (\<open>network/server.rs\<close>), the start of the
  program (\<open>main.rs\<close>), and the whole system: any number of connections and partition actors whose
  steps interleave.

  \<open>tokio_util::codec::Framed\<close> is a library and a parameter of the model: it hands out the frames
  that the codec finds in the bytes received so far, and writes frames that the codec encodes. The
  locale states this documented behaviour. Writing a response is taken to end, with success or an
  error.
\<close>

section \<open>Framed streams\<close>

datatype 'a poll = Pending | Ready 'a

record 'f framed_ops =
  fm_next :: "'f \<Rightarrow> frame res option poll \<times> 'f"
  fm_send :: "frame \<Rightarrow> 'f \<Rightarrow> unit res \<times> 'f"
  fm_receive :: "bytes \<Rightarrow> 'f \<Rightarrow> 'f"
  fm_finish :: "'f \<Rightarrow> 'f"

text \<open>
  Of a stream matter the bytes that were received and not yet decoded, whether the peer has
  finished, and the bytes written to it.
\<close>

locale tokio_framed =
  fixes bx :: bytes_ops
    and fm :: "'f framed_ops"
    and unread :: "'f \<Rightarrow> bytes"
    and finished :: "'f \<Rightarrow> bool"
    and written :: "'f \<Rightarrow> bytes"
  assumes next_frame: "codec_decode bx (unread f) = (Ok (Some x), rest) \<Longrightarrow>
      \<exists>f'. fm_next fm f = (Ready (Some (Ok x)), f') \<and> unread f' = rest \<and>
        finished f' = finished f \<and> written f' = written f"
    and next_pending: "codec_decode bx (unread f) = (Ok None, rest) \<Longrightarrow> \<not> finished f \<Longrightarrow>
      \<exists>f'. fm_next fm f = (Pending, f')"
    and next_end: "codec_decode bx (unread f) = (Ok None, rest) \<Longrightarrow> finished f \<Longrightarrow>
      \<exists>f' e. fm_next fm f = (Ready (if rest = [] then None else Some (Err e)), f') \<and>
        unread f' = rest \<and> written f' = written f"
    and next_error: "codec_decode bx (unread f) = (Err e, rest) \<Longrightarrow>
      \<exists>f'. fm_next fm f = (Ready (Some (Err e)), f') \<and> unread f' = rest \<and> written f' = written f"
    and send_result: "fm_send fm x f = (r, f') \<Longrightarrow>
      unread f' = unread f \<and> finished f' = finished f \<and>
      (case r of
         Ok u \<Rightarrow> fst (codec_encode bx x []) = Ok () \<and> written f' = written f @ snd (codec_encode bx x [])
       | Err e \<Rightarrow> True
       | Panic \<Rightarrow> False)"
    and receive: "unread (fm_receive fm bs f) = unread f @ bs \<and> finished (fm_receive fm bs f) = finished f \<and>
      written (fm_receive fm bs f) = written f"
    and finish: "unread (fm_finish fm f) = unread f \<and> finished (fm_finish fm f) \<and>
      written (fm_finish fm f) = written f"

text \<open>A stream as the three things that matter.\<close>

type_synonym pipe = "bytes \<times> bool \<times> bytes"

definition list_framed :: "bytes_ops \<Rightarrow> pipe framed_ops" where
  "list_framed bx =
     \<lparr> fm_next = (\<lambda>(i, e, out).
         case codec_decode bx i of
           (Ok (Some x), rest) \<Rightarrow> (Ready (Some (Ok x)), (rest, e, out))
         | (Ok None, rest) \<Rightarrow>
             if \<not> e then (Pending, (rest, e, out))
             else if rest = [] then (Ready None, (rest, e, out))
             else (Ready (Some (Err (Io (Io_Error OtherKind ''bytes remaining on stream'')))), (rest, e, out))
         | (Err x, rest) \<Rightarrow> (Ready (Some (Err x)), (rest, e, out))
         | (Panic, rest) \<Rightarrow> (Ready (Some Panic), (rest, e, out))),
       fm_send = (\<lambda>x (i, e, out). (Ok (), (i, e, out @ snd (codec_encode bx x [])))),
       fm_receive = (\<lambda>bs (i, e, out). (i @ bs, e, out)),
       fm_finish = (\<lambda>(i, e, out). (i, True, out)) \<rparr>"

lemma list_framed_simps [simp]:
  "fm_send (list_framed bx) x f = (Ok (), (fst f, fst (snd f), snd (snd f) @ snd (codec_encode bx x [])))"
  "fm_receive (list_framed bx) bs f = (fst f @ bs, snd f)"
  "fm_finish (list_framed bx) f = (fst f, True, snd (snd f))"
  by (simp_all add: list_framed_def case_prod_beta)

lemma list_framed_next:
  "fm_next (list_framed bx) f =
     (case codec_decode bx (fst f) of
        (Ok (Some x), rest) \<Rightarrow> (Ready (Some (Ok x)), (rest, snd f))
      | (Ok None, rest) \<Rightarrow>
          if \<not> fst (snd f) then (Pending, (rest, snd f))
          else if rest = [] then (Ready None, (rest, snd f))
          else (Ready (Some (Err (Io (Io_Error OtherKind ''bytes remaining on stream'')))), (rest, snd f))
      | (Err e, rest) \<Rightarrow> (Ready (Some (Err e)), (rest, snd f))
      | (Panic, rest) \<Rightarrow> (Ready (Some Panic), (rest, snd f)))"
  by (cases f) (simp add: list_framed_def split: prod.split outcome.split option.split)

interpretation pipes: tokio_framed bx "list_framed bx" fst "\<lambda>f. fst (snd f)" "\<lambda>f. snd (snd f)" for bx
  by unfold_locales (auto simp: list_framed_next codec_encode_def)

section \<open>Connections\<close>

text \<open>Where a connection task is: waiting for a frame, handling a request, or ended.\<close>

datatype conn_state = Reading | Handling "response async" | Closed

record 'f connection =
  cn_framed :: 'f
  cn_state :: conn_state

text \<open>One step of \<open>handle_connection\<close>; none when it has ended or has to wait.\<close>

definition connection_step ::
    "bytes_ops \<Rightarrow> (broker_command, 'q) chan_ops \<Rightarrow> 'f framed_ops \<Rightarrow> 'f connection \<Rightarrow> 'q broker \<Rightarrow>
     ('f connection \<times> 'q broker) option" where
  "connection_step bx ch fm cn b =
     (case cn_state cn of
        Closed \<Rightarrow> None
      | Reading \<Rightarrow>
          (case fm_next fm (cn_framed cn) of
             (Pending, f) \<Rightarrow> None
           | (Ready None, f) \<Rightarrow> Some (\<lparr> cn_framed = f, cn_state = Closed \<rparr>, b)
           | (Ready (Some (Ok frame)), f) \<Rightarrow>
               (case request_from_frame bx frame of
                  Ok req \<Rightarrow> Some (\<lparr> cn_framed = f, cn_state = Handling (handle_request bx ch req) \<rparr>, b)
                | _ \<Rightarrow> Some (\<lparr> cn_framed = f, cn_state = Closed \<rparr>, b))
           | (Ready (Some e), f) \<Rightarrow> Some (\<lparr> cn_framed = f, cn_state = Closed \<rparr>, b))
      | Handling (Done response) \<Rightarrow>
          (case fm_send fm (response_into_frame bx response) (cn_framed cn) of
             (Ok u, f) \<Rightarrow> Some (\<lparr> cn_framed = f, cn_state = Reading \<rparr>, b)
           | (e, f) \<Rightarrow> Some (\<lparr> cn_framed = f, cn_state = Closed \<rparr>, b))
      | Handling Panicked \<Rightarrow> Some (cn \<lparr> cn_state := Closed \<rparr>, b)
      | Handling h \<Rightarrow>
          (case async_step bx ch h b of
             None \<Rightarrow> None
           | Some (h', b') \<Rightarrow> Some (cn \<lparr> cn_state := Handling h' \<rparr>, b')))"

section \<open>The whole system\<close>

record ('q, 'f) system =
  sy_broker :: "'q broker"
  sy_conns :: "'f connection list"

text \<open>
  The broker itself moves when a connection or an actor makes a step. The other events come from
  outside: a client connects, sends bytes or finishes sending.
\<close>

datatype 'f event =
    ConnStep nat
  | ActorStep sender broker_command "reply option"
  | Accept 'f
  | Receive nat bytes
  | Finish nat
  | Tick u64

text \<open>The clock of the machine shows another time, a later or an earlier one.\<close>

definition set_clock :: "u64 \<Rightarrow> 'q broker \<Rightarrow> 'q broker" where
  "set_clock now b = b \<lparr> bk_world := (bk_world b) \<lparr> clock := now \<rparr> \<rparr>"

lemma set_clock_simps [simp]:
  "bk_registry (set_clock now b) = bk_registry b" "bk_actors (set_clock now b) = bk_actors b"
  "bk_replies (set_clock now b) = bk_replies b" "bk_world (set_clock now b) = (bk_world b) \<lparr> clock := now \<rparr>"
  by (simp_all add: set_clock_def)

inductive sys_step ::
    "bytes_ops \<Rightarrow> (broker_command, 'q) chan_ops \<Rightarrow> 'f framed_ops \<Rightarrow>
     ('q, 'f) system \<Rightarrow> 'f event \<Rightarrow> ('q, 'f) system \<Rightarrow> bool"
  for bx :: bytes_ops and ch :: "(broker_command, 'q) chan_ops" and fm :: "'f framed_ops" where
  conn: "i < length (sy_conns s) \<Longrightarrow>
    connection_step bx ch fm (sy_conns s ! i) (sy_broker s) = Some (cn, b) \<Longrightarrow>
    sys_step bx ch fm s (ConnStep i) \<lparr> sy_broker = b, sy_conns = (sy_conns s)[i := cn] \<rparr>"
| actor: "actor_step bx ch a (sy_broker s) = Some (cmd, rep, b) \<Longrightarrow>
    sys_step bx ch fm s (ActorStep a cmd rep) (s \<lparr> sy_broker := b \<rparr>)"
| accept: "sys_step bx ch fm s (Accept f)
    (s \<lparr> sy_conns := sy_conns s @ [\<lparr> cn_framed = f, cn_state = Reading \<rparr>] \<rparr>)"
| receive: "i < length (sy_conns s) \<Longrightarrow>
    sys_step bx ch fm s (Receive i bs)
      (s \<lparr> sy_conns := (sy_conns s)[i := (sy_conns s ! i) \<lparr> cn_framed := fm_receive fm bs (cn_framed (sy_conns s ! i)) \<rparr>] \<rparr>)"
| finish: "i < length (sy_conns s) \<Longrightarrow>
    sys_step bx ch fm s (Finish i)
      (s \<lparr> sy_conns := (sy_conns s)[i := (sy_conns s ! i) \<lparr> cn_framed := fm_finish fm (cn_framed (sy_conns s ! i)) \<rparr>] \<rparr>)"
| tick: "sys_step bx ch fm s (Tick now) (s \<lparr> sy_broker := set_clock now (sy_broker s) \<rparr>)"

inductive_cases conn_stepE: "sys_step bx ch fm s (ConnStep i) s'"
inductive_cases actor_stepE: "sys_step bx ch fm s (ActorStep a cmd rep) s'"

fun internal :: "'f event \<Rightarrow> bool" where
  "internal (ConnStep i) = True"
| "internal (ActorStep a cmd rep) = True"
| "internal e = False"

text \<open>Runs of the system all of whose states satisfy a predicate.\<close>

inductive sys_run ::
    "bytes_ops \<Rightarrow> (broker_command, 'q) chan_ops \<Rightarrow> 'f framed_ops \<Rightarrow> (('q, 'f) system \<Rightarrow> bool) \<Rightarrow>
     ('q, 'f) system \<Rightarrow> 'f event list \<Rightarrow> ('q, 'f) system \<Rightarrow> bool"
  for bx :: bytes_ops and ch :: "(broker_command, 'q) chan_ops" and fm :: "'f framed_ops"
    and P :: "('q, 'f) system \<Rightarrow> bool" where
  stop: "P s \<Longrightarrow> sys_run bx ch fm P s [] s"
| more: "P s \<Longrightarrow> sys_step bx ch fm s e t \<Longrightarrow> sys_run bx ch fm P t es u \<Longrightarrow> sys_run bx ch fm P s (e # es) u"

inductive_cases run_moreE: "sys_run bx ch fm P s (e # es) u"

lemma sys_run_mono: "sys_run bx ch fm P s es t \<Longrightarrow> (\<And>s. P s \<Longrightarrow> Q s) \<Longrightarrow> sys_run bx ch fm Q s es t"
  by (induction rule: sys_run.induct) (auto intro: sys_run.intros)

lemma sys_run_append:
  "sys_run bx ch fm P s es t \<Longrightarrow> sys_run bx ch fm P t es' u \<Longrightarrow> sys_run bx ch fm P s (es @ es') u"
  by (induction rule: sys_run.induct) (auto intro: sys_run.intros)

lemma sys_run_ends: "sys_run bx ch fm P s es t \<Longrightarrow> P s \<and> P t"
  by (induction rule: sys_run.induct) auto

text \<open>What every step keeps holds at the end of a run.\<close>

lemma sys_run_keeps:
  assumes "sys_run bx ch fm P s es t" "I s" "\<And>s e t. sys_step bx ch fm s e t \<Longrightarrow> P s \<Longrightarrow> P t \<Longrightarrow> I s \<Longrightarrow> I t"
  shows "I t"
  using assms by (induction rule: sys_run.induct) (auto dest: sys_run_ends)

text \<open>The start of the program: the registry is loaded and there is no connection yet.\<close>

definition broker_start ::
    "bytes_ops \<Rightarrow> (broker_command, 'q) chan_ops \<Rightarrow> broker_config \<Rightarrow> world \<Rightarrow> ('q, 'f) system res" where
  "broker_start bx ch config w =
     (case registry_load bx ch (path_join [] (data_dir config)) (segment_max_bytes config)
             (default_partitions config) (cfg_sync_level config) (channel_capacity config) ([], w) of
        (Ok rg, (as, w)) \<Rightarrow>
          Ok \<lparr> sy_broker = \<lparr> bk_registry = rg, bk_actors = as, bk_replies = [], bk_world = w \<rparr>, sy_conns = [] \<rparr>
      | (Err e, aw) \<Rightarrow> Err e
      | (Panic, aw) \<Rightarrow> Panic)"

end
