(* ===== verification/Ruka_Broker_Steps.thy ===== *)
theory Ruka_Broker_Steps
  imports Ruka_Connection
begin

text \<open>
  What a step of a handler, a connection or an actor can do to the broker; the identity of
  partitions; one actor for each partition; and the bound on the mailboxes.
\<close>

section \<open>Storage calls keep the identity of a partition\<close>

definition keeps :: "(partition \<times> world, ruka_error, 'a) prog \<Rightarrow> bool" where
  "keeps m \<longleftrightarrow> (\<forall>sw. same_partition (fst sw) (fst (snd (m sw))))"

lemma keepsD: "keeps m \<Longrightarrow> m sw = (r, sw') \<Longrightarrow> same_partition (fst sw) (fst sw')"
  unfolding keeps_def by (metis snd_conv)

lemma keepsI: "(\<And>sw r sw'. m sw = (r, sw') \<Longrightarrow> same_partition (fst sw) (fst sw')) \<Longrightarrow> keeps m"
  unfolding keeps_def by (metis surjective_pairing)

lemma keeps_on_segment: "keeps (on_segment i m)"
  by (rule keepsI) (auto simp: on_segment_def zoom_def same_partition_def split: prod.splits)

lemma keeps_rotate: "keeps (partition_rotate i)"
  by (rule keepsI) (auto simp: partition_rotate_def bindp_def on_paths_def on_segment_def zoom_def same_partition_def
      Let_def split: prod.splits outcome.splits)

lemma keeps_bindp:
  assumes "keeps m" "\<And>a. keeps (f a)"
  shows "keeps (bindp m f)"
proof (rule keepsI)
  fix sw r sw'
  assume run: "bindp m f sw = (r, sw')"
  obtain r1 sw1 where one: "m sw = (r1, sw1)" by (meson surj_pair)
  have "same_partition (fst sw1) (fst sw')" if "r1 = Ok a" for a
    using run one that keepsD [OF assms(2)] by (simp add: bindp_def)
  then show "same_partition (fst sw) (fst sw')"
    using run one keepsD [OF assms(1) one] same_partition_trans by (cases r1) (auto simp: bindp_def)
qed

lemma keeps_append: "keeps (partition_append bx key val)"
proof (rule keepsI)
  fix sw r sw'
  assume run: "partition_append bx key val sw = (r, sw')"
  let ?i = "length (pt_segments (fst sw)) - 1"
  obtain r1 sw1 where one: "on_segment ?i (segment_append bx key val) sw = (r1, sw1)" by (meson surj_pair)
  have retry: "keeps (bindp (partition_rotate ?i) (\<lambda>_ sw.
      on_segment (length (pt_segments (fst sw)) - 1) (segment_append bx key val) sw))"
    by (rule keeps_bindp [OF keeps_rotate]) (use keeps_on_segment in \<open>auto simp: keeps_def\<close>)
  show "same_partition (fst sw) (fst sw')"
  proof (cases "\<exists>a b. r1 = Err (SegmentFull a b) \<and> pt_segments (fst sw) \<noteq> []")
    case True
    then have "bindp (partition_rotate ?i) (\<lambda>_ sw.
        on_segment (length (pt_segments (fst sw)) - 1) (segment_append bx key val) sw) sw1 = (r, sw')"
      using run one by (auto simp: partition_append_def Let_def)
    then show ?thesis
      using keepsD [OF retry] same_partition_trans [OF keepsD [OF keeps_on_segment one]] by blast
  next
    case False
    then have "sw' = sw \<or> sw' = sw1"
      using run one by (auto simp: partition_append_def Let_def split: if_splits outcome.splits ruka_error.splits)
    then show ?thesis
      using keepsD [OF keeps_on_segment one] by auto
  qed
qed

lemma keeps_append_batch_loop: "same_partition (fst sw) (fst (snd (append_batch_loop bx payloads base sw)))"
proof (induction bx payloads base sw rule: append_batch_loop.induct)
  case (1 bx payloads base sw)
  let ?i = "length (pt_segments (fst sw)) - 1"
  obtain r1 sw1 where one: "on_segment ?i (segment_append_batch bx payloads) sw = (r1, sw1)" by (meson surj_pair)
  obtain r2 sw2 where two: "partition_rotate ?i sw1 = (r2, sw2)" by (meson surj_pair)
  have same: "same_partition (fst sw) (fst sw1)" "same_partition (fst sw1) (fst sw2)"
    using keepsD [OF keeps_on_segment one] keepsD [OF keeps_rotate two] .
  have via: "same_partition (fst sw) (fst t)" if "same_partition (fst sw1) (fst t) \<or> same_partition (fst sw2) (fst t)" for t
    using that same same_partition_trans by blast
  note unroll = append_batch_loop.simps [of bx payloads base sw]
  show ?case
  proof (cases "payloads = [] \<or> pt_segments (fst sw) = []")
    case True
    then show ?thesis by (subst unroll) auto
  next
    case ne: False
    show ?thesis
    proof (cases r1)
      case (Ok on)
      obtain off n where on: "on = (off, n)" by (meson surj_pair)
      show ?thesis
        using 1(1) [OF _ _ refl one [symmetric] Ok on [symmetric] refl] 1(2) [OF _ _ refl one [symmetric] Ok on [symmetric] refl] ne one two Ok on same via
        by (subst unroll) (auto simp: Let_def split: outcome.split)
    next
      case (Err e)
      show ?thesis
        using 1(3) [OF _ _ refl one [symmetric] Err] ne one two Err same via
        by (subst unroll) (auto simp: Let_def split: outcome.split ruka_error.split)
    next
      case Panic
      then show ?thesis
        using ne one same by (subst unroll) (auto simp: Let_def)
    qed
  qed
qed

lemma keeps_append_batch: "keeps (partition_append_batch bx payloads)"
  unfolding partition_append_batch_def
proof (rule keeps_bindp)
  show "keeps (append_batch_loop bx payloads None)"
    using keeps_append_batch_loop by (simp add: keeps_def)
qed (simp add: keeps_def)

lemma keeps_read_batch_loop: "same_partition (fst sw) (fst (snd (read_batch_loop bx i off budget results sw)))"
proof (induction bx i off budget results sw rule: read_batch_loop.induct)
  case (1 bx i off budget results sw)
  obtain r1 sw1 where one: "on_segment i (segment_read_batch bx off budget) sw = (r1, sw1)" by (meson surj_pair)
  have same: "same_partition (fst sw) (fst sw1)"
    using keepsD [OF keeps_on_segment one] .
  note unroll = read_batch_loop.simps [of bx i off budget results sw]
  show ?case
  proof (cases "i < length (pt_segments (fst sw)) \<and> 0 < budget")
    case go: True
    show ?thesis
    proof (cases r1)
      case (Ok rs)
      obtain stop b' off' res' where take: "take_records rs budget off results = (stop, b', off', res')"
        by (metis surj_pair)
      show ?thesis
        using 1(1) [OF go one [symmetric] Ok] 1(2) [OF go one [symmetric] Ok _ take [symmetric] _ refl refl]
          go one Ok take same_partition_trans [OF same] same
        by (subst unroll) (auto split: bool.split)
    qed (use go one same in \<open>subst unroll, auto\<close>)+
  next
    case False
    then show ?thesis
      by (subst unroll) auto
  qed
qed

lemma keeps_read_batch: "keeps (partition_read_batch bx off mx)"
  using keeps_read_batch_loop by (auto simp: keeps_def partition_read_batch_def split: option.split)

lemma actor_handle_same:
  assumes "actor_handle bx cmd (p, w) = (rep, (p', w'))"
  shows "same_partition p p'"
  using assms keepsD [OF keeps_append, where sw = "(p, w)"] keepsD [OF keeps_append_batch, where sw = "(p, w)"]
    keepsD [OF keeps_read_batch, where sw = "(p, w)"]
  by (fastforce simp: actor_handle_def split: broker_command.splits prod.splits outcome.splits)

lemma open_identity:
  assumes "partition_open_or_create bx topic pid base mx lev ((), w) = (Ok p, w')"
  shows "pt_topic p = topic" "pt_id p = pid" "pt_base_dir p = path_join (path_join base topic) (show_nat (unat pid))"
  using assms
  by (auto simp: partition_open_or_create_def bindp_def Let_def split: prod.splits outcome.splits)

section \<open>Creating a partition\<close>

definition same_settings :: "registry \<Rightarrow> registry \<Rightarrow> bool" where
  "same_settings rg rg' \<longleftrightarrow> rg' = rg \<lparr> rg_topics := rg_topics rg' \<rparr>"

lemma same_settings_simps:
  assumes "same_settings rg rg'"
  shows "rg_base_dir rg' = rg_base_dir rg" "rg_max_segment_bytes rg' = rg_max_segment_bytes rg"
    "rg_sync_level rg' = rg_sync_level rg" "rg_channel_capacity rg' = rg_channel_capacity rg"
  using assms by (metis same_settings_def registry.ext_inject registry.surjective registry.update_convs(6))+

text \<open>What the section under the write lock does, in terms of the lookups that follow.\<close>

lemma create_partition_cases:
  assumes "create_partition bx ch topic pid b = (r, b')"
  obtains (found) tx where "find_sender (rg_topics (bk_registry b)) topic pid = Some tx" "r = Ok tx"
      "bk_actors b' = bk_actors b" "bk_world b' = bk_world b"
      "\<And>t i. find_sender (rg_topics (bk_registry b')) t i = find_sender (rg_topics (bk_registry b)) t i"
      "same_settings (bk_registry b) (bk_registry b')" "bk_replies b' = bk_replies b"
  | (made) p q w where "find_sender (rg_topics (bk_registry b)) topic pid = None" "r = Ok (length (bk_actors b))"
      "partition_open_or_create bx topic pid (rg_base_dir (bk_registry b)) (rg_max_segment_bytes (bk_registry b))
         (rg_sync_level (bk_registry b)) ((), bk_world b) = (Ok p, ((), w))"
      "ch_new ch (rg_channel_capacity (bk_registry b)) = Some q"
      "bk_actors b' = bk_actors b @ [\<lparr> ac_partition = p, ac_mailbox = q, ac_alive = True \<rparr>]" "bk_world b' = w"
      "\<And>t i. find_sender (rg_topics (bk_registry b')) t i =
         (if t = topic \<and> i = pid then Some (length (bk_actors b)) else find_sender (rg_topics (bk_registry b)) t i)"
      "same_settings (bk_registry b) (bk_registry b')" "bk_replies b' = bk_replies b"
  | (failed) "find_sender (rg_topics (bk_registry b)) topic pid = None" "\<forall>tx. r \<noteq> Ok tx"
      "bk_actors b' = bk_actors b"
      "bk_world b' = snd (snd (partition_open_or_create bx topic pid (rg_base_dir (bk_registry b))
         (rg_max_segment_bytes (bk_registry b)) (rg_sync_level (bk_registry b)) ((), bk_world b)))"
      "\<forall>p w. partition_open_or_create bx topic pid (rg_base_dir (bk_registry b)) (rg_max_segment_bytes (bk_registry b))
         (rg_sync_level (bk_registry b)) ((), bk_world b) = (Ok p, ((), w)) \<longrightarrow>
         ch_new ch (rg_channel_capacity (bk_registry b)) = None"
      "\<And>t i. find_sender (rg_topics (bk_registry b')) t i = find_sender (rg_topics (bk_registry b)) t i"
      "same_settings (bk_registry b) (bk_registry b')" "bk_replies b' = bk_replies b"
proof -
  let ?rg = "bk_registry b"
  let ?ps = "case rg_topics ?rg topic of None \<Rightarrow> Map.empty | Some ps \<Rightarrow> ps"
  have find: "find_sender (rg_topics ?rg) topic pid = ?ps pid"
    by (simp add: find_sender_def split: option.split)
  have same: "find_sender ((rg_topics ?rg)(topic \<mapsto> ?ps)) t i = find_sender (rg_topics ?rg) t i" for t i
    by (simp add: find_sender_def split: option.split)
  have upd: "find_sender ((rg_topics ?rg)(topic \<mapsto> ?ps(pid \<mapsto> tx))) t i =
      (if t = topic \<and> i = pid then Some tx else find_sender (rg_topics ?rg) t i)" for t i tx
    by (auto simp: find_sender_def split: option.split)
  obtain res u w where open1: "partition_open_or_create bx topic pid (rg_base_dir ?rg) (rg_max_segment_bytes ?rg)
      (rg_sync_level ?rg) ((), bk_world b) = (res, (u, w))"
    by (metis surj_pair)
  show ?thesis
  proof (cases "?ps pid")
    case (Some tx)
    then show ?thesis
      using assms find same by (intro found [of tx]) (auto simp: create_partition_def Let_def same_settings_def)
  next
    case None
    show ?thesis
    proof (cases "\<exists>p q. res = Ok p \<and> ch_new ch (rg_channel_capacity ?rg) = Some q")
      case True
      then obtain p q where pq: "res = Ok p" "ch_new ch (rg_channel_capacity ?rg) = Some q" by blast
      show ?thesis
        using assms find None open1 pq
        by (intro made [of p w q])
          (auto simp: create_partition_def spawn_partition_def on_paths_def bindp_def Let_def same_settings_def upd)
    next
      case False
      then show ?thesis
        using assms find None open1 same
        by (intro failed)
          (auto simp: create_partition_def spawn_partition_def on_paths_def bindp_def Let_def same_settings_def
            split: outcome.splits option.splits)
    qed
  qed
qed

section \<open>What a step can do to the broker\<close>

lemma actor_step_cases:
  assumes "actor_step bx ch a b = Some (cmd, rep, b')"
  obtains q p w where "live b a" "ch_recv ch (ac_mailbox (bk_actors b ! a)) = Some (cmd, q)"
    "actor_handle bx cmd (ac_partition (bk_actors b ! a), bk_world b) = (rep, (p, w))"
    "b' = b \<lparr> bk_actors := (bk_actors b)[a := \<lparr> ac_partition = p, ac_mailbox = q, ac_alive = (rep \<noteq> None) \<rparr>],
       bk_replies := (case rep of None \<Rightarrow> bk_replies b | Some x \<Rightarrow> (bk_replies b)[reply_of cmd := x]), bk_world := w \<rparr>"
proof -
  from assms obtain q where q: "live b a" "ch_recv ch (ac_mailbox (bk_actors b ! a)) = Some (cmd, q)"
    by (auto simp: actor_step_def Let_def split: if_splits option.splits prod.splits)
  obtain x p w where h: "actor_handle bx cmd (ac_partition (bk_actors b ! a), bk_world b) = (x, (p, w))"
    by (metis surj_pair)
  show ?thesis
    using assms q h by (intro that [of q p w]) (auto simp: actor_step_def Let_def split: option.splits)
qed

inductive broker_change ::
    "bytes_ops \<Rightarrow> (broker_command, 'q) chan_ops \<Rightarrow> 'q broker \<Rightarrow> 'q broker \<Rightarrow> bool"
  for bx :: bytes_ops and ch :: "(broker_command, 'q) chan_ops" where
  same: "broker_change bx ch b b"
| create: "create_partition bx ch topic pid b = (r, b') \<Longrightarrow> broker_change bx ch b b'"
| oneshot: "broker_change bx ch b (b \<lparr> bk_replies := bk_replies b @ [Waiting] \<rparr>)"
| deliver: "live b tx \<Longrightarrow> ch_send ch cmd (ac_mailbox (bk_actors b ! tx)) = Some q \<Longrightarrow>
    broker_change bx ch b (b \<lparr> bk_actors := (bk_actors b)[tx := (bk_actors b ! tx) \<lparr> ac_mailbox := q \<rparr>] \<rparr>)"
| work: "actor_step bx ch a b = Some (cmd, rep, b') \<Longrightarrow> broker_change bx ch b b'"
| time: "broker_change bx ch b (set_clock now b)"

lemma async_step_change: "async_step bx ch h b = Some (h', b') \<Longrightarrow> broker_change bx ch b b'"
  by (induction bx ch h b rule: async_step.induct)
    (auto simp: Let_def intro: broker_change.intros split: if_splits option.splits prod.splits reply.splits)

lemma connection_step_cases:
  assumes "connection_step bx ch fm cn b = Some (cn', b')"
  obtains (closed) "cn_state cn' = Closed" "b' = b"
      "cn_state cn = Reading \<and> fst (fm_next fm (cn_framed cn)) \<noteq> Pending \<and> cn_framed cn' = snd (fm_next fm (cn_framed cn)) \<or>
       (\<exists>r. cn_state cn = Handling (Done r) \<and> cn_framed cn' = snd (fm_send fm (response_into_frame bx r) (cn_framed cn))) \<or>
       cn_state cn = Handling Panicked \<and> cn_framed cn' = cn_framed cn"
  | (request) x f req where "cn_state cn = Reading" "fm_next fm (cn_framed cn) = (Ready (Some (Ok x)), f)"
      "request_from_frame bx x = Ok req" "cn' = \<lparr> cn_framed = f, cn_state = Handling (handle_request bx ch req) \<rparr>" "b' = b"
  | (respond) r f u where "cn_state cn = Handling (Done r)"
      "fm_send fm (response_into_frame bx r) (cn_framed cn) = (Ok u, f)" "cn' = \<lparr> cn_framed = f, cn_state = Reading \<rparr>" "b' = b"
  | (handle) h h' where "cn_state cn = Handling h" "async_step bx ch h b = Some (h', b')"
      "cn' = cn \<lparr> cn_state := Handling h' \<rparr>"
proof (cases "\<exists>h. cn_state cn = Handling h \<and> (\<forall>r. h \<noteq> Done r) \<and> h \<noteq> Panicked")
  case True
  then obtain h where h: "cn_state cn = Handling h" "\<forall>r. h \<noteq> Done r" "h \<noteq> Panicked" by blast
  then obtain h' where "async_step bx ch h b = Some (h', b')" "cn' = cn \<lparr> cn_state := Handling h' \<rparr>"
    using assms by (auto simp: connection_step_def simp del: async_step.simps split: async.splits option.splits)
  then show ?thesis
    using h by (intro handle)
next
  case False
  then show ?thesis
    using assms that(1-3)
    by (auto simp: connection_step_def simp del: async_step.simps
        split: conn_state.splits async.splits prod.splits poll.splits option.splits outcome.splits)
qed

lemma connection_step_change: "connection_step bx ch fm cn b = Some (cn', b') \<Longrightarrow> broker_change bx ch b b'"
  by (rule connection_step_cases) (auto intro: broker_change.same async_step_change)

lemma sys_step_change: "sys_step bx ch fm s e s' \<Longrightarrow> broker_change bx ch (sy_broker s) (sy_broker s')"
  by (induction rule: sys_step.induct) (auto intro: connection_step_change broker_change.intros)

section \<open>One actor for each partition\<close>

definition registered :: "'q broker \<Rightarrow> bool" where
  "registered b \<longleftrightarrow>
     (\<forall>topic pid tx. find_sender (rg_topics (bk_registry b)) topic pid = Some tx \<longleftrightarrow>
        tx < length (bk_actors b) \<and> pt_topic (ac_partition (bk_actors b ! tx)) = topic \<and>
        pt_id (ac_partition (bk_actors b ! tx)) = pid)"

lemma ac_partition_mailbox [simp]:
  "ac_partition ((as :: 'q actor list)[tx := (as ! tx) \<lparr> ac_mailbox := q \<rparr>] ! i) = ac_partition (as ! i)"
  by (cases "tx < length as") (auto simp: nth_list_update list_update_beyond not_less)

lemma registered_unique:
  assumes "registered b" "tx < length (bk_actors b)" "ty < length (bk_actors b)"
    "pt_topic (ac_partition (bk_actors b ! tx)) = pt_topic (ac_partition (bk_actors b ! ty))"
    "pt_id (ac_partition (bk_actors b ! tx)) = pt_id (ac_partition (bk_actors b ! ty))"
  shows "tx = ty"
  using assms unfolding registered_def by (metis option.inject)

lemma registered_find:
  assumes "registered b" "tx < length (bk_actors b)"
  shows "find_sender (rg_topics (bk_registry b)) (pt_topic (ac_partition (bk_actors b ! tx)))
    (pt_id (ac_partition (bk_actors b ! tx))) = Some tx"
  using assms by (simp add: registered_def)

lemma registered_change:
  assumes "broker_change bx ch b b'" "registered b"
  shows "registered b'"
  using assms
proof (induction rule: broker_change.induct)
  case (create topic pid b r b')
  note reg = create(2) [unfolded registered_def, rule_format]
  show ?case
  proof (rule create_partition_cases [OF create(1)])
    fix p q w
    assume none: "find_sender (rg_topics (bk_registry b)) topic pid = None"
      and open1: "partition_open_or_create bx topic pid (rg_base_dir (bk_registry b)) (rg_max_segment_bytes (bk_registry b))
         (rg_sync_level (bk_registry b)) ((), bk_world b) = (Ok p, ((), w))"
      and actors: "bk_actors b' = bk_actors b @ [\<lparr> ac_partition = p, ac_mailbox = q, ac_alive = True \<rparr>]"
      and find: "\<And>t i. find_sender (rg_topics (bk_registry b')) t i =
         (if t = topic \<and> i = pid then Some (length (bk_actors b)) else find_sender (rg_topics (bk_registry b)) t i)"
    have "find_sender (rg_topics (bk_registry b)) t i \<noteq> Some (length (bk_actors b))" for t i
      by (simp add: reg)
    moreover have "\<not> (tx < length (bk_actors b) \<and> pt_topic (ac_partition (bk_actors b ! tx)) = topic \<and>
        pt_id (ac_partition (bk_actors b ! tx)) = pid)" for tx
      using reg [of topic pid tx] none by simp
    ultimately show ?thesis
      using open_identity(1,2) [OF open1] by (auto simp: registered_def actors find nth_append reg less_Suc_eq)
  qed (auto simp: registered_def reg)
next
  case (deliver b tx cmd q)
  then show ?case
    by (simp add: registered_def)
next
  case (work a b cmd rep b')
  from work(1) obtain q p w where step: "live b a"
    "actor_handle bx cmd (ac_partition (bk_actors b ! a), bk_world b) = (rep, (p, w))"
    "b' = b \<lparr> bk_actors := (bk_actors b)[a := \<lparr> ac_partition = p, ac_mailbox = q, ac_alive = (rep \<noteq> None) \<rparr>],
       bk_replies := (case rep of None \<Rightarrow> bk_replies b | Some x \<Rightarrow> (bk_replies b)[reply_of cmd := x]), bk_world := w \<rparr>"
    by (rule actor_step_cases)
  show ?case
    using work(2) step(1) actor_handle_same [OF step(2)] unfolding step(3)
    by (auto simp: registered_def nth_list_update same_partition_def live_def)
qed (simp_all add: registered_def)

text \<open>No mailbox holds more than the configured number of commands.\<close>

definition boxed :: "('q \<Rightarrow> broker_command list) \<Rightarrow> ('q \<Rightarrow> nat) \<Rightarrow> 'q broker \<Rightarrow> bool" where
  "boxed items capacity b \<longleftrightarrow>
     (\<forall>actor \<in> set (bk_actors b). capacity (ac_mailbox actor) = rg_channel_capacity (bk_registry b) \<and>
        length (items (ac_mailbox actor)) \<le> rg_channel_capacity (bk_registry b))"

lemma boxed_update:
  assumes "boxed items capacity b" "tx < length (bk_actors b)"
    "capacity (ac_mailbox actor) = capacity (ac_mailbox (bk_actors b ! tx))"
    "length (items (ac_mailbox actor)) \<le> capacity (ac_mailbox actor)"
    "bk_actors b' = (bk_actors b)[tx := actor]" "bk_registry b' = bk_registry b"
  shows "boxed items capacity b'"
proof -
  have "capacity (ac_mailbox (bk_actors b ! tx)) = rg_channel_capacity (bk_registry b)"
    using assms(1,2) by (simp add: boxed_def)
  then show ?thesis
    using assms unfolding boxed_def by (auto dest!: set_update_subset_insert [THEN subsetD])
qed

lemma boxed_change:
  assumes "broker_change bx ch b b'" "tokio_channel ch items capacity" "boxed items capacity b"
  shows "boxed items capacity b'"
  using assms
proof (induction rule: broker_change.induct)
  case (create topic pid b r b')
  show ?case
    using create(3) tokio_channel.new_empty [OF create(2)]
    by (rule_tac create_partition_cases [OF create(1)])
      (auto simp: boxed_def same_settings_simps)
next
  case (deliver b tx cmd q)
  show ?case
    by (rule boxed_update [OF deliver(4), of tx "(bk_actors b ! tx) \<lparr> ac_mailbox := q \<rparr>"])
      (use tokio_channel.send_within [OF deliver(3,2)] deliver(1) in \<open>auto simp: live_def\<close>)
next
  case (work a b cmd rep b')
  from work(1) obtain q p w where step: "live b a" "ch_recv ch (ac_mailbox (bk_actors b ! a)) = Some (cmd, q)"
    "b' = b \<lparr> bk_actors := (bk_actors b)[a := \<lparr> ac_partition = p, ac_mailbox = q, ac_alive = (rep \<noteq> None) \<rparr>],
       bk_replies := (case rep of None \<Rightarrow> bk_replies b | Some x \<Rightarrow> (bk_replies b)[reply_of cmd := x]), bk_world := w \<rparr>"
    by (rule actor_step_cases)
  have "bk_actors b ! a \<in> set (bk_actors b)"
    using step(1) by (simp add: live_def)
  then have "length (items (ac_mailbox (bk_actors b ! a))) \<le> capacity (ac_mailbox (bk_actors b ! a))"
    using work(3) by (simp add: boxed_def)
  then show ?case
    unfolding step(3) using tokio_channel.recv_oldest [OF work(2) step(2)] step(1)
    by (intro boxed_update [OF work(3), of a "\<lparr> ac_partition = p, ac_mailbox = q, ac_alive = (rep \<noteq> None) \<rparr>"])
      (simp_all add: live_def)
qed (simp_all add: boxed_def)

end
