(* ===== verification/Ruka_Broker_Inv.thy ===== *)
theory Ruka_Broker_Inv
  imports Ruka_Broker_Steps
begin

text \<open>
  The storage behind the broker: partitions live in different directories, a command changes the
  log of its own partition only, and creating a partition starts an empty log.
\<close>

section \<open>The directories of the partitions\<close>

text \<open>A topic name that is one directory name.\<close>

definition plain_topic :: "string \<Rightarrow> bool" where
  "plain_topic t \<longleftrightarrow> t \<noteq> [] \<and> CHR ''/'' \<notin> set t \<and> t \<noteq> ''.'' \<and> t \<noteq> ''..''"

lemma split_slash_plain: "CHR ''/'' \<notin> set s \<Longrightarrow> split_slash acc s = [acc @ s]"
  by (induction s arbitrary: acc) auto

lemma path_join_plain:
  assumes "plain_topic t"
  shows "path_join base t = base @ [t]"
  using assms split_slash_plain [of t "[]"]
  by (cases t) (auto simp: plain_topic_def path_join_def components_def)

lemma show_nat_plain: "plain_topic (show_nat n)"
proof -
  have "\<exists>d < 10. c = digit d" if "c \<in> set (show_nat n)" for c
    using that
  proof (induction n rule: show_nat.induct)
    case (1 n)
    then show ?case
      by (subst (asm) (2) show_nat.simps) (auto split: if_splits intro: exI [of _ n] exI [of _ "n mod 10"])
  qed
  moreover have "digit d \<noteq> CHR ''/''" "digit d \<noteq> CHR ''.''" if "d < 10" for d
    using digit_value_digit [OF that] by (auto simp: digit_value_def Let_def)
  ultimately show ?thesis
    unfolding plain_topic_def by (metis list.set_intros(1) show_nat_not_Nil)
qed

definition partition_dir :: "path \<Rightarrow> string \<Rightarrow> u32 \<Rightarrow> path" where
  "partition_dir base topic pid = base @ [topic, show_nat (unat pid)]"

lemma partition_dir_join:
  "plain_topic t \<Longrightarrow> path_join (path_join base t) (show_nat (unat pid)) = partition_dir base t pid"
  by (simp add: partition_dir_def path_join_plain show_nat_plain)

lemma partition_dir_inj: "partition_dir base t i = partition_dir base t' i' \<longleftrightarrow> t = t' \<and> i = i'"
  by (metis append_same_eq butlast.simps(2) last.simps last_ConsR last_appendR list.distinct(1) list.inject
      option.inject parse_u32_show_nat partition_dir_def same_append_eq)

lemma length_partition_dir [simp]: "length (partition_dir base t i) = length base + 2"
  by (simp add: partition_dir_def)

lemma dir_files_iff: "q \<in> dir_files dir \<Longrightarrow> q \<noteq> [] \<and> butlast q = dir \<and> length q = Suc (length dir)"
  by (auto simp: dir_files_def files_of_def log_path_def index_path_def)

section \<open>Other partitions are not touched\<close>

lemma partition_holds_frame:
  assumes "partition_holds p w rss" "only_touches ps w w'" "dir_files (pt_base_dir p) \<inter> ps = {}" "has_dir w' (pt_base_dir p)"
  shows "partition_holds p w' rss"
proof -
  let ?dir = "pt_base_dir p"
  have "segment_holds (pt_segments p ! i) w' (rss ! i)" if "i < length rss" for i
  proof -
    have "fpath (sg_log_file (pt_segments p ! i)) \<in> dir_files ?dir"
      using assms(1) that files_of_dir [of ?dir "base_of p i"] by (auto simp: partition_holds_def files_of_def)
    then have "fpath (sg_log_file (pt_segments p ! i)) \<notin> ps"
      using assms(3) by blast
    moreover have "segment_holds (pt_segments p ! i) w (rss ! i)"
      using assms(1) that by (simp add: partition_holds_def)
    ultimately show ?thesis
      using segment_holds_other [OF _ assms(2)] by blast
  qed
  then show ?thesis
    using assms(1,4) by (simp add: partition_holds_def)
qed

lemma partition_ok_frame:
  assumes "partition_ok p w rss" "only_touches ps w w'" "dir_files (pt_base_dir p) \<inter> ps = {}" "has_dir w' (pt_base_dir p)"
  shows "partition_ok p w' rss"
proof -
  let ?dir = "pt_base_dir p"
  have kept: "map_of (nodes w') q = map_of (nodes w) q" if "q \<in> dir_files ?dir" for q
    using assms(2,3) that by (auto simp: only_touches_def)
  have holds: "partition_holds p w rss"
    using assms(1) by (simp add: partition_ok_def)
  moreover have "segment_ok (last (pt_segments p)) w' (last rss)"
  proof (rule segment_ok_other [OF _ assms(2)])
    show "segment_ok (last (pt_segments p)) w (last rss)"
      using assms(1) by (simp add: partition_ok_def)
    have "last (pt_segments p) = pt_segments p ! (length rss - 1)" "length rss - 1 < length rss"
      using holds by (auto simp: partition_holds_def last_conv_nth)
    then have "seg_files (last (pt_segments p)) = files_of ?dir (sg_base_offset (last (pt_segments p)))"
      using holds by (simp add: partition_holds_def)
    then show "seg_files (last (pt_segments p)) \<inter> ps = {}"
      using assms(3) files_of_dir by blast
  qed
  moreover have "files_of ?dir b \<inter> ps = {}" for b
    using assms(3) files_of_dir by blast
  then have "filed p w' rss"
    using assms(1) kept segment_filed_other [OF _ assms(2)] by (simp add: partition_ok_def filed_def)
  ultimately show ?thesis
    using assms(1) partition_holds_frame [OF holds assms(2-4)] by (simp add: partition_ok_def)
qed

lemma has_dir_frame:
  assumes "has_dir w dir" "only_touches ps w w'" "\<And>q. q \<in> ps \<Longrightarrow> q \<in> dirs_to dir \<Longrightarrow> is_dir w' q"
  shows "has_dir w' dir"
  unfolding has_dir_def
proof (intro allI impI)
  fix k assume k: "k \<le> length dir"
  show "is_dir w' (take k dir)"
  proof (cases "take k dir \<in> ps \<and> 0 < k")
    case True
    then show ?thesis
      using assms(3) k by (auto simp: dirs_to_def)
  next
    case False
    then show ?thesis
      using assms(1,2) k by (cases "k = 0") (auto simp: has_dir_def is_dir_def only_touches_def)
  qed
qed

lemma vacant_frame:
  assumes "vacant w dir" "only_touches ps w w'" "\<And>q. q \<in> ps \<Longrightarrow> q \<in> dirs_to dir \<Longrightarrow> is_dir w' q"
    "\<And>name. dir @ [name] \<notin> ps"
  shows "vacant w' dir"
  unfolding vacant_def
proof (intro conjI ballI allI)
  fix q x d assume q: "q \<in> dirs_to dir"
  then have "q \<noteq> []"
    by (auto simp: dirs_to_def)
  then show "map_of (nodes w') q \<noteq> Some (FileNode x d)"
    using assms(1,2) assms(3) [OF _ q] q by (cases "q \<in> ps") (auto simp: vacant_def only_touches_def is_dir_def)
qed (use assms in \<open>simp add: vacant_def only_touches_def\<close>)

section \<open>A command changes the log of its partition\<close>

text \<open>Commands whose payloads fit the length fields of a record, as all do that arrive in frames.\<close>

fun cmd_ok :: "broker_command \<Rightarrow> bool" where
  "cmd_ok (Cmd_Produce key val reply) \<longleftrightarrow> 28 + opt_len key + opt_len val < 2 ^ 32"
| "cmd_ok (Cmd_ProduceBatch payloads reply) \<longleftrightarrow> (\<forall>q \<in> set payloads. wf_payload q) \<and> length payloads < 2 ^ 32"
| "cmd_ok (Cmd_Fetch offset max_bytes reply) \<longleftrightarrow> True"

text \<open>What a command adds to the log when it is answered with the given reply.\<close>

fun added :: "log_record list \<Rightarrow> broker_command \<Rightarrow> reply \<Rightarrow> log_record list \<Rightarrow> bool" where
  "added old (Cmd_Produce key val reply) (OffsetReply (Ok off)) new \<longleftrightarrow>
     (\<exists>ts. new = [\<lparr> lr_offset = off, lr_timestamp_ms = ts, lr_key = key, lr_value = val \<rparr>])"
| "added old (Cmd_Produce key val reply) (OffsetReply (Err e)) new \<longleftrightarrow> new = []"
| "added old (Cmd_ProduceBatch payloads reply) (OffsetReply (Ok off)) new \<longleftrightarrow> (\<exists>ts. new = stamp ts off payloads)"
| "added old (Cmd_ProduceBatch payloads reply) (OffsetReply (Err e)) new \<longleftrightarrow>
     (\<exists>ts off n. new = stamp ts off (take n payloads))"
| "added old (Cmd_Fetch offset max_bytes reply) (RecordsReply (Ok rs)) new \<longleftrightarrow> new = [] \<and> fetched old offset max_bytes rs"
| "added old cmd rep new \<longleftrightarrow> False"

context bytes_crate
begin

lemma actor_produce:
  assumes "partition_ok p w rss" "quiet w" "unat (partition_next_offset p) < 2 ^ 63"
    "28 + opt_len key + opt_len val < 2 ^ 32"
  shows "\<exists>rep new p' w' rss'. actor_handle bx (Cmd_Produce key val reply) (p, w) = (Some rep, (p', w')) \<and>
    partition_ok p' w' rss' \<and> concat rss' = concat rss @ new \<and> added (concat rss) (Cmd_Produce key val reply) rep new \<and>
    only_touches (dir_files (pt_base_dir p)) w w'"
proof -
  let ?r = "\<lparr> lr_offset = partition_next_offset p, lr_timestamp_ms = clock w, lr_key = key, lr_value = val \<rparr>"
  have adm: "partition_admits (p, w) key val"
    using assms(3,4) by (simp add: partition_admits_def)
  note cases = partition_append_cases [OF assms(1,2) adm refl]
  show ?thesis
  proof (cases "unat (pt_max_segment_bytes p) < record_len ?r")
    case True
    then have "partition_append bx key val (p, w) = (Err MessageTooLarge, (p, w))"
      using cases by simp
    then show ?thesis
      using assms(1) only_touches_refl [OF assms(2)]
      by (intro exI [of _ "OffsetReply (Err MessageTooLarge)"] exI [of _ "[]"] exI [of _ p] exI [of _ w] exI [of _ rss])
        (simp add: actor_handle_def)
  next
    case False
    then obtain p' w' rss' where "partition_append bx key val (p, w) = (Ok (partition_next_offset p), (p', w'))"
      "partition_ok p' w' rss'" "concat rss' = concat rss @ [?r]" "only_touches (dir_files (pt_base_dir p)) w w'"
      using cases by (simp only: if_False) blast
    then show ?thesis
      by (intro exI [of _ "OffsetReply (Ok (partition_next_offset p))"] exI [of _ "[?r]"] exI [of _ p'] exI [of _ w'] exI [of _ rss'])
        (simp add: actor_handle_def)
  qed
qed

lemma actor_produce_batch:
  assumes "partition_ok p w rss" "quiet w" "unat (partition_next_offset p) < 2 ^ 63"
    "\<forall>q \<in> set payloads. wf_payload q" "length payloads < 2 ^ 32"
  shows "\<exists>rep new p' w' rss'. actor_handle bx (Cmd_ProduceBatch payloads reply) (p, w) = (Some rep, (p', w')) \<and>
    partition_ok p' w' rss' \<and> concat rss' = concat rss @ new \<and> added (concat rss) (Cmd_ProduceBatch payloads reply) rep new \<and>
    only_touches (dir_files (pt_base_dir p)) w w'"
proof -
  let ?fits = "\<forall>q \<in> set payloads. payload_fits (pt_max_segment_bytes p) q"
  have adm: "batch_admits payloads p"
    using assms(3-5) by (simp add: batch_admits_def)
  obtain n p' w' rss' where loop: "append_batch_loop bx payloads None (p, w) =
      ((if ?fits then Ok (if payloads = [] then None else Some (partition_next_offset p)) else Err MessageTooLarge), (p', w'))"
    "partition_ok p' w' rss'" "only_touches (dir_files (pt_base_dir p)) w w'"
    "concat rss' = concat rss @ stamp (clock w) (partition_next_offset p) (take n payloads)"
    "?fits \<longrightarrow> n = length payloads"
    using append_batch_loop_cases [OF assms(1,2) adm, of None] unfolding option.case by blast
  show ?thesis
  proof (cases ?fits)
    case True
    obtain off where "actor_handle bx (Cmd_ProduceBatch payloads reply) (p, w) = (Some (OffsetReply (Ok off)), (p', w'))"
      "payloads \<noteq> [] \<longrightarrow> off = partition_next_offset p"
      using loop(1) True by (cases "payloads = []") (simp_all add: actor_handle_def partition_append_batch_def bindp_def)
    then show ?thesis
      using loop True
      by (intro exI [of _ "OffsetReply (Ok off)"] exI [of _ "stamp (clock w) off payloads"] exI [of _ p'] exI [of _ w']
          exI [of _ rss']) auto
  next
    case False
    then have "actor_handle bx (Cmd_ProduceBatch payloads reply) (p, w) =
        (Some (OffsetReply (Err MessageTooLarge)), (p', w'))"
      using loop(1) by (simp only: actor_handle_def partition_append_batch_def bindp_def if_False) simp
    then show ?thesis
      using loop
      by (intro exI [of _ "OffsetReply (Err MessageTooLarge)"]
          exI [of _ "stamp (clock w) (partition_next_offset p) (take n payloads)"] exI [of _ p'] exI [of _ w'] exI [of _ rss'])
        auto
  qed
qed

lemma actor_fetch:
  assumes "partition_ok p w rss" "quiet w"
  shows "\<exists>rep p'. actor_handle bx (Cmd_Fetch off mx reply) (p, w) = (Some rep, (p', w)) \<and>
    partition_ok p' w rss \<and> added (concat rss) (Cmd_Fetch off mx reply) rep []"
proof -
  have holds: "partition_holds p w rss"
    using assms(1) by (simp add: partition_ok_def)
  obtain rs p' where "partition_read_batch bx off mx (p, w) = (Ok rs, (p', w))" "partition_ok p' w rss"
    "fetched (concat rss) off mx rs"
    using partition_read_batch_fetched [OF holds assms(2), of off mx] assms(1) by blast
  then show ?thesis
    by (intro exI [of _ "RecordsReply (Ok rs)"] exI [of _ p']) (simp add: actor_handle_def)
qed

lemma actor_handle_holds:
  assumes "partition_ok p w rss" "quiet w" "unat (partition_next_offset p) < 2 ^ 63" "cmd_ok cmd"
  shows "\<exists>rep new p' w' rss'. actor_handle bx cmd (p, w) = (Some rep, (p', w')) \<and>
    partition_ok p' w' rss' \<and> concat rss' = concat rss @ new \<and> added (concat rss) cmd rep new \<and>
    only_touches (dir_files (pt_base_dir p)) w w'"
proof (cases cmd)
  case (Cmd_Fetch off mx reply)
  then show ?thesis
    using actor_fetch [OF assms(1,2), of off mx reply] only_touches_refl [OF assms(2)] by fastforce
qed (use assms actor_produce actor_produce_batch in simp_all)

end

section \<open>What the broker holds\<close>

text \<open>
  Every actor is alive and its partition is ready for appends and holds the records of one log, the
  partitions have the directories of their topics and numbers, and nothing is in the way of
  partitions to come.
\<close>

definition home :: "'q broker \<Rightarrow> string \<Rightarrow> u32 \<Rightarrow> path" where
  "home b topic pid = partition_dir (rg_base_dir (bk_registry b)) topic pid"

definition actor_holds :: "'q broker \<Rightarrow> sender \<Rightarrow> log_record list \<Rightarrow> bool" where
  "actor_holds b a log \<longleftrightarrow>
     ac_alive (bk_actors b ! a) \<and> plain_topic (pt_topic (ac_partition (bk_actors b ! a))) \<and>
     pt_base_dir (ac_partition (bk_actors b ! a)) =
       home b (pt_topic (ac_partition (bk_actors b ! a))) (pt_id (ac_partition (bk_actors b ! a))) \<and>
     (\<exists>rss. partition_ok (ac_partition (bk_actors b ! a)) (bk_world b) rss \<and> concat rss = log)"

text \<open>
  The data directory: it holds the directories and segment files of the partitions and nothing else,
  and no file is in the place of one of the directories above it. All partitions have the
  synchronisation level of the registry.
\<close>

definition places :: "'q broker \<Rightarrow> (path \<times> sync_level) set" where
  "places b = (\<lambda>actor. (pt_base_dir (ac_partition actor), pt_sync_level (ac_partition actor))) ` set (bk_actors b)"

definition tidy :: "'q broker \<Rightarrow> bool" where
  "tidy b \<longleftrightarrow>
     (\<forall>(dir, lev) \<in> places b. lev = rg_sync_level (bk_registry b)) \<and>
     (\<forall>q. strict_prefix (rg_base_dir (bk_registry b)) q \<longrightarrow> map_of (nodes (bk_world b)) q \<noteq> None \<longrightarrow>
        (\<exists>(dir, lev) \<in> places b. q \<in> dirs_to dir \<union> dir_files dir)) \<and>
     (\<forall>q \<in> dirs_to (rg_base_dir (bk_registry b)). \<forall>x d. map_of (nodes (bk_world b)) q \<noteq> Some (FileNode x d))"

definition broker_holds :: "'q broker \<Rightarrow> log_record list list \<Rightarrow> bool" where
  "broker_holds b logs \<longleftrightarrow>
     registered b \<and> quiet (bk_world b) \<and> unat (rg_max_segment_bytes (bk_registry b)) < 2 ^ 63 \<and>
     length logs = length (bk_actors b) \<and> (\<forall>a < length logs. actor_holds b a (logs ! a)) \<and>
     (\<forall>topic pid. plain_topic topic \<and> find_sender (rg_topics (bk_registry b)) topic pid = None \<longrightarrow>
        vacant (bk_world b) (home b topic pid)) \<and>
     tidy b"

text \<open>The logs do not depend on the time.\<close>

lemma partition_ok_clock [simp]: "partition_ok p (w \<lparr> clock := now \<rparr>) rss = partition_ok p w rss"
  unfolding partition_ok_def partition_holds_def segment_ok_def segment_holds_def index_ok_def has_dir_def is_dir_def
    filed_def segment_filed_def by simp

lemma broker_holds_clock: "broker_holds (set_clock now b) logs = broker_holds b logs"
  by (simp add: broker_holds_def actor_holds_def registered_def quiet_def home_def vacant_def tidy_def places_def)

lemma home_inj: "home b t i = home b t' i' \<longleftrightarrow> t = t' \<and> i = i'"
  by (simp add: home_def partition_dir_inj)

lemma home_length [simp]: "length (home b t i) = length (rg_base_dir (bk_registry b)) + 2"
  by (simp add: home_def)

lemma home_files:
  "home b t i \<noteq> home b t' i' \<Longrightarrow> dir_files (home b t i) \<inter> dir_files (home b t' i') = {}"
  "q \<in> dir_files (home b t i) \<Longrightarrow> q \<notin> dirs_to (home b t' i')"
  "home b t i \<noteq> home b t' i' \<Longrightarrow> home b t i @ [name] \<notin> dir_files (home b t' i')"
  "home b t i @ [name] \<notin> dirs_to (home b t' i')"
proof -
  show "q \<in> dir_files (home b t i) \<Longrightarrow> q \<notin> dirs_to (home b t' i')"
    using dir_files_iff dirs_to_length by fastforce
  show "home b t i @ [name] \<notin> dirs_to (home b t' i')"
    using dirs_to_length by fastforce
qed (auto dest!: dir_files_iff)

text \<open>A change of the world that concerns the directories and files of one partition only.\<close>

definition touches_home :: "'q broker \<Rightarrow> string \<Rightarrow> u32 \<Rightarrow> world \<Rightarrow> bool" where
  "touches_home b topic pid w' \<longleftrightarrow>
     only_touches (dirs_to (home b topic pid) \<union> dir_files (home b topic pid)) (bk_world b) w' \<and>
     (\<forall>q \<in> dirs_to (home b topic pid). is_dir w' q)"

lemma touches_homeI:
  assumes "only_touches (dirs_to (home b t i) \<union> dir_files (home b t i)) (bk_world b) w'" "has_dir w' (home b t i)"
  shows "touches_home b t i w'"
  using assms by (auto simp: touches_home_def has_dir_def dirs_to_def)

lemma actor_holds_other:
  assumes "actor_holds b a log" "touches_home b topic pid w'"
    "pt_topic (ac_partition (bk_actors b ! a)) \<noteq> topic \<or> pt_id (ac_partition (bk_actors b ! a)) \<noteq> pid"
    "bk_actors b' ! a = bk_actors b ! a" "bk_world b' = w'" "rg_base_dir (bk_registry b') = rg_base_dir (bk_registry b)"
  shows "actor_holds b' a log"
proof -
  let ?p = "ac_partition (bk_actors b ! a)"
  obtain rss where rss: "partition_ok ?p (bk_world b) rss" "concat rss = log"
    and dir: "pt_base_dir ?p = home b (pt_topic ?p) (pt_id ?p)"
    using assms(1) by (auto simp: actor_holds_def)
  have other: "home b (pt_topic ?p) (pt_id ?p) \<noteq> home b topic pid"
    using assms(3) by (auto simp: home_inj)
  note touch = assms(2) [unfolded touches_home_def]
  have "has_dir w' (pt_base_dir ?p)"
    using has_dir_frame [OF _ conjunct1 [OF touch]] touch rss(1) home_files(2)
    unfolding dir by (fastforce simp: partition_ok_def partition_holds_def dir)
  moreover have "dir_files (pt_base_dir ?p) \<inter> (dirs_to (home b topic pid) \<union> dir_files (home b topic pid)) = {}"
    unfolding dir using home_files(1) [OF other] home_files(2) by fast
  ultimately have "partition_ok ?p w' rss"
    using partition_ok_frame [OF rss(1) conjunct1 [OF touch]] by blast
  then show ?thesis
    using assms(1,4-6) rss(2) by (auto simp: actor_holds_def home_def)
qed

lemma vacant_other:
  assumes "vacant (bk_world b) (home b t i)" "touches_home b topic pid w'" "t \<noteq> topic \<or> i \<noteq> pid"
  shows "vacant w' (home b t i)"
proof -
  note touch = assms(2) [unfolded touches_home_def]
  have other: "home b t i \<noteq> home b topic pid"
    using assms(3) by (auto simp: home_inj)
  show ?thesis
    by (rule vacant_frame [OF assms(1) conjunct1 [OF touch]])
      (use touch home_files(2) [of _ b topic pid] home_files(3) [OF other] home_files(4) [of b t i _ topic pid] in auto)
qed

lemma image_set_update:
  assumes "f x = f (xs ! i)"
  shows "f ` set (xs[i := x]) = f ` set xs"
proof (cases "i < length xs")
  case True
  then have "map f (xs[i := x]) = map f xs"
    using assms by (simp add: map_update list_update_same_conv)
  then show ?thesis
    by (metis set_map)
qed (simp add: list_update_beyond)

lemma places_mailbox:
  "bk_actors b' = (bk_actors b)[tx := (bk_actors b ! tx) \<lparr> ac_mailbox := q \<rparr>] \<Longrightarrow> places b' = places b"
  unfolding places_def by (simp only:) (rule image_set_update, simp)

lemma tidy_level: "tidy b \<Longrightarrow> (dir, lev) \<in> places b \<Longrightarrow> lev = rg_sync_level (bk_registry b)"
  unfolding tidy_def by blast

lemma tidy_change:
  assumes "tidy b" "touches_home b topic pid (bk_world b')"
    "rg_base_dir (bk_registry b') = rg_base_dir (bk_registry b)" "rg_sync_level (bk_registry b') = rg_sync_level (bk_registry b)"
    "places b' = insert (home b topic pid, rg_sync_level (bk_registry b)) (places b)"
  shows "tidy b'"
proof -
  note touch = assms(2) [unfolded touches_home_def only_touches_def]
  have "\<exists>(dir, lev) \<in> places b'. q \<in> dirs_to dir \<union> dir_files dir"
    if "strict_prefix (rg_base_dir (bk_registry b)) q" "map_of (nodes (bk_world b')) q \<noteq> None" for q
  proof (cases "q \<in> dirs_to (home b topic pid) \<union> dir_files (home b topic pid)")
    case False
    then have "map_of (nodes (bk_world b)) q \<noteq> None"
      using that(2) touch by simp
    then show ?thesis
      using assms(1,5) that(1) by (auto simp: tidy_def)
  qed (simp add: assms(5))
  moreover have "map_of (nodes (bk_world b')) q \<noteq> Some (FileNode x d)" if q: "q \<in> dirs_to (rg_base_dir (bk_registry b))" for q x d
  proof -
    have "q \<in> dirs_to (home b topic pid)"
      using q by (fastforce simp: dirs_to_def home_def partition_dir_def)
    moreover have "q \<noteq> []"
      using q by (auto simp: dirs_to_def)
    ultimately show ?thesis
      using touch by (auto simp: is_dir_def)
  qed
  ultimately show ?thesis
    using assms(1,3-5) by (auto simp: tidy_def)
qed

context bytes_crate
begin

text \<open>A step of the actor that keeps its files to its own directory.\<close>

lemma broker_holds_write:
  assumes "broker_holds b logs" "a < length logs" "same_partition (ac_partition (bk_actors b ! a)) (ac_partition actor)"
    "partition_ok (ac_partition actor) w' rss" "concat rss = log" "ac_alive actor" "registered b'"
    "only_touches (dir_files (pt_base_dir (ac_partition (bk_actors b ! a)))) (bk_world b) w'"
    "bk_actors b' = (bk_actors b)[a := actor]" "bk_registry b' = bk_registry b" "bk_world b' = w'"
  shows "broker_holds b' (logs[a := log])"
proof -
  let ?p = "ac_partition (bk_actors b ! a)"
  have len: "a < length (bk_actors b)"
    using assms(1,2) by (simp add: broker_holds_def)
  have holds: "actor_holds b i (logs ! i)" if "i < length logs" for i
    using assms(1) that by (simp add: broker_holds_def)
  have dir: "pt_base_dir ?p = home b (pt_topic ?p) (pt_id ?p)"
    using holds [OF assms(2)] by (simp add: actor_holds_def)
  have touch: "touches_home b (pt_topic ?p) (pt_id ?p) w'"
    using assms(3,4) only_touches_mono [OF assms(8)] unfolding dir
    by (intro touches_homeI) (auto simp: partition_ok_def partition_holds_def same_partition_def dir)
  have home: "home b' t j = home b t j" for t j
    by (simp add: home_def assms(10))
  have actors: "actor_holds b' i (logs[a := log] ! i)" if i: "i < length logs" for i
  proof (cases "i = a")
    case True
    then show ?thesis
      using assms(2-6) holds [OF assms(2)] len by (auto simp: actor_holds_def home assms(9,11) same_partition_def)
  next
    case False
    have "pt_topic (ac_partition (bk_actors b ! i)) \<noteq> pt_topic ?p \<or> pt_id (ac_partition (bk_actors b ! i)) \<noteq> pt_id ?p"
      using registered_unique [of b i a] assms(1,2) i False by (auto simp: broker_holds_def)
    from actor_holds_other [OF holds [OF i] touch this] False show ?thesis
      by (simp add: assms(9-11))
  qed
  have room: "vacant w' (home b t j)" if "plain_topic t" "find_sender (rg_topics (bk_registry b)) t j = None" for t j
  proof (rule vacant_other [OF _ touch])
    show "vacant (bk_world b) (home b t j)"
      using assms(1) that by (simp add: broker_holds_def)
    have "find_sender (rg_topics (bk_registry b)) (pt_topic ?p) (pt_id ?p) = Some a"
      using assms(1) len by (simp add: broker_holds_def registered_def)
    then show "t \<noteq> pt_topic ?p \<or> j \<noteq> pt_id ?p"
      using that(2) by auto
  qed
  have "places b' = places b"
    unfolding places_def assms(9) using assms(3) by (intro image_set_update) (simp add: same_partition_def)
  moreover have "tidy b" "(pt_base_dir ?p, pt_sync_level ?p) \<in> places b"
    using assms(1) len by (simp_all add: broker_holds_def places_def)
  moreover from this have "pt_sync_level ?p = rg_sync_level (bk_registry b)"
    by (rule tidy_level)
  ultimately have "tidy b'"
    using tidy_change [of b "pt_topic ?p" "pt_id ?p" b'] touch dir by (simp add: assms(10,11) insert_absorb)
  then show ?thesis
    using assms(1,7,9-11) only_touches_quiet [OF assms(8)] actors room by (simp add: broker_holds_def home)
qed

lemma broker_holds_work:
  assumes "broker_holds b logs" "actor_step bx ch a b = Some (cmd, rep, b')" "cmd_ok cmd"
    "unat (partition_next_offset (ac_partition (bk_actors b ! a))) < 2 ^ 63"
  shows "\<exists>x new. rep = Some x \<and> added (logs ! a) cmd x new \<and> a < length logs \<and> broker_holds b' (logs[a := logs ! a @ new])"
proof -
  let ?p = "ac_partition (bk_actors b ! a)"
  from assms(2) obtain q p' w' where step: "live b a"
    "actor_handle bx cmd (?p, bk_world b) = (rep, (p', w'))"
    "b' = b \<lparr> bk_actors := (bk_actors b)[a := \<lparr> ac_partition = p', ac_mailbox = q, ac_alive = (rep \<noteq> None) \<rparr>],
       bk_replies := (case rep of None \<Rightarrow> bk_replies b | Some x \<Rightarrow> (bk_replies b)[reply_of cmd := x]), bk_world := w' \<rparr>"
    by (rule actor_step_cases)
  have a: "a < length logs" "quiet (bk_world b)" "actor_holds b a (logs ! a)"
    using step(1) assms(1) by (auto simp: live_def broker_holds_def)
  obtain rss where rss: "partition_ok ?p (bk_world b) rss" "concat rss = logs ! a"
    using a(3) by (auto simp: actor_holds_def)
  obtain x new rss' where x: "rep = Some x" "partition_ok p' w' rss'" "concat rss' = concat rss @ new" "added (concat rss) cmd x new"
    "only_touches (dir_files (pt_base_dir ?p)) (bk_world b) w'"
    using actor_handle_holds [OF rss(1) a(2) assms(4,3)] step(2) by auto
  have "registered b'"
    using registered_change [OF broker_change.work [OF assms(2)]] assms(1) by (simp add: broker_holds_def)
  then have "broker_holds b' (logs[a := logs ! a @ new])"
    using broker_holds_write [OF assms(1) a(1), of "\<lparr> ac_partition = p', ac_mailbox = q, ac_alive = True \<rparr>" w' rss'
        "logs ! a @ new" b'] actor_handle_same [OF step(2)] x rss(2) by (simp add: step(3))
  then show ?thesis
    using x(1,4) a(1) rss(2) by auto
qed

lemma broker_open:
  assumes "broker_holds b logs" "plain_topic topic" "find_sender (rg_topics (bk_registry b)) topic pid = None"
  shows "\<exists>p w'. partition_open_or_create bx topic pid (rg_base_dir (bk_registry b)) (rg_max_segment_bytes (bk_registry b))
      (rg_sync_level (bk_registry b)) ((), bk_world b) = (Ok p, ((), w')) \<and>
    partition_ok p w' [[]] \<and> pt_topic p = topic \<and> pt_id p = pid \<and> pt_base_dir p = home b topic pid \<and>
    pt_sync_level p = rg_sync_level (bk_registry b) \<and> touches_home b topic pid w' \<and> quiet w'"
proof -
  have q: "quiet (bk_world b)" and mx: "unat (rg_max_segment_bytes (bk_registry b)) < 2 ^ 63"
    and vac: "vacant (bk_world b) (home b topic pid)"
    using assms by (simp_all add: broker_holds_def)
  have dir: "home b topic pid = path_join (path_join (rg_base_dir (bk_registry b)) topic) (show_nat (unat pid))"
    by (simp add: home_def partition_dir_join [OF assms(2)])
  from partition_open_new [OF q dir vac mx, of bx "rg_sync_level (bk_registry b)"]
  obtain p w' where "partition_open_or_create bx topic pid (rg_base_dir (bk_registry b)) (rg_max_segment_bytes (bk_registry b))
      (rg_sync_level (bk_registry b)) ((), bk_world b) = (Ok p, ((), w'))"
    "partition_ok p w' [[]]" "pt_base_dir p = home b topic pid" "pt_topic p = topic" "pt_id p = pid"
    "pt_sync_level p = rg_sync_level (bk_registry b)"
    "only_touches (dirs_to (home b topic pid) \<union> dir_files (home b topic pid)) (bk_world b) w'"
    by blast
  moreover from this have "touches_home b topic pid w'"
    by (intro touches_homeI) (auto simp: partition_ok_def partition_holds_def)
  ultimately show ?thesis
    using only_touches_quiet by blast
qed

lemma broker_holds_create:
  assumes "broker_holds b logs" "create_partition bx ch topic pid b = (r, b')" "plain_topic topic"
    "\<exists>q. ch_new ch (rg_channel_capacity (bk_registry b)) = Some q"
  shows "\<exists>tx logs'. r = Ok tx \<and> broker_holds b' logs' \<and> (logs' = logs \<or> logs' = logs @ [[]]) \<and>
    find_sender (rg_topics (bk_registry b')) topic pid = Some tx"
proof -
  have reg: "registered b'"
    using registered_change [OF broker_change.create [OF assms(2)]] assms(1) by (simp add: broker_holds_def)
  have old: "unat (rg_max_segment_bytes (bk_registry b)) < 2 ^ 63" "length logs = length (bk_actors b)"
    "\<And>i. i < length logs \<Longrightarrow> actor_holds b i (logs ! i)"
    "\<And>t i. plain_topic t \<Longrightarrow> find_sender (rg_topics (bk_registry b)) t i = None \<Longrightarrow> vacant (bk_world b) (home b t i)"
    using assms(1) by (simp_all add: broker_holds_def)
  from assms(2) show ?thesis
  proof (cases rule: create_partition_cases)
    case (found tx)
    have "broker_holds b' logs"
      using assms(1) reg found(3-5) same_settings_simps [OF found(6)]
      by (simp add: broker_holds_def actor_holds_def home_def tidy_def places_def)
    then show ?thesis
      using found(1,2,5) by auto
  next
    case (made p q w)
    obtain w' where new: "w' = w" "partition_ok p w' [[]]" "pt_topic p = topic" "pt_id p = pid"
      "pt_base_dir p = home b topic pid" "touches_home b topic pid w'" "quiet w'"
      "pt_sync_level p = rg_sync_level (bk_registry b)"
      using broker_open [OF assms(1,3) made(1)] made(3) by auto
    note set = same_settings_simps [OF made(8)]
    have "actor_holds b' i ((logs @ [[]]) ! i)" if "i < Suc (length logs)" for i
    proof (cases "i < length logs")
      case True
      have "pt_topic (ac_partition (bk_actors b ! i)) \<noteq> topic \<or> pt_id (ac_partition (bk_actors b ! i)) \<noteq> pid"
        using registered_find [of b i] assms(1) made(1) True old(2) by (auto simp: broker_holds_def)
      from actor_holds_other [OF old(3) [OF True] new(6) this] show ?thesis
        using True old(2) made(5,6) set new(1) by (simp add: nth_append)
    next
      case False
      then show ?thesis
        using that old(2) made(5,6) new(1-5) assms(3) set
        by (auto simp: actor_holds_def nth_append home_def intro!: exI [of _ "[[]]"])
    qed
    moreover have "vacant w (home b t j)" if "plain_topic t" "find_sender (rg_topics (bk_registry b')) t j = None" for t j
      using vacant_other [OF old(4) new(6)] that new(1) made(7) by (auto split: if_splits)
    moreover have "places b' = insert (home b topic pid, rg_sync_level (bk_registry b)) (places b)"
      using made(5) new(5,8) by (simp add: places_def)
    then have "tidy b'"
      using tidy_change [of b topic pid b'] assms(1) new(1,6) made(6) set by (simp add: broker_holds_def)
    ultimately have "broker_holds b' (logs @ [[]])"
      using reg old(1,2) made(5,6) set new(1,7) by (simp add: broker_holds_def home_def)
    then show ?thesis
      using made(2,7) by auto
  next
    case failed
    then show ?thesis
      using broker_open [OF assms(1,3) failed(1)] assms(4) failed(5) by auto
  qed
qed

end

end
