(* ===== verification/Ruka_System.thy ===== *)
theory Ruka_System
  imports Ruka_Broker_Inv
begin

text \<open>
  The system of connections and actors: which commands the handlers send, and that the logs of all
  partitions only grow whatever the order of the steps.
\<close>

section \<open>What the handlers ask for\<close>

fun request_topic :: "request \<Rightarrow> string" where
  "request_topic (Req_Produce r) = pr_topic r"
| "request_topic (Req_ProduceBatch r) = pb_topic r"
| "request_topic (Req_Fetch r) = fq_topic r"

fun request_command :: "request \<Rightarrow> reply_id \<Rightarrow> broker_command" where
  "request_command (Req_Produce r) reply = Cmd_Produce None (Some (pr_payload r)) reply"
| "request_command (Req_ProduceBatch r) reply = Cmd_ProduceBatch (pb_payloads r) reply"
| "request_command (Req_Fetch r) reply = Cmd_Fetch (fq_offset r) (fq_max_bytes r) reply"

text \<open>All commands an asynchronous function may send and all topics it may create.\<close>

primrec all_async :: "(broker_command \<Rightarrow> bool) \<Rightarrow> (string \<Rightarrow> bool) \<Rightarrow> 'r async \<Rightarrow> bool" where
  "all_async P T (Done r) \<longleftrightarrow> True"
| "all_async P T Panicked \<longleftrightarrow> True"
| "all_async P T (ReadTopics k) \<longleftrightarrow> (\<forall>x. all_async P T (k x))"
| "all_async P T (WriteTopics topic pid k) \<longleftrightarrow> T topic \<and> (\<forall>x. all_async P T (k x))"
| "all_async P T (NewReply k) \<longleftrightarrow> (\<forall>x. all_async P T (k x))"
| "all_async P T (Send tx cmd k) \<longleftrightarrow> P cmd \<and> (\<forall>x. all_async P T (k x))"
| "all_async P T (Recv tx rid k) \<longleftrightarrow> (\<forall>x. all_async P T (k x))"

lemma all_async_await: "all_async P T a \<Longrightarrow> (\<And>r. all_async P T (f r)) \<Longrightarrow> all_async P T (await a f)"
  by (induction a) auto

lemma all_async_mono:
  "all_async P T a \<Longrightarrow> all_async P' T' a \<Longrightarrow> all_async (\<lambda>c. P c \<and> P' c) (\<lambda>t. T t \<and> T' t) a"
  by (induction a) auto

lemma all_async_weaken:
  "all_async P T a \<Longrightarrow> (\<And>c. P c \<Longrightarrow> P' c) \<Longrightarrow> (\<And>t. T t \<Longrightarrow> T' t) \<Longrightarrow> all_async P' T' a"
  by (induction a) auto

lemma all_async_ask: "(\<And>reply. P (cmd reply)) \<Longrightarrow> all_async P T (ask_actor ch cid found cmd respond)"
  by (simp add: ask_actor_def split: outcome.split)

lemma all_async_lookup:
  "all_async P T (get_partition topic pid)" "T topic \<Longrightarrow> all_async P T (get_or_create_partition topic pid)"
  by (simp_all add: get_partition_def get_or_create_partition_def split: option.split outcome.split)

lemma handle_request_asks:
  "(\<And>reply. P (request_command req reply)) \<Longrightarrow> T (request_topic req) \<Longrightarrow> all_async P T (handle_request bx ch req)"
  by (cases req)
    (auto simp: handle_produce_def handle_produce_batch_def handle_fetch_def
      intro!: all_async_await all_async_lookup all_async_ask)

lemma all_async_step:
  "async_step bx ch h b = Some (h', b') \<Longrightarrow> all_async P T h \<Longrightarrow> all_async P T h'"
  by (cases h) (auto simp: Let_def split: if_splits option.splits prod.splits reply.splits)

context bytes_crate
begin

lemma decoded_payload:
  assumes "codec_decode bx src = (Ok (Some x), rest)"
  shows "length (fr_payload x) \<le> MAX_FRAME_SIZE" "length rest < length src"
proof -
  obtain extra where "body_len x + length extra \<le> MAX_FRAME_SIZE"
    and src: "src = word_be (of_nat (body_len x + length extra) :: u32) @ body_bytes x @ extra @ rest"
    using decode_Some assms unfolding codec_decode_def by blast
  then show "length (fr_payload x) \<le> MAX_FRAME_SIZE"
    by (simp add: body_len_def)
  show "length rest < length src"
    using body_len_ge [of x] by (simp add: src MIN_HEADER_SIZE_def)
qed

lemma batch_piece: "p \<in> set ps \<Longrightarrow> length p \<le> length (batch_bytes ps)"
  by (induction ps) (auto simp: batch_bytes_def payload_field_def)

lemma batch_count: "length ps \<le> length (batch_bytes ps)"
  by (induction ps) (auto simp: batch_bytes_def payload_field_def)

text \<open>The frame limit keeps the commands of a request within the length fields of a record.\<close>

lemma decoded_request_ok:
  assumes "codec_decode bx src = (Ok (Some x), rest)" "request_from_frame bx x = Ok req"
  shows "cmd_ok (request_command req reply)" "request_topic req = fr_topic x"
proof -
  note size = decoded_payload(1) [OF assms(1), unfolded MAX_FRAME_SIZE_def]
  have "cmd_ok (request_command req reply) \<and> request_topic req = fr_topic x"
  proof (cases "fr_api_key x")
    case Produce
    then show ?thesis
      using assms(2) size by (auto simp: request_from_frame_def opt_len_def)
  next
    case Fetch
    then show ?thesis
      using assms(2) by (auto simp: request_from_frame_def obind_eq_Ok split: if_splits)
  next
    case ProduceBatch
    obtain ps where "fr_payload x = batch_bytes ps" "req = Req_ProduceBatch \<lparr> pb_correlation_id = fr_correlation_id x,
        pb_topic = fr_topic x, pb_partition = fr_partition x, pb_payloads = ps \<rparr>"
      using from_frame_batch_Ok [OF ProduceBatch assms(2)] by blast
    then show ?thesis
      using size batch_piece [of _ ps] batch_count [of ps] by (fastforce simp: wf_payload_def)
  next
    case Error
    then show ?thesis
      using assms(2) by (simp add: request_from_frame_def)
  qed
  then show "cmd_ok (request_command req reply)" "request_topic req = fr_topic x"
    by simp_all
qed

end

section \<open>The whole system keeps its logs\<close>

locale system_env = bytes_crate bx + tokio_channel ch items capacity +
    tokio_framed bx fm unread finished written
  for bx :: bytes_ops and ch :: "(broker_command, 'q) chan_ops" and items capacity
    and fm :: "'f framed_ops" and unread finished written

interpretation sample: system_env be_ops list_chan snd fst "list_framed be_ops" fst "\<lambda>f. fst (snd f)" "\<lambda>f. snd (snd f)"
  by unfold_locales

definition cmds_ok :: "('q \<Rightarrow> broker_command list) \<Rightarrow> 'q broker \<Rightarrow> bool" where
  "cmds_ok items b \<longleftrightarrow> (\<forall>actor \<in> set (bk_actors b). \<forall>c \<in> set (items (ac_mailbox actor)). cmd_ok c)"

definition handlers_all :: "(broker_command \<Rightarrow> bool) \<Rightarrow> (string \<Rightarrow> bool) \<Rightarrow> ('q, 'f) system \<Rightarrow> bool" where
  "handlers_all P T s \<longleftrightarrow> (\<forall>cn \<in> set (sy_conns s). \<forall>h. cn_state cn = Handling h \<longrightarrow> all_async P T h)"

definition sys_inv ::
    "(broker_command, 'q) chan_ops \<Rightarrow> ('q \<Rightarrow> broker_command list) \<Rightarrow> ('q, 'f) system \<Rightarrow> log_record list list \<Rightarrow> bool" where
  "sys_inv ch items s logs \<longleftrightarrow>
     broker_holds (sy_broker s) logs \<and> cmds_ok items (sy_broker s) \<and>
     (\<exists>q. ch_new ch (rg_channel_capacity (bk_registry (sy_broker s))) = Some q) \<and>
     handlers_all cmd_ok (\<lambda>t. True) s"

text \<open>
  States in which the requests at work create topics with plain names only, and in which no offset
  comes near the end of the 64-bit range.
\<close>

definition tame :: "('q, 'f) system \<Rightarrow> bool" where
  "tame s \<longleftrightarrow>
     handlers_all (\<lambda>c. True) plain_topic s \<and>
     (\<forall>actor \<in> set (bk_actors (sy_broker s)). unat (partition_next_offset (ac_partition actor)) < 2 ^ 63)"

definition logs_grow :: "log_record list list \<Rightarrow> log_record list list \<Rightarrow> bool" where
  "logs_grow logs logs' \<longleftrightarrow> length logs \<le> length logs' \<and> (\<forall>a < length logs. prefix (logs ! a) (logs' ! a))"

lemma logs_grow_refl [simp]: "logs_grow logs logs"
  by (simp add: logs_grow_def)

lemma logs_grow_trans: "logs_grow l l' \<Longrightarrow> logs_grow l' l'' \<Longrightarrow> logs_grow l l''"
  unfolding logs_grow_def by (meson le_trans less_le_trans prefix_order.trans)

lemma logs_grow_snoc: "logs_grow logs (logs @ [x])"
  by (simp add: logs_grow_def nth_append)

lemma logs_grow_update: "logs_grow logs (logs[a := logs ! a @ new])"
  by (cases "a < length logs") (auto simp: logs_grow_def nth_list_update)

context system_env
begin

lemma next_decoded:
  assumes "fm_next fm f = (Ready (Some (Ok x)), f')"
  shows "codec_decode bx (unread f) = (Ok (Some x), unread f')"
proof -
  obtain r rest where dec: "codec_decode bx (unread f) = (r, rest)"
    by (meson surj_pair)
  have "r \<noteq> Panic"
    using decode_no_panic [of "unread f"] dec by (auto simp: codec_decode_def)
  with dec assms show ?thesis
    using next_frame [of f] next_pending [of f] next_end [of f] next_error [of f]
    by (cases r; cases "finished f") (fastforce split: option.splits if_splits)+
qed

lemma cmds_ok_create:
  assumes "create_partition bx ch topic pid b = (r, b')" "cmds_ok items b"
  shows "cmds_ok items b'"
  using assms(2) new_empty by (rule_tac create_partition_cases [OF assms(1)]) (auto simp: cmds_ok_def)

lemma cmds_ok_send:
  assumes "live b tx" "ch_send ch cmd (ac_mailbox (bk_actors b ! tx)) = Some q" "cmds_ok items b" "cmd_ok cmd"
  shows "cmds_ok items (b \<lparr> bk_actors := (bk_actors b)[tx := (bk_actors b ! tx) \<lparr> ac_mailbox := q \<rparr>] \<rparr>)"
proof -
  have "bk_actors b ! tx \<in> set (bk_actors b)"
    using assms(1) by (simp add: live_def)
  then show ?thesis
    using assms(3,4) send_within [OF assms(2)]
    by (auto simp: cmds_ok_def dest!: set_update_subset_insert [THEN subsetD])
qed

lemma cmds_ok_work:
  assumes "actor_step bx ch a b = Some (cmd, rep, b')" "cmds_ok items b"
  shows "cmds_ok items b'" "cmd_ok cmd"
proof -
  from assms(1) obtain q p w where step: "live b a" "ch_recv ch (ac_mailbox (bk_actors b ! a)) = Some (cmd, q)"
    "b' = b \<lparr> bk_actors := (bk_actors b)[a := \<lparr> ac_partition = p, ac_mailbox = q, ac_alive = (rep \<noteq> None) \<rparr>],
       bk_replies := (case rep of None \<Rightarrow> bk_replies b | Some x \<Rightarrow> (bk_replies b)[reply_of cmd := x]), bk_world := w \<rparr>"
    by (rule actor_step_cases)
  have "bk_actors b ! a \<in> set (bk_actors b)"
    using step(1) by (simp add: live_def)
  then show "cmds_ok items b'" "cmd_ok cmd"
    using assms(2) recv_oldest [OF step(2)] unfolding step(3)
    by (auto simp: cmds_ok_def dest!: set_update_subset_insert [THEN subsetD])
qed

end

lemma broker_holds_replies [simp]: "broker_holds (b \<lparr> bk_replies := rs \<rparr>) logs \<longleftrightarrow> broker_holds b logs"
  by (simp add: broker_holds_def actor_holds_def registered_def home_def tidy_def places_def)

lemma broker_holds_mailbox:
  assumes "broker_holds b logs"
  shows "broker_holds (b \<lparr> bk_actors := (bk_actors b)[tx := (bk_actors b ! tx) \<lparr> ac_mailbox := q \<rparr>] \<rparr>) logs"
proof -
  have "ac_alive ((bk_actors b)[tx := (bk_actors b ! tx) \<lparr> ac_mailbox := q \<rparr>] ! i) = ac_alive (bk_actors b ! i)" for i
    by (cases "tx < length (bk_actors b)") (auto simp: nth_list_update list_update_beyond not_less)
  then show ?thesis
    using assms places_mailbox [of _ b tx q] by (simp add: broker_holds_def actor_holds_def registered_def home_def tidy_def)
qed

text \<open>The part of the invariant that concerns the broker.\<close>

definition broker_inv ::
    "(broker_command, 'q) chan_ops \<Rightarrow> ('q \<Rightarrow> broker_command list) \<Rightarrow> 'q broker \<Rightarrow> log_record list list \<Rightarrow> bool" where
  "broker_inv ch items b logs \<longleftrightarrow>
     broker_holds b logs \<and> cmds_ok items b \<and> (\<exists>q. ch_new ch (rg_channel_capacity (bk_registry b)) = Some q)"

lemma sys_inv_alt:
  "sys_inv ch items s logs \<longleftrightarrow> broker_inv ch items (sy_broker s) logs \<and> handlers_all cmd_ok (\<lambda>t. True) s"
  by (auto simp: sys_inv_def broker_inv_def)

context system_env
begin

lemma async_step_inv:
  assumes "broker_inv ch items b logs" "all_async cmd_ok plain_topic h" "async_step bx ch h b = Some (h', b')"
  shows "\<exists>logs'. broker_inv ch items b' logs' \<and> logs_grow logs logs'"
proof (cases h)
  case (WriteTopics topic pid k)
  obtain r where r: "create_partition bx ch topic pid b = (r, b')"
    using assms(3) WriteTopics by (auto split: prod.splits)
  have pre: "plain_topic topic" "broker_holds b logs" "\<exists>q. ch_new ch (rg_channel_capacity (bk_registry b)) = Some q"
    using assms(1,2) WriteTopics by (simp_all add: broker_inv_def)
  obtain logs' where logs': "broker_holds b' logs'" "logs' = logs \<or> logs' = logs @ [[]]"
    using broker_holds_create [OF pre(2) r pre(1,3)] by (elim exE conjE) (rule that; assumption)
  have "rg_channel_capacity (bk_registry b') = rg_channel_capacity (bk_registry b)"
    by (rule create_partition_cases [OF r]) (simp_all add: same_settings_simps)
  then have "broker_inv ch items b' logs'"
    using assms(1) logs'(1) cmds_ok_create [OF r] by (simp add: broker_inv_def)
  then show ?thesis
    using logs'(2) logs_grow_snoc by auto
next
  case (Send tx cmd k)
  show ?thesis
  proof (cases "live b tx")
    case True
    then obtain q where "ch_send ch cmd (ac_mailbox (bk_actors b ! tx)) = Some q"
      "b' = b \<lparr> bk_actors := (bk_actors b)[tx := (bk_actors b ! tx) \<lparr> ac_mailbox := q \<rparr>] \<rparr>"
      using assms(3) Send by (auto simp: Let_def split: option.splits)
    then have "broker_inv ch items b' logs"
      using assms(1,2) Send cmds_ok_send [OF True] broker_holds_mailbox [of b logs tx q] by (simp add: broker_inv_def)
    then show ?thesis
      using logs_grow_refl by blast
  qed (use assms Send in auto)
qed (use assms in \<open>auto simp: broker_inv_def cmds_ok_def split: reply.splits if_splits\<close>)

lemma connection_step_inv:
  assumes "broker_inv ch items b logs" "connection_step bx ch fm cn b = Some (cn', b')"
    "\<And>h. cn_state cn = Handling h \<Longrightarrow> all_async cmd_ok plain_topic h"
  shows "\<exists>logs'. broker_inv ch items b' logs' \<and> logs_grow logs logs'"
    and "cn_state cn' = Handling h' \<Longrightarrow> all_async cmd_ok (\<lambda>t. True) h'"
proof -
  from assms(2) show "\<exists>logs'. broker_inv ch items b' logs' \<and> logs_grow logs logs'"
  proof (cases rule: connection_step_cases)
    case (handle h h')
    then show ?thesis
      using async_step_inv [OF assms(1) assms(3)] by blast
  qed (use assms(1) in auto)
  assume h': "cn_state cn' = Handling h'"
  from assms(2) show "all_async cmd_ok (\<lambda>t. True) h'"
  proof (cases rule: connection_step_cases)
    case (request x f req)
    then show ?thesis
      using h' decoded_request_ok(1) [OF next_decoded [OF request(2)] request(3)]
      by (auto intro: handle_request_asks)
  next
    case (handle h h1)
    have "all_async cmd_ok plain_topic h1"
      using all_async_step [OF handle(2)] assms(3) [OF handle(1)] by blast
    then show ?thesis
      using handle h' all_async_weaken [of cmd_ok plain_topic h1] by simp
  qed (use h' in auto)
qed

end

text \<open>What a step of the system adds to the logs.\<close>

fun step_added :: "'f event \<Rightarrow> log_record list list \<Rightarrow> log_record list list \<Rightarrow> bool" where
  "step_added (ActorStep a cmd rep) logs logs' \<longleftrightarrow>
     a < length logs \<and> (\<exists>x new. rep = Some x \<and> added (logs ! a) cmd x new \<and> logs' = logs[a := logs ! a @ new])"
| "step_added e logs logs' \<longleftrightarrow> True"

lemma handlers_all_update:
  assumes "handlers_all P T s" "\<And>h. cn_state cn = Handling h \<Longrightarrow> all_async P T h"
  shows "handlers_all P T \<lparr> sy_broker = b, sy_conns = (sy_conns s)[i := cn] \<rparr>"
  unfolding handlers_all_def
proof (intro ballI allI impI)
  fix c h
  assume "c \<in> set (sy_conns \<lparr> sy_broker = b, sy_conns = (sy_conns s)[i := cn] \<rparr>)" and h: "cn_state c = Handling h"
  then have "c = cn \<or> c \<in> set (sy_conns s)"
    using set_update_subset_insert [of "sy_conns s" i cn] by auto
  then show "all_async P T h"
    using assms h unfolding handlers_all_def by blast
qed

lemma handlers_all_nth:
  "handlers_all P T s \<Longrightarrow> i < length (sy_conns s) \<Longrightarrow> cn_state (sy_conns s ! i) = Handling h \<Longrightarrow> all_async P T h"
  unfolding handlers_all_def by (meson nth_mem)

lemma handlers_all_framed:
  assumes "handlers_all P T s" "i < length (sy_conns s)"
  shows "handlers_all P T (s \<lparr> sy_conns := (sy_conns s)[i := (sy_conns s ! i) \<lparr> cn_framed := f \<rparr>] \<rparr>)"
  using handlers_all_update [OF assms(1), of "(sy_conns s ! i) \<lparr> cn_framed := f \<rparr>" "sy_broker s" i]
    handlers_all_nth [OF assms]
  by (simp add: handlers_all_def)

context system_env
begin

lemma sys_step_inv:
  assumes "sys_step bx ch fm s e s'" "sys_inv ch items s logs" "tame s"
  shows "\<exists>logs'. sys_inv ch items s' logs' \<and> logs_grow logs logs' \<and> step_added e logs logs'"
  using assms
proof (induction rule: sys_step.induct)
  case (conn i s cn b)
  have inv: "broker_inv ch items (sy_broker s) logs" "handlers_all cmd_ok (\<lambda>t. True) s"
    "handlers_all (\<lambda>c. True) plain_topic s"
    using conn(3,4) by (simp_all add: sys_inv_alt tame_def)
  have h: "all_async cmd_ok plain_topic h" if "cn_state (sy_conns s ! i) = Handling h" for h
    using all_async_mono [OF handlers_all_nth [OF inv(2) conn(1) that] handlers_all_nth [OF inv(3) conn(1) that]]
    by simp
  obtain logs' where "broker_inv ch items b logs'" "logs_grow logs logs'"
    using connection_step_inv(1) [OF inv(1) conn(2) h] by blast
  moreover have "handlers_all cmd_ok (\<lambda>t. True) \<lparr> sy_broker = b, sy_conns = (sy_conns s)[i := cn] \<rparr>"
    using handlers_all_update [OF inv(2)] connection_step_inv(2) [OF inv(1) conn(2) h] by blast
  ultimately show ?case
    by (intro exI [of _ logs']) (simp add: sys_inv_alt)
next
  case (actor a s cmd rep b)
  have inv: "broker_holds (sy_broker s) logs" "cmds_ok items (sy_broker s)"
    using actor(2) by (simp_all add: sys_inv_def)
  have live: "live (sy_broker s) a" and reg: "bk_registry b = bk_registry (sy_broker s)"
    by (rule actor_step_cases [OF actor(1)]; simp)+
  have "bk_actors (sy_broker s) ! a \<in> set (bk_actors (sy_broker s))"
    using live by (simp add: live_def)
  then have "unat (partition_next_offset (ac_partition (bk_actors (sy_broker s) ! a))) < 2 ^ 63"
    using actor(3) unfolding tame_def by blast
  from broker_holds_work [OF inv(1) actor(1) cmds_ok_work(2) [OF actor(1) inv(2)] this]
  obtain x new where x: "rep = Some x" "added (logs ! a) cmd x new" "a < length logs" "broker_holds b (logs[a := logs ! a @ new])"
    by blast
  have "sys_inv ch items (s \<lparr> sy_broker := b \<rparr>) (logs[a := logs ! a @ new])"
    using actor(2) x(4) cmds_ok_work(1) [OF actor(1) inv(2)] reg by (simp add: sys_inv_def handlers_all_def)
  then show ?case
    using x logs_grow_update by (intro exI [of _ "logs[a := logs ! a @ new]"]) auto
next
  case (accept s f)
  then show ?case
    by (intro exI [of _ logs]) (auto simp: sys_inv_def handlers_all_def)
next
  case (receive i s bs)
  then show ?case
    using handlers_all_framed [of cmd_ok "\<lambda>t. True" s i] by (intro exI [of _ logs]) (auto simp: sys_inv_def)
next
  case (finish i s)
  then show ?case
    using handlers_all_framed [of cmd_ok "\<lambda>t. True" s i] by (intro exI [of _ logs]) (auto simp: sys_inv_def)
next
  case (tick s now)
  then show ?case
    by (intro exI [of _ logs]) (simp add: sys_inv_def broker_holds_clock cmds_ok_def handlers_all_def)
qed

end

end
