(* ===== verification/Ruka_Stages.thy ===== *)
theory Ruka_Stages
  imports Ruka_System
begin

text \<open>
  The stages of a request as an explicit state machine, which the asynchronous handlers implement
  step by step.
\<close>

section \<open>The stages of a request\<close>

fun request_cid :: "request \<Rightarrow> u32" where
  "request_cid (Req_Produce r) = pr_correlation_id r"
| "request_cid (Req_ProduceBatch r) = pb_correlation_id r"
| "request_cid (Req_Fetch r) = fq_correlation_id r"

fun request_partition :: "request \<Rightarrow> u32" where
  "request_partition (Req_Produce r) = pr_partition r"
| "request_partition (Req_ProduceBatch r) = pb_partition r"
| "request_partition (Req_Fetch r) = fq_partition r"

fun writes :: "request \<Rightarrow> bool" where
  "writes (Req_Fetch r) = False"
| "writes req = True"

text \<open>The response to the reply of the partition.\<close>

fun request_respond :: "bytes_ops \<Rightarrow> (broker_command, 'q) chan_ops \<Rightarrow> request \<Rightarrow> reply \<Rightarrow> response" where
  "request_respond bx ch (Req_Produce r) (OffsetReply (Ok offset)) =
     Resp_Produce \<lparr> ps_correlation_id = pr_correlation_id r, ps_topic = pr_topic r, ps_partition = pr_partition r,
       ps_offset = offset \<rparr>"
| "request_respond bx ch (Req_Produce r) (OffsetReply (Err e)) = error_of (pr_correlation_id r) e"
| "request_respond bx ch (Req_ProduceBatch r) (OffsetReply (Ok offset)) =
     Resp_ProduceBatch \<lparr> bs_correlation_id = pb_correlation_id r, bs_topic = pb_topic r, bs_partition = pb_partition r,
       bs_base_offset = offset \<rparr>"
| "request_respond bx ch (Req_ProduceBatch r) (OffsetReply (Err e)) = error_of (pb_correlation_id r) e"
| "request_respond bx ch (Req_Fetch r) (RecordsReply (Ok records)) =
     (if records = [] then error_of (fq_correlation_id r) (OffsetNotFound (fq_offset r))
      else Resp_Fetch \<lparr> fs_correlation_id = fq_correlation_id r, fs_topic = fq_topic r, fs_partition = fq_partition r,
        fs_payload = fetch_payload bx records \<rparr>)"
| "request_respond bx ch (Req_Fetch r) (RecordsReply (Err e)) = error_of (fq_correlation_id r) e"
| "request_respond bx ch req rep = lost_reply ch (request_cid req)"

datatype stage =
    Looking
  | Creating
  | Asking sender
  | Sending sender reply_id
  | Awaiting sender reply_id
  | Answered response
  | Crashed

definition ask_found :: "bytes_ops \<Rightarrow> (broker_command, 'q) chan_ops \<Rightarrow> request \<Rightarrow> sender res \<Rightarrow> response async" where
  "ask_found bx ch req found = ask_actor ch (request_cid req) found (request_command req) (request_respond bx ch req)"

definition dead_writer :: "(broker_command, 'q) chan_ops \<Rightarrow> request \<Rightarrow> response" where
  "dead_writer ch req = from_error (request_cid req) EC_ServerError (''Writer task died: '' @ ch_send_error ch)"

text \<open>What is left of the handler at a stage.\<close>

fun stage_code :: "bytes_ops \<Rightarrow> (broker_command, 'q) chan_ops \<Rightarrow> request \<Rightarrow> stage \<Rightarrow> response async" where
  "stage_code bx ch req Looking = handle_request bx ch req"
| "stage_code bx ch req Creating = WriteTopics (request_topic req) (request_partition req) (ask_found bx ch req)"
| "stage_code bx ch req (Asking tx) = ask_found bx ch req (Ok tx)"
| "stage_code bx ch req (Sending tx rid) =
     Send tx (request_command req rid) (\<lambda>sent.
       if \<not> sent then Done (dead_writer ch req) else Recv tx rid (\<lambda>rep. Done (request_respond bx ch req rep)))"
| "stage_code bx ch req (Awaiting tx rid) = Recv tx rid (\<lambda>rep. Done (request_respond bx ch req rep))"
| "stage_code bx ch req (Answered r) = Done r"
| "stage_code bx ch req Crashed = Panicked"

abbreviation target :: "'q broker \<Rightarrow> request \<Rightarrow> sender option" where
  "target b req \<equiv> find_sender (rg_topics (bk_registry b)) (request_topic req) (request_partition req)"

text \<open>The state machine of a request.\<close>

inductive stage_next ::
    "bytes_ops \<Rightarrow> (broker_command, 'q) chan_ops \<Rightarrow> request \<Rightarrow> 'q broker \<Rightarrow> stage \<Rightarrow> 'q broker \<Rightarrow> stage \<Rightarrow> bool"
  for bx :: bytes_ops and ch :: "(broker_command, 'q) chan_ops" and req :: request where
  found: "target b req = Some tx \<Longrightarrow> stage_next bx ch req b Looking b (Asking tx)"
| missing: "target b req = None \<Longrightarrow> writes req \<Longrightarrow> stage_next bx ch req b Looking b Creating"
| unknown: "target b req = None \<Longrightarrow> \<not> writes req \<Longrightarrow> stage_next bx ch req b Looking b
    (Answered (error_of (request_cid req) (PartitionNotFound (request_topic req) (request_partition req))))"
| made: "create_partition bx ch (request_topic req) (request_partition req) b = (Ok tx, b') \<Longrightarrow>
    stage_next bx ch req b Creating b' (Asking tx)"
| refused: "create_partition bx ch (request_topic req) (request_partition req) b = (Err e, b') \<Longrightarrow>
    stage_next bx ch req b Creating b' (Answered (error_of (request_cid req) e))"
| crashed: "create_partition bx ch (request_topic req) (request_partition req) b = (Panic, b') \<Longrightarrow>
    stage_next bx ch req b Creating b' Crashed"
| asked: "stage_next bx ch req b (Asking tx) (b \<lparr> bk_replies := bk_replies b @ [Waiting] \<rparr>)
    (Sending tx (length (bk_replies b)))"
| dead: "\<not> live b tx \<Longrightarrow> stage_next bx ch req b (Sending tx rid) b (Answered (dead_writer ch req))"
| sent: "live b tx \<Longrightarrow> ch_send ch (request_command req rid) (ac_mailbox (bk_actors b ! tx)) = Some q \<Longrightarrow>
    stage_next bx ch req b (Sending tx rid)
      (b \<lparr> bk_actors := (bk_actors b)[tx := (bk_actors b ! tx) \<lparr> ac_mailbox := q \<rparr>] \<rparr>) (Awaiting tx rid)"
| lost: "bk_replies b ! rid = Waiting \<Longrightarrow> \<not> live b tx \<Longrightarrow>
    stage_next bx ch req b (Awaiting tx rid) b (Answered (request_respond bx ch req Dropped))"
| replied: "bk_replies b ! rid \<noteq> Waiting \<Longrightarrow>
    stage_next bx ch req b (Awaiting tx rid) b (Answered (request_respond bx ch req (bk_replies b ! rid)))"

inductive_cases stage_lookingE: "stage_next bx ch req b Looking b' st'"
inductive_cases stage_creatingE: "stage_next bx ch req b Creating b' st'"
inductive_cases stage_askingE: "stage_next bx ch req b (Asking tx) b' st'"
inductive_cases stage_sendingE: "stage_next bx ch req b (Sending tx rid) b' st'"
inductive_cases stage_awaitingE: "stage_next bx ch req b (Awaiting tx rid) b' st'"
inductive_cases stage_answeredE: "stage_next bx ch req b (Answered r) b' st'"
inductive_cases stage_crashedE: "stage_next bx ch req b Crashed b' st'"

lemma handle_request_shape:
  "handle_request bx ch req =
     ReadTopics (\<lambda>map. case find_sender map (request_topic req) (request_partition req) of
       Some tx \<Rightarrow> ask_found bx ch req (Ok tx)
     | None \<Rightarrow>
         if writes req then WriteTopics (request_topic req) (request_partition req) (ask_found bx ch req)
         else Done (error_of (request_cid req) (PartitionNotFound (request_topic req) (request_partition req))))"
proof -
  have "(\<lambda>rep. case rep of OffsetReply (Ok offset) \<Rightarrow> Resp_Produce \<lparr> ps_correlation_id = pr_correlation_id r,
        ps_topic = pr_topic r, ps_partition = pr_partition r, ps_offset = offset \<rparr>
      | OffsetReply (Err e) \<Rightarrow> error_of (pr_correlation_id r) e | _ \<Rightarrow> lost_reply ch (pr_correlation_id r)) =
      request_respond bx ch (Req_Produce r)" for r
    by (rule ext) (simp split: reply.split outcome.split)
  moreover have "(\<lambda>rep. case rep of OffsetReply (Ok offset) \<Rightarrow> Resp_ProduceBatch \<lparr> bs_correlation_id = pb_correlation_id r,
        bs_topic = pb_topic r, bs_partition = pb_partition r, bs_base_offset = offset \<rparr>
      | OffsetReply (Err e) \<Rightarrow> error_of (pb_correlation_id r) e | _ \<Rightarrow> lost_reply ch (pb_correlation_id r)) =
      request_respond bx ch (Req_ProduceBatch r)" for r
    by (rule ext) (simp split: reply.split outcome.split)
  moreover have "(\<lambda>rep. case rep of RecordsReply (Ok records) \<Rightarrow>
        if records = [] then error_of (fq_correlation_id r) (OffsetNotFound (fq_offset r))
        else Resp_Fetch \<lparr> fs_correlation_id = fq_correlation_id r, fs_topic = fq_topic r, fs_partition = fq_partition r,
          fs_payload = fetch_payload bx records \<rparr>
      | RecordsReply (Err e) \<Rightarrow> error_of (fq_correlation_id r) e | _ \<Rightarrow> lost_reply ch (fq_correlation_id r)) =
      request_respond bx ch (Req_Fetch r)" for r
    by (rule ext) (simp split: reply.split outcome.split)
  ultimately show ?thesis
    by (cases req) (auto simp: handle_produce_def handle_produce_batch_def handle_fetch_def get_or_create_partition_def
        get_partition_def ask_found_def ask_actor_def fun_eq_iff split: option.split outcome.split)
qed

lemma ask_found_simps [simp]:
  "ask_found bx ch req (Err e) = Done (error_of (request_cid req) e)"
  "ask_found bx ch req Panic = Panicked"
  "ask_found bx ch req (Ok tx) = NewReply (\<lambda>rid. stage_code bx ch req (Sending tx rid))"
  by (simp_all add: ask_found_def ask_actor_def dead_writer_def [abs_def] fun_eq_iff)

lemma async_step_Recv:
  "async_step bx ch (Recv tx rid k) b =
     (if bk_replies b ! rid \<noteq> Waiting then Some (k (bk_replies b ! rid), b)
      else if live b tx then None else Some (k Dropped, b))"
  by (simp split: reply.split)

text \<open>The handlers implement the state machine.\<close>

lemma stage_code_step:
  "async_step bx ch (stage_code bx ch req st) b = Some (h', b') \<longleftrightarrow>
    (\<exists>st'. stage_next bx ch req b st b' st' \<and> h' = stage_code bx ch req st')"
proof (cases st)
  case Looking
  then show ?thesis
    by (auto simp: handle_request_shape split: option.splits elim!: stage_lookingE intro: stage_next.intros)
next
  case Creating
  obtain r b1 where "create_partition bx ch (request_topic req) (request_partition req) b = (r, b1)"
    by (meson surj_pair)
  then show ?thesis
    using Creating by (cases r) (auto elim!: stage_creatingE intro: stage_next.intros)
next
  case (Asking tx)
  then show ?thesis
    by (auto elim!: stage_askingE intro: stage_next.intros) 
next
  case (Sending tx rid)
  then show ?thesis
    by (auto simp: Let_def split: option.splits if_splits elim!: stage_sendingE intro: stage_next.intros)
next
  case (Awaiting tx rid)
  then show ?thesis
    by (auto simp: async_step_Recv simp del: async_step.simps split: if_splits elim!: stage_awaitingE
        intro: stage_next.lost stage_next.replied exI [of _ "Answered r" for r])
qed (auto elim: stage_answeredE stage_crashedE)

end
