(* ===== verification/Ruka_Serving.thy ===== *)
theory Ruka_Serving
  imports Ruka_Stages
begin

text \<open>
  Serving requests: the invariant that ties each connection to the request it serves, the commands
  in the mailboxes to the connections that wait for them, and the replies to the logs of the
  partitions; every step of the system keeps it.
\<close>

section \<open>What holds of the requests being served\<close>

text \<open>
  A request being served: the request, the logs when it arrived, and its stage. A reply answers a
  command if the command took effect at one point of the log, after the log at the arrival of the
  request.
\<close>

type_synonym service = "request \<times> log_record list list \<times> stage"

definition log_of :: "log_record list list \<Rightarrow> sender \<Rightarrow> log_record list" where
  "log_of logs tx = (if tx < length logs then logs ! tx else [])"

definition answered :: "log_record list \<Rightarrow> log_record list \<Rightarrow> broker_command \<Rightarrow> reply \<Rightarrow> bool" where
  "answered since log cmd x \<longleftrightarrow> (\<exists>old new later. log = old @ new @ later \<and> prefix since old \<and> added old cmd x new)"

fun stage_ok ::
    "bytes_ops \<Rightarrow> (broker_command, 'q) chan_ops \<Rightarrow> ('q \<Rightarrow> broker_command list) \<Rightarrow> 'q broker \<Rightarrow> log_record list list \<Rightarrow>
     service \<Rightarrow> bool" where
  "stage_ok bx ch items b logs (req, since, Looking) \<longleftrightarrow> True"
| "stage_ok bx ch items b logs (req, since, Creating) \<longleftrightarrow> True"
| "stage_ok bx ch items b logs (req, since, Asking tx) \<longleftrightarrow> target b req = Some tx"
| "stage_ok bx ch items b logs (req, since, Sending tx rid) \<longleftrightarrow>
     target b req = Some tx \<and> rid < length (bk_replies b) \<and> bk_replies b ! rid = Waiting"
| "stage_ok bx ch items b logs (req, since, Awaiting tx rid) \<longleftrightarrow>
     target b req = Some tx \<and> rid < length (bk_replies b) \<and>
     (if bk_replies b ! rid = Waiting then request_command req rid \<in> set (items (ac_mailbox (bk_actors b ! tx)))
      else answered (log_of since tx) (log_of logs tx) (request_command req rid) (bk_replies b ! rid))"
| "stage_ok bx ch items b logs (req, since, Answered r) \<longleftrightarrow>
     (\<exists>tx rid x. target b req = Some tx \<and> answered (log_of since tx) (log_of logs tx) (request_command req rid) x \<and>
        r = request_respond bx ch req x) \<or>
     \<not> writes req \<and> r = error_of (request_cid req) (PartitionNotFound (request_topic req) (request_partition req)) \<and>
     (\<forall>tx. target b req = Some tx \<longrightarrow> length since \<le> tx)"
| "stage_ok bx ch items b logs (req, since, Crashed) \<longleftrightarrow> False"

fun rid_of :: "service option \<Rightarrow> reply_id option" where
  "rid_of (Some (req, since, Sending tx rid)) = Some rid"
| "rid_of (Some (req, since, Awaiting tx rid)) = Some rid"
| "rid_of sv = None"

definition conn_ok ::
    "bytes_ops \<Rightarrow> (broker_command, 'q) chan_ops \<Rightarrow> ('q \<Rightarrow> broker_command list) \<Rightarrow> 'q broker \<Rightarrow> log_record list list \<Rightarrow>
     conn_state \<Rightarrow> service option \<Rightarrow> bool" where
  "conn_ok bx ch items b logs cs sv \<longleftrightarrow>
     (case sv of
        None \<Rightarrow> \<forall>h. cs \<noteq> Handling h
      | Some (req, since, st) \<Rightarrow>
          cs = Handling (stage_code bx ch req st) \<and> logs_grow since logs \<and> stage_ok bx ch items b logs (req, since, st))"

text \<open>Every command in a mailbox belongs to a connection that waits for its reply.\<close>

definition mail_ok :: "('q \<Rightarrow> broker_command list) \<Rightarrow> 'q broker \<Rightarrow> service option list \<Rightarrow> bool" where
  "mail_ok items b ss \<longleftrightarrow>
     (\<forall>a < length (bk_actors b).
        distinct (map reply_of (items (ac_mailbox (bk_actors b ! a)))) \<and>
        (\<forall>c \<in> set (items (ac_mailbox (bk_actors b ! a))).
           reply_of c < length (bk_replies b) \<and> bk_replies b ! reply_of c = Waiting \<and>
           (\<exists>i < length ss. \<exists>req since. ss ! i = Some (req, since, Awaiting a (reply_of c)) \<and>
              c = request_command req (reply_of c))))"

definition rids_ok :: "service option list \<Rightarrow> bool" where
  "rids_ok ss \<longleftrightarrow>
     (\<forall>i < length ss. \<forall>j < length ss. \<forall>rid. rid_of (ss ! i) = Some rid \<and> rid_of (ss ! j) = Some rid \<longrightarrow> i = j)"

definition serves ::
    "bytes_ops \<Rightarrow> (broker_command, 'q) chan_ops \<Rightarrow> ('q \<Rightarrow> broker_command list) \<Rightarrow> ('q, 'f) system \<Rightarrow>
     log_record list list \<Rightarrow> service option list \<Rightarrow> bool" where
  "serves bx ch items s logs ss \<longleftrightarrow>
     sys_inv ch items s logs \<and> length ss = length (sy_conns s) \<and>
     (\<forall>i < length ss. conn_ok bx ch items (sy_broker s) logs (cn_state (sy_conns s ! i)) (ss ! i)) \<and>
     mail_ok items (sy_broker s) ss \<and> rids_ok ss"

lemma reply_of_request [simp]: "reply_of (request_command req rid) = rid"
  by (cases req) simp_all

lemma log_of_grow: "logs_grow logs logs' \<Longrightarrow> prefix (log_of logs tx) (log_of logs' tx)"
  by (auto simp: log_of_def logs_grow_def)

lemma answered_grow: "answered since log cmd x \<Longrightarrow> prefix log log' \<Longrightarrow> answered since log' cmd x"
  unfolding answered_def prefix_def by (metis append.assoc)

lemma rid_of_cases:
  assumes "rid_of sv = Some rid"
  obtains req since tx where "sv = Some (req, since, Sending tx rid)" | req since tx where "sv = Some (req, since, Awaiting tx rid)"
  using assms by (cases sv rule: rid_of.cases) auto

text \<open>How the broker changes under the steps of the handlers.\<close>

definition broker_grows :: "('q \<Rightarrow> broker_command list) \<Rightarrow> 'q broker \<Rightarrow> 'q broker \<Rightarrow> bool" where
  "broker_grows items b b' \<longleftrightarrow>
     (\<forall>t i tx. find_sender (rg_topics (bk_registry b)) t i = Some tx \<longrightarrow>
        find_sender (rg_topics (bk_registry b')) t i = Some tx) \<and>
     (\<forall>t i tx. find_sender (rg_topics (bk_registry b')) t i = Some tx \<longrightarrow>
        find_sender (rg_topics (bk_registry b)) t i = Some tx \<or> length (bk_actors b) \<le> tx) \<and>
     prefix (bk_replies b) (bk_replies b') \<and> length (bk_actors b) \<le> length (bk_actors b') \<and>
     (\<forall>a < length (bk_actors b). set (items (ac_mailbox (bk_actors b ! a))) \<subseteq> set (items (ac_mailbox (bk_actors b' ! a))))"

lemma broker_grows_refl [simp]: "broker_grows items b b"
  by (simp add: broker_grows_def)

lemma registered_target: "registered b \<Longrightarrow> target b req = Some tx \<Longrightarrow> tx < length (bk_actors b)"
  by (simp add: registered_def)

lemma prefix_nth: "prefix xs ys \<Longrightarrow> i < length xs \<Longrightarrow> ys ! i = xs ! i"
  by (auto simp: prefix_def nth_append)

text \<open>A service that is not concerned by a change stays right.\<close>

lemma stage_ok_keep:
  assumes "stage_ok bx ch items b logs (req, since, st)" "registered b" "logs_grow logs logs'"
    "\<And>tx. target b req = Some tx \<Longrightarrow> target b' req = Some tx"
    "\<And>tx. target b' req = Some tx \<Longrightarrow> target b req = Some tx \<or> length since \<le> tx"
    "length (bk_replies b) \<le> length (bk_replies b')"
    "\<And>rid. rid_of (Some (req, since, st)) = Some rid \<Longrightarrow> rid < length (bk_replies b) \<Longrightarrow>
      bk_replies b' ! rid = bk_replies b ! rid"
    "\<And>tx rid. st = Awaiting tx rid \<Longrightarrow> tx < length (bk_actors b) \<Longrightarrow>
      request_command req rid \<in> set (items (ac_mailbox (bk_actors b ! tx))) \<Longrightarrow>
      request_command req rid \<in> set (items (ac_mailbox (bk_actors b' ! tx)))"
  shows "stage_ok bx ch items b' logs' (req, since, st)"
proof (cases st)
  case (Awaiting tx rid)
  have "tx < length (bk_actors b)"
    using assms(1,2) registered_target unfolding Awaiting by (auto simp del: rid_of.simps)
  then show ?thesis
    using assms(1,6) assms(4) [of tx] assms(7) [of rid] assms(8) [OF Awaiting]
      answered_grow [OF _ log_of_grow [OF assms(3)]]
    by (auto simp: Awaiting split: if_splits)
next
  case (Answered r)
  then show ?thesis
    using assms(1,4,5) answered_grow [OF _ log_of_grow [OF assms(3)]] by simp blast
qed (use assms in \<open>auto\<close>)

lemma conn_ok_keep:
  assumes "conn_ok bx ch items b logs cs sv" "broker_holds b logs" "logs_grow logs logs'" "broker_grows items b b'"
  shows "conn_ok bx ch items b' logs' cs sv"
proof (cases sv)
  case (Some x)
  obtain req since st where x: "x = (req, since, st)" by (cases x)
  have old: "stage_ok bx ch items b logs (req, since, st)" "length since \<le> length (bk_actors b)"
    using assms(1,2) Some x by (simp_all add: conn_ok_def logs_grow_def broker_holds_def)
  have "registered b"
    using assms(2) by (simp add: broker_holds_def)
  have "stage_ok bx ch items b' logs' (req, since, st)"
  proof (rule stage_ok_keep [OF old(1) \<open>registered b\<close> assms(3)])
    fix tx assume "target b' req = Some tx"
    then have "target b req = Some tx \<or> length (bk_actors b) \<le> tx"
      using assms(4) unfolding broker_grows_def by blast
    then show "target b req = Some tx \<or> length since \<le> tx"
      using old(2) le_trans by blast
  qed (use assms(4) in \<open>auto simp: broker_grows_def prefix_nth prefix_length_le\<close>)
  then show ?thesis
    using assms(1,3) logs_grow_trans unfolding Some x conn_ok_def by auto
qed (use assms in \<open>simp add: conn_ok_def\<close>)

section \<open>Every step keeps it\<close>

lemma holds_live: "broker_holds b logs \<Longrightarrow> a < length (bk_actors b) \<Longrightarrow> live b a"
  by (simp add: broker_holds_def actor_holds_def live_def)

lemma holds_registered: "broker_holds b logs \<Longrightarrow> registered b"
  by (simp add: broker_holds_def)

lemma rids_ok_update:
  assumes "rids_ok ss" "\<And>rid j. rid_of sv = Some rid \<Longrightarrow> j < length ss \<Longrightarrow> j \<noteq> i \<Longrightarrow> rid_of (ss ! j) \<noteq> Some rid"
  shows "rids_ok (ss[i := sv])"
  unfolding rids_ok_def
proof (intro allI impI)
  fix k j rid
  assume "k < length (ss[i := sv])" "j < length (ss[i := sv])"
    and "rid_of (ss[i := sv] ! k) = Some rid \<and> rid_of (ss[i := sv] ! j) = Some rid"
  then show "k = j"
    using assms(1) assms(2) [of rid k] assms(2) [of rid j] unfolding rids_ok_def
    by (cases "k = i"; cases "j = i") auto
qed

lemma mailbox_update:
  "tx < length as \<Longrightarrow>
   ac_mailbox ((as :: 'q actor list)[tx := (as ! tx) \<lparr> ac_mailbox := q \<rparr>] ! a) = (if a = tx then q else ac_mailbox (as ! a))"
  by (auto simp: nth_list_update)

text \<open>The mailboxes stay right when no command is waited for by the service that changes.\<close>

lemma mail_ok_update:
  assumes "mail_ok items b ss" "i < length ss"
    "\<And>a rid req since. ss ! i = Some (req, since, Awaiting a rid) \<Longrightarrow> bk_replies b ! rid \<noteq> Waiting \<or> sv = ss ! i"
    "prefix (bk_replies b) (bk_replies b')"
    "\<And>a. a < length (bk_actors b') \<Longrightarrow> items (ac_mailbox (bk_actors b' ! a)) =
      (if a < length (bk_actors b) then items (ac_mailbox (bk_actors b ! a)) else [])"
  shows "mail_ok items b' (ss[i := sv])"
  unfolding mail_ok_def
proof (intro allI impI conjI ballI)
  fix a assume a: "a < length (bk_actors b')"
  show "distinct (map reply_of (items (ac_mailbox (bk_actors b' ! a))))"
    using assms(1) assms(5) [OF a] by (simp add: mail_ok_def)
  fix c assume "c \<in> set (items (ac_mailbox (bk_actors b' ! a)))"
  then have c: "a < length (bk_actors b)" "c \<in> set (items (ac_mailbox (bk_actors b ! a)))"
    using assms(5) [OF a] by (auto split: if_splits)
  then obtain k req since where k: "reply_of c < length (bk_replies b)" "bk_replies b ! reply_of c = Waiting"
    "k < length ss" "ss ! k = Some (req, since, Awaiting a (reply_of c))" "c = request_command req (reply_of c)"
    using assms(1) unfolding mail_ok_def by blast
  then show "reply_of c < length (bk_replies b')" "bk_replies b' ! reply_of c = Waiting"
    using prefix_nth [OF assms(4)] prefix_length_le [OF assms(4)] by auto
  have "k \<noteq> i \<or> sv = ss ! i"
    using assms(3) [of req since a "reply_of c"] k by auto
  then have "ss[i := sv] ! k = Some (req, since, Awaiting a (reply_of c))"
    using k assms(2) by (auto simp: nth_list_update)
  then show "\<exists>i' < length (ss[i := sv]). \<exists>req since. ss[i := sv] ! i' = Some (req, since, Awaiting a (reply_of c)) \<and>
      c = request_command req (reply_of c)"
    using k(3,5) by (intro exI [of _ k]) auto
qed

text \<open>A command that is sent has a reply channel of its own.\<close>

lemma mail_ok_send:
  assumes "mail_ok items b ss" "i < length ss" "ss ! i = Some (req, since, Sending tx rid)" "live b tx"
    "items q = items (ac_mailbox (bk_actors b ! tx)) @ [request_command req rid]"
    "rid < length (bk_replies b)" "bk_replies b ! rid = Waiting" "rids_ok ss"
  shows "mail_ok items (b \<lparr> bk_actors := (bk_actors b)[tx := (bk_actors b ! tx) \<lparr> ac_mailbox := q \<rparr>] \<rparr>)
    (ss[i := Some (req, since, Awaiting tx rid)])"
    (is "mail_ok items ?b ?ss")
  unfolding mail_ok_def
proof (intro allI impI conjI ballI)
  have tx: "tx < length (bk_actors b)"
    using assms(4) by (simp add: live_def)
  have owner: "\<exists>k < length ss. k \<noteq> i \<and> (\<exists>req since. ss ! k = Some (req, since, Awaiting a (reply_of c)) \<and>
      c = request_command req (reply_of c)) \<and> reply_of c < length (bk_replies b) \<and> bk_replies b ! reply_of c = Waiting \<and>
      reply_of c \<noteq> rid"
    if c: "a < length (bk_actors b)" "c \<in> set (items (ac_mailbox (bk_actors b ! a)))" for a c
  proof -
    obtain k req' since' where k: "k < length ss" "ss ! k = Some (req', since', Awaiting a (reply_of c))"
      "c = request_command req' (reply_of c)" "reply_of c < length (bk_replies b)" "bk_replies b ! reply_of c = Waiting"
      using assms(1) c unfolding mail_ok_def by blast
    have "k \<noteq> i"
      using k(2) assms(3) by auto
    moreover have "reply_of c \<noteq> rid"
      using assms(2,3,8) k(1,2) \<open>k \<noteq> i\<close> unfolding rids_ok_def by (metis rid_of.simps(1,2))
    ultimately show ?thesis
      using k by blast
  qed
  fix a assume "a < length (bk_actors ?b)"
  then have a: "a < length (bk_actors b)"
    by simp
  have box: "items (ac_mailbox (bk_actors ?b ! a)) =
      items (ac_mailbox (bk_actors b ! a)) @ (if a = tx then [request_command req rid] else [])"
    using tx assms(5) by (simp add: mailbox_update)
  have "rid \<notin> reply_of ` set (items (ac_mailbox (bk_actors b ! a)))"
    using owner [OF a] by blast
  then show "distinct (map reply_of (items (ac_mailbox (bk_actors ?b ! a))))"
    unfolding box using assms(1) a by (auto simp: mail_ok_def)
  fix c assume c: "c \<in> set (items (ac_mailbox (bk_actors ?b ! a)))"
  show "reply_of c < length (bk_replies ?b)" "bk_replies ?b ! reply_of c = Waiting"
    using owner [OF a, of c] assms(6,7) c unfolding box by (auto split: if_splits)
  show "\<exists>k < length ?ss. \<exists>req since. ?ss ! k = Some (req, since, Awaiting a (reply_of c)) \<and> c = request_command req (reply_of c)"
  proof (cases "c \<in> set (items (ac_mailbox (bk_actors b ! a)))")
    case True
    then show ?thesis
      using owner [OF a True] by (metis length_list_update nth_list_update_neq)
  next
    case False
    then have "c = request_command req rid" "a = tx"
      using c unfolding box by (auto split: if_splits)
    then show ?thesis
      using assms(2) by (intro exI [of _ i]) auto
  qed
qed

context system_env
begin

lemma stage_next_grows:
  assumes "stage_next bx ch req b st b' st'"
  shows "broker_grows items b b'"
proof -
  have create: "broker_grows items b b'" if "create_partition bx ch topic pid b = (r, b')" for topic pid r
    by (rule create_partition_cases [OF that]) (auto simp: broker_grows_def nth_append)
  from assms show ?thesis
  proof (cases rule: stage_next.cases)
    case (sent tx rid q)
    then show ?thesis
      using send_within [OF sent(5)] by (auto simp: broker_grows_def mailbox_update live_def)
  qed (use create in \<open>auto simp: broker_grows_def\<close>)
qed

lemma stage_next_ok:
  assumes "stage_next bx ch req b st b' st'" "stage_ok bx ch items b logs (req, since, st)" "broker_inv ch items b logs"
    "st = Creating \<Longrightarrow> plain_topic (request_topic req)"
  shows "stage_ok bx ch items b' logs (req, since, st')"
proof -
  have holds: "broker_holds b logs" "\<exists>q. ch_new ch (rg_channel_capacity (bk_registry b)) = Some q"
    using assms(3) by (simp_all add: broker_inv_def)
  note live = holds_live [OF holds(1) registered_target [OF holds_registered [OF holds(1)]]]
  have create: "\<exists>tx. r = Ok tx \<and> target b' req = Some tx"
    if "create_partition bx ch (request_topic req) (request_partition req) b = (r, b')" "st = Creating" for r
    using broker_holds_create [OF holds(1) that(1) assms(4) [OF that(2)] holds(2)] by blast
  from assms(1) show ?thesis
  proof (cases rule: stage_next.cases)
    case (sent tx rid q)
    then show ?thesis
      using assms(2) send_within [OF sent(5)] by (simp add: live_def)
  next
    case (replied rid tx)
    then show ?thesis
      using assms(2) by auto
  qed (use assms(2) create live in \<open>auto simp: nth_append\<close>)
qed

lemma stage_next_mail:
  assumes "stage_next bx ch req b st b' st'" "stage_ok bx ch items b logs (req, since, st)" "broker_holds b logs"
    "mail_ok items b ss" "rids_ok ss" "i < length ss" "ss ! i = Some (req, since, st)"
  shows "mail_ok items b' (ss[i := Some (req, since, st')])"
proof -
  note live = holds_live [OF assms(3) registered_target [OF holds_registered [OF assms(3)]]]
  have create: "prefix (bk_replies b) (bk_replies b')" 
    "\<And>a. a < length (bk_actors b') \<Longrightarrow> items (ac_mailbox (bk_actors b' ! a)) =
      (if a < length (bk_actors b) then items (ac_mailbox (bk_actors b ! a)) else [])"
    if "create_partition bx ch topic pid b = (r, b')" for topic pid r
    using new_empty by (rule_tac [!] create_partition_cases [OF that]) (auto simp: nth_append)
  from assms(1) show ?thesis
  proof (cases rule: stage_next.cases)
    case (sent tx rid q)
    then show ?thesis
      using assms(2,7) send_within [OF sent(5)] mail_ok_send [OF assms(4,6) _ sent(4) _ _ _ assms(5)] by simp
  next
    case (replied rid tx)
    then show ?thesis
      using assms(2,7) by (intro mail_ok_update [OF assms(4,6)]) auto
  next
    case (lost rid tx)
    then show ?thesis
      using assms(2) live by auto
  next
    case (made tx)
    then show ?thesis
      using assms(7) create [OF made(3)] by (intro mail_ok_update [OF assms(4,6)]) auto
  next
    case (refused tx)
    then show ?thesis
      using assms(7) create [OF refused(3)] by (intro mail_ok_update [OF assms(4,6)]) auto
  next
    case crashed
    then show ?thesis
      using assms(7) create [OF crashed(3)] by (intro mail_ok_update [OF assms(4,6)]) auto
  qed (use assms(7) in \<open>(intro mail_ok_update [OF assms(4,6)], auto)+\<close>)
qed

end

text \<open>A round of an actor: the reply goes to the connection that waits for it.\<close>

lemma mail_ok_work:
  assumes "mail_ok items b ss" "rids_ok ss" "a < length (bk_actors b)"
    "items (ac_mailbox (bk_actors b ! a)) = cmd # items q"
    "bk_actors b' = (bk_actors b)[a := actor]" "ac_mailbox actor = q" "bk_replies b' = (bk_replies b)[reply_of cmd := x]"
  shows "mail_ok items b' ss"
  unfolding mail_ok_def
proof (intro allI impI conjI ballI)
  obtain k req since where k: "k < length ss" "ss ! k = Some (req, since, Awaiting a (reply_of cmd))"
    using assms(1,3,4) unfolding mail_ok_def by (metis list.set_intros(1))
  fix a' assume "a' < length (bk_actors b')"
  then have a': "a' < length (bk_actors b)"
    using assms(5) by simp
  have box: "items (ac_mailbox (bk_actors b' ! a')) =
      (if a' = a then tl (items (ac_mailbox (bk_actors b ! a))) else items (ac_mailbox (bk_actors b ! a')))"
    using assms(3-6) by (simp add: nth_list_update)
  have dist: "distinct (map reply_of (items (ac_mailbox (bk_actors b ! a'))))"
    using assms(1) a' by (simp add: mail_ok_def)
  then show "distinct (map reply_of (items (ac_mailbox (bk_actors b' ! a'))))"
    unfolding box using assms(4) by (auto split: if_splits)
  fix c assume c: "c \<in> set (items (ac_mailbox (bk_actors b' ! a')))"
  have old: "c \<in> set (items (ac_mailbox (bk_actors b ! a')))"
    using c assms(4) unfolding box by (auto split: if_splits)
  then obtain j req' since' where j: "reply_of c < length (bk_replies b)" "bk_replies b ! reply_of c = Waiting"
    "j < length ss" "ss ! j = Some (req', since', Awaiting a' (reply_of c))" "c = request_command req' (reply_of c)"
    using assms(1) a' unfolding mail_ok_def by blast
  have "reply_of c \<noteq> reply_of cmd"
  proof (cases "a' = a")
    case True
    then have "c \<in> set (items q)" "reply_of cmd \<notin> reply_of ` set (items q)"
      using dist c assms(4) unfolding box by simp_all
    then show ?thesis
      by (metis imageI)
  next
    case False
    then have "j \<noteq> k"
      using j(4) k(2) by auto
    then show ?thesis
      using assms(2) j(3,4) k unfolding rids_ok_def by (metis rid_of.simps(2))
  qed
  then show "reply_of c < length (bk_replies b')" "bk_replies b' ! reply_of c = Waiting"
    using j(1,2) assms(7) by simp_all
  show "\<exists>i < length ss. \<exists>req since. ss ! i = Some (req, since, Awaiting a' (reply_of c)) \<and> c = request_command req (reply_of c)"
    using j(3-5) by blast
qed

lemma added_reply: "added old cmd x new \<Longrightarrow> x \<noteq> Waiting"
  by (cases "(old, cmd, x, new)" rule: added.cases) auto

lemma conn_ok_work:
  assumes "conn_ok bx ch items b logs cs (ss ! j)" "j < length ss" "mail_ok items b ss" "rids_ok ss" "registered b"
    "a < length (bk_actors b)" "items (ac_mailbox (bk_actors b ! a)) = cmd # items q" "length logs = length (bk_actors b)"
    "bk_actors b' = (bk_actors b)[a := actor]" "ac_mailbox actor = q" "bk_replies b' = (bk_replies b)[reply_of cmd := x]"
    "bk_registry b' = bk_registry b" "added (logs ! a) cmd x new" "logs' = logs[a := logs ! a @ new]"
  shows "conn_ok bx ch items b' logs' cs (ss ! j)"
proof (cases "ss ! j")
  case (Some sv)
  obtain req since st where sv: "sv = (req, since, st)" by (cases sv)
  obtain k req' since' where k: "k < length ss" "ss ! k = Some (req', since', Awaiting a (reply_of cmd))"
    "cmd = request_command req' (reply_of cmd)" "reply_of cmd < length (bk_replies b)"
    using assms(3,6,7) unfolding mail_ok_def by (metis list.set_intros(1))
  have old: "cs = Handling (stage_code bx ch req st)" "logs_grow since logs" "stage_ok bx ch items b logs (req, since, st)"
    using assms(1) Some sv by (simp_all add: conn_ok_def)
  have grow: "logs_grow logs logs'"
    unfolding assms(14) by (rule logs_grow_update)
  have "stage_ok bx ch items b' logs' (req, since, st)"
  proof (cases "j = k")
    case True
    have "answered (log_of since a) (log_of logs' a) cmd x"
      unfolding answered_def using log_of_grow [OF old(2), of a] assms(6,8,13)
      by (intro exI [of _ "logs ! a"] exI [of _ new] exI [of _ "[]"]) (simp add: log_of_def assms(14))
    then show ?thesis
      using old(3) k(2-4) Some sv True assms(11,12) added_reply [OF assms(13)] by auto
  next
    case False
    then have other: "rid_of (Some (req, since, st)) \<noteq> Some (reply_of cmd)"
      using assms(2,4) k Some sv unfolding rids_ok_def by (metis rid_of.simps(2))
    show ?thesis
    proof (rule stage_ok_keep [OF old(3) assms(5) grow])
      fix tx rid
      assume "st = Awaiting tx rid" "request_command req rid \<in> set (items (ac_mailbox (bk_actors b ! tx)))"
        "tx < length (bk_actors b)"
      then show "request_command req rid \<in> set (items (ac_mailbox (bk_actors b' ! tx)))"
        using other assms(6,7,9,10) by (cases "tx = a") auto
    qed (use other assms(11,12) in auto)
  qed
  then show ?thesis
    using old(1,2) logs_grow_trans [OF _ grow] Some sv by (simp add: conn_ok_def)
qed (use assms(1) in \<open>simp add: conn_ok_def\<close>)

context system_env
begin

text \<open>The step of a connection, with what becomes of the request it serves.\<close>

lemma serves_handle:
  assumes "serves bx ch items s logs ss" "tame s" "i < length (sy_conns s)" "ss ! i = Some (req, since, st)"
    "stage_next bx ch req (sy_broker s) st b' st'"
    "broker_inv ch items b' logs'" "logs_grow logs logs'"
    "sys_inv ch items \<lparr> sy_broker = b', sy_conns = (sy_conns s)[i := cn'] \<rparr> logs'"
    "cn_state cn' = Handling (stage_code bx ch req st')"
  shows "serves bx ch items \<lparr> sy_broker = b', sy_conns = (sy_conns s)[i := cn'] \<rparr> logs' (ss[i := Some (req, since, st')])"
proof -
  let ?b = "sy_broker s"
  have inv: "broker_inv ch items ?b logs" "length ss = length (sy_conns s)" "mail_ok items ?b ss" "rids_ok ss"
    "\<And>j. j < length ss \<Longrightarrow> conn_ok bx ch items ?b logs (cn_state (sy_conns s ! j)) (ss ! j)"
    using assms(1) by (simp_all add: serves_def sys_inv_alt)
  have holds: "broker_holds ?b logs"
    using inv(1) by (simp add: broker_inv_def)
  note grows = stage_next_grows [OF assms(5)]
  have st: "cn_state (sy_conns s ! i) = Handling (stage_code bx ch req st)" "logs_grow since logs"
    "stage_ok bx ch items ?b logs (req, since, st)"
    using inv(5) [of i] inv(2) assms(3,4) by (simp_all add: conn_ok_def)
  have plain: "plain_topic (request_topic req)" if "st = Creating"
    using handlers_all_nth [OF _ assms(3) st(1), of "\<lambda>c. True" plain_topic] assms(2) that by (simp add: tame_def)
  have "stage_ok bx ch items b' logs (req, since, st')"
    using stage_next_ok [OF assms(5) st(3) inv(1) plain] .
  then have "stage_ok bx ch items b' logs' (req, since, st')"
    by (rule stage_ok_keep [OF _ _ assms(7)]) (use assms(6) holds_registered in \<open>auto simp: broker_inv_def\<close>)
  then have new: "conn_ok bx ch items b' logs' (cn_state cn') (Some (req, since, st'))"
    using assms(9) logs_grow_trans [OF st(2) assms(7)] by (simp add: conn_ok_def)
  have "conn_ok bx ch items b' logs' (cn_state ((sy_conns s)[i := cn'] ! j)) (ss[i := Some (req, since, st')] ! j)"
    if "j < length ss" for j
    using new conn_ok_keep [OF inv(5) [OF that] holds assms(7) grows] that inv(2)
    by (cases "j = i") simp_all
  moreover have "mail_ok items b' (ss[i := Some (req, since, st')])"
    using stage_next_mail [OF assms(5) st(3) holds inv(3,4) _ assms(4)] assms(3) inv(2) by simp
  moreover have "rids_ok (ss[i := Some (req, since, st')])"
  proof (rule rids_ok_update [OF inv(4)])
    fix rid j
    assume j: "rid_of (Some (req, since, st')) = Some rid" "j < length ss" "j \<noteq> i"
    show "rid_of (ss ! j) \<noteq> Some rid"
    proof
      assume "rid_of (ss ! j) = Some rid"
      then have "rid < length (bk_replies ?b)"
        using inv(5) [OF j(2)] by (auto simp: conn_ok_def elim!: rid_of_cases)
      with assms(5) j(1) have "rid_of (Some (req, since, st)) = Some rid"
        by (auto elim: stage_next.cases)
      then show False
        using \<open>rid_of (ss ! j) = Some rid\<close> inv(2,4) j(2,3) assms(3,4) unfolding rids_ok_def by metis
    qed
  qed
  ultimately show ?thesis
    using assms(8) inv(2) by (simp add: serves_def)
qed

end

lemma stage_code_head:
  "stage_code bx ch req st = Done r \<longleftrightarrow> st = Answered r"
  "stage_code bx ch req st = Panicked \<longleftrightarrow> st = Crashed"
  "stage_code bx ch req st = ReadTopics k \<Longrightarrow> st = Looking"
  by (cases st; simp add: handle_request_shape)+

text \<open>A connection that serves no request any more, or serves none yet.\<close>

lemma serves_idle:
  assumes "serves bx ch items s logs ss" "i < length (sy_conns s)"
    "sys_inv ch items \<lparr> sy_broker = sy_broker s, sy_conns = (sy_conns s)[i := cn'] \<rparr> logs"
    "conn_ok bx ch items (sy_broker s) logs (cn_state cn') sv"
    "\<And>req since tx rid. ss ! i \<noteq> Some (req, since, Awaiting tx rid)" "rid_of sv = None"
  shows "serves bx ch items \<lparr> sy_broker = sy_broker s, sy_conns = (sy_conns s)[i := cn'] \<rparr> logs (ss[i := sv])"
proof -
  have inv: "length ss = length (sy_conns s)" "mail_ok items (sy_broker s) ss" "rids_ok ss"
    "\<And>j. j < length ss \<Longrightarrow> conn_ok bx ch items (sy_broker s) logs (cn_state (sy_conns s ! j)) (ss ! j)"
    using assms(1) by (simp_all add: serves_def)
  have "mail_ok items (sy_broker s) (ss[i := sv])"
    by (rule mail_ok_update [OF inv(2)]) (use assms(2,5) inv(1) in auto)
  moreover have "rids_ok (ss[i := sv])"
    by (rule rids_ok_update [OF inv(3)]) (simp add: assms(6))
  moreover have "conn_ok bx ch items (sy_broker s) logs (cn_state ((sy_conns s)[i := cn'] ! j)) (ss[i := sv] ! j)"
    if "j < length ss" for j
    using inv(1,4) assms(4) that by (cases "j = i") simp_all
  ultimately show ?thesis
    using assms(3) inv(1) by (simp add: serves_def)
qed

definition busy :: "nat \<Rightarrow> ('q, 'f) system \<Rightarrow> bool" where
  "busy i s \<longleftrightarrow> i < length (sy_conns s) \<and> (\<exists>h. cn_state (sy_conns s ! i) = Handling h)"

text \<open>A step keeps the requests and their arrival at the connections that stay busy.\<close>

definition same_services :: "('q, 'f) system \<Rightarrow> service option list \<Rightarrow> service option list \<Rightarrow> bool" where
  "same_services s' ss ss' \<longleftrightarrow>
     (\<forall>i req since st. i < length ss \<and> ss ! i = Some (req, since, st) \<and> busy i s' \<longrightarrow>
        (\<exists>st'. ss' ! i = Some (req, since, st')))"

lemma same_services_refl [simp]: "same_services s ss ss"
  by (simp add: same_services_def)

lemma same_services_update:
  "\<not> busy i s' \<or> (\<forall>req since st. ss ! i = Some (req, since, st) \<longrightarrow> (\<exists>st'. sv = Some (req, since, st'))) \<Longrightarrow>
   same_services s' ss (ss[i := sv])"
  unfolding same_services_def by (metis nth_list_update_eq nth_list_update_neq)

context system_env
begin

lemma serves_conn_idle:
  assumes "serves bx ch items s logs ss" "i < length (sy_conns s)" "b = sy_broker s \<Longrightarrow> sys_inv ch items s' logs"
    "s' = \<lparr> sy_broker = b, sy_conns = (sy_conns s)[i := cn] \<rparr>"
    "conn_ok bx ch items (sy_broker s) logs (cn_state cn) sv" "rid_of sv = None"
    "\<And>req since tx rid. ss ! i \<noteq> Some (req, since, Awaiting tx rid)" "\<not> busy i s' \<or> ss ! i = None" "b = sy_broker s"
  shows "\<exists>logs' ss'. serves bx ch items s' logs' ss' \<and> logs_grow logs logs' \<and> same_services s' ss ss'"
proof -
  have "serves bx ch items s' logs (ss[i := sv])"
    using serves_idle [OF assms(1,2) _ assms(5,7,6)] assms(3,4,9) by simp
  moreover have "same_services s' ss (ss[i := sv])"
    using assms(8) by (intro same_services_update) auto
  ultimately show ?thesis
    using logs_grow_refl by blast
qed

lemma serves_conn:
  assumes "serves bx ch items s logs ss" "tame s" "i < length (sy_conns s)"
    "connection_step bx ch fm (sy_conns s ! i) (sy_broker s) = Some (cn, b)"
    "s' = \<lparr> sy_broker = b, sy_conns = (sy_conns s)[i := cn] \<rparr>"
  shows "\<exists>logs' ss'. serves bx ch items s' logs' ss' \<and> logs_grow logs logs' \<and> same_services s' ss ss'"
proof -
  have inv: "sys_inv ch items s logs" "conn_ok bx ch items (sy_broker s) logs (cn_state (sy_conns s ! i)) (ss ! i)"
    using assms(1,3) by (simp_all add: serves_def)
  obtain logs' where logs': "sys_inv ch items s' logs'" "logs_grow logs logs'"
    using sys_step_inv [OF sys_step.conn [OF assms(3,4)] inv(1) assms(2)] unfolding assms(5) by blast
  have same: "sys_inv ch items s' logs" if "b = sy_broker s"
    using inv(1) logs'(1) that by (simp add: sys_inv_def assms(5))
  note idle = serves_conn_idle [OF assms(1,3) same assms(5)]
  from assms(4) show ?thesis
  proof (cases rule: connection_step_cases)
    case closed
    then show ?thesis
      using inv(2) assms(3) by (intro idle [where sv = None]) (auto simp: conn_ok_def busy_def assms(5))
  next
    case (request x f req)
    then have "ss ! i = None"
      using inv(2) by (auto simp: conn_ok_def split: option.splits)
    then show ?thesis
      using request by (intro idle [where sv = "Some (req, logs, Looking)"]) (simp_all add: conn_ok_def)
  next
    case (respond r f u)
    then show ?thesis
      using inv(2) assms(3) by (intro idle [where sv = None]) (auto simp: conn_ok_def busy_def assms(5))
  next
    case (handle h h')
    then obtain req since st where st: "ss ! i = Some (req, since, st)" "h = stage_code bx ch req st"
      using inv(2) by (auto simp: conn_ok_def split: option.splits)
    obtain st' where st': "stage_next bx ch req (sy_broker s) st b st'" "h' = stage_code bx ch req st'"
      using handle(2) unfolding st(2) stage_code_step by blast
    have "serves bx ch items s' logs' (ss[i := Some (req, since, st')])"
      unfolding assms(5)
      by (rule serves_handle [OF assms(1-3) st(1) st'(1) _ logs'(2)])
        (use logs'(1) handle(3) st'(2) in \<open>simp_all add: sys_inv_alt assms(5)\<close>)
    moreover have "same_services s' ss (ss[i := Some (req, since, st')])"
      using st(1) by (intro same_services_update) simp
    ultimately show ?thesis
      using logs'(2) by blast
  qed
qed

end

lemma serves_framed:
  assumes "serves bx ch items s logs ss" "i < length (sy_conns s)"
  shows "serves bx ch items (s \<lparr> sy_conns := (sy_conns s)[i := (sy_conns s ! i) \<lparr> cn_framed := f \<rparr>] \<rparr>) logs ss"
proof -
  have "cn_state ((sy_conns s)[i := (sy_conns s ! i) \<lparr> cn_framed := f \<rparr>] ! j) = cn_state (sy_conns s ! j)" for j
    using assms(2) by (cases "j = i") simp_all
  moreover have "sys_inv ch items (s \<lparr> sy_conns := (sy_conns s)[i := (sy_conns s ! i) \<lparr> cn_framed := f \<rparr>] \<rparr>) logs"
    using assms handlers_all_framed [of cmd_ok "\<lambda>t. True" s i] by (auto simp: serves_def sys_inv_def)
  ultimately show ?thesis
    using assms(1) by (simp add: serves_def)
qed

lemma serves_accept:
  assumes "serves bx ch items s logs ss"
  shows "serves bx ch items (s \<lparr> sy_conns := sy_conns s @ [\<lparr> cn_framed = f, cn_state = Reading \<rparr>] \<rparr>) logs (ss @ [None])"
proof -
  have inv: "length ss = length (sy_conns s)" "mail_ok items (sy_broker s) ss" "rids_ok ss"
    "\<And>j. j < length ss \<Longrightarrow> conn_ok bx ch items (sy_broker s) logs (cn_state (sy_conns s ! j)) (ss ! j)"
    using assms by (simp_all add: serves_def)
  have "mail_ok items (sy_broker s) (ss @ [None])"
    using inv(2) unfolding mail_ok_def by (metis length_append less_Suc_eq nth_append_left trans_less_add1)
  moreover have "rids_ok (ss @ [None])"
    using inv(3) by (auto simp: rids_ok_def nth_append)
  moreover have "sys_inv ch items (s \<lparr> sy_conns := sy_conns s @ [\<lparr> cn_framed = f, cn_state = Reading \<rparr>] \<rparr>) logs"
    using assms by (auto simp: serves_def sys_inv_def handlers_all_def)
  ultimately show ?thesis
    using inv(1,4) by (auto simp: serves_def nth_append less_Suc_eq conn_ok_def)
qed

lemma stage_ok_clock: "stage_ok bx ch items (set_clock now b) logs (req, since, st) = stage_ok bx ch items b logs (req, since, st)"
  by (cases st) simp_all

lemma conn_ok_clock: "conn_ok bx ch items (set_clock now b) logs cs sv = conn_ok bx ch items b logs cs sv"
  by (auto simp: conn_ok_def stage_ok_clock split: option.split)

lemma mail_ok_clock: "mail_ok items (set_clock now b) ss = mail_ok items b ss"
  by (simp add: mail_ok_def)

lemma serves_clock:
  assumes "serves bx ch items s logs ss"
  shows "serves bx ch items (s \<lparr> sy_broker := set_clock now (sy_broker s) \<rparr>) logs ss"
  using assms
  by (simp add: serves_def conn_ok_clock mail_ok_clock sys_inv_def broker_holds_clock cmds_ok_def handlers_all_def)

context system_env
begin

lemma serves_actor:
  assumes "actor_step bx ch a (sy_broker (s :: ('q, 'f) system)) = Some (cmd, rep, b)" "serves bx ch items s logs ss" "tame s"
  shows "\<exists>logs'. serves bx ch items (s \<lparr> sy_broker := b \<rparr>) logs' ss \<and> logs_grow logs logs'"
proof -
  have inv: "sys_inv ch items s logs" "mail_ok items (sy_broker s) ss" "rids_ok ss" "length ss = length (sy_conns s)"
    "\<And>j. j < length ss \<Longrightarrow> conn_ok bx ch items (sy_broker s) logs (cn_state (sy_conns s ! j)) (ss ! j)"
    using assms(2) by (simp_all add: serves_def)
  have reg: "registered (sy_broker s)" "length logs = length (bk_actors (sy_broker s))"
    using inv(1) by (simp_all add: sys_inv_def broker_holds_def)
  obtain x new logs' where x: "rep = Some x" "added (logs ! a) cmd x new" "logs' = logs[a := logs ! a @ new]"
    "sys_inv ch items (s \<lparr> sy_broker := b \<rparr>) logs'" "logs_grow logs logs'"
    using sys_step_inv [OF sys_step.actor [OF assms(1)] inv(1) assms(3)] by auto
  from assms(1) obtain q p w where step: "live (sy_broker s) a"
    "ch_recv ch (ac_mailbox (bk_actors (sy_broker s) ! a)) = Some (cmd, q)"
    "b = (sy_broker s) \<lparr> bk_actors := (bk_actors (sy_broker s))[a := \<lparr> ac_partition = p, ac_mailbox = q, ac_alive = (rep \<noteq> None) \<rparr>],
       bk_replies := (case rep of None \<Rightarrow> bk_replies (sy_broker s) | Some x \<Rightarrow> (bk_replies (sy_broker s))[reply_of cmd := x]),
       bk_world := w \<rparr>"
    by (rule actor_step_cases)
  let ?actor = "\<lparr> ac_partition = p, ac_mailbox = q, ac_alive = True \<rparr>"
  have a: "a < length (bk_actors (sy_broker s))" "items (ac_mailbox (bk_actors (sy_broker s) ! a)) = cmd # items q"
    using step(1) recv_oldest [OF step(2)] by (simp_all add: live_def)
  have "mail_ok items b ss"
    by (rule mail_ok_work [OF inv(2,3) a, where x = x and actor = ?actor]) (simp_all add: step(3) x(1))
  moreover have "conn_ok bx ch items b logs' (cn_state (sy_conns s ! j)) (ss ! j)" if "j < length ss" for j
    by (rule conn_ok_work [OF inv(5) [OF that] that inv(2,3) reg(1) a reg(2), where x = x and new = new and actor = ?actor])
      (simp_all add: step(3) x(1-3))
  ultimately show ?thesis
    using x(4,5) inv(3,4) by (intro exI [of _ logs']) (simp add: serves_def)
qed

lemma serves_step:
  assumes "sys_step bx ch fm s e s'" "serves bx ch items s logs ss" "tame s"
  shows "\<exists>logs' ss'. serves bx ch items s' logs' ss' \<and> logs_grow logs logs' \<and> same_services s' ss ss'"
  using assms
proof (induction rule: sys_step.induct)
  case (conn i s cn b)
  then show ?case
    using serves_conn [OF conn(3,4,1,2) refl] by simp
next
  case (actor a s cmd rep b)
  then show ?case
    using serves_actor [OF actor] same_services_refl by blast
next
  case (accept s f)
  then show ?case
    using serves_accept [OF accept(1), of f]
    by (intro exI [of _ logs] exI [of _ "ss @ [None]"]) (simp add: same_services_def nth_append)
next
  case (receive i s bs)
  then show ?case
    using serves_framed [OF receive(2,1)] by (intro exI [of _ logs] exI [of _ ss]) simp
next
  case (finish i s)
  then show ?case
    using serves_framed [OF finish(2,1)] by (intro exI [of _ logs] exI [of _ ss]) simp
next
  case (tick s now)
  then show ?case
    using serves_clock [OF tick(1)] by (intro exI [of _ logs] exI [of _ ss]) simp
qed

lemma serves_run:
  assumes "sys_run bx ch fm tame s es t" "serves bx ch items s logs ss"
  shows "\<exists>logs' ss'. serves bx ch items t logs' ss' \<and> logs_grow logs logs'"
  using assms
proof (induction arbitrary: logs ss rule: sys_run.induct)
  case (more s e t es u)
  from serves_step [OF more(2,5,1)] obtain l1 s1 where "serves bx ch items t l1 s1" "logs_grow logs l1" by blast
  moreover from more(4) [OF this(1)] obtain l2 s2 where "serves bx ch items u l2 s2" "logs_grow l1 l2" by blast
  ultimately show ?case
    using logs_grow_trans by blast
qed auto

text \<open>A connection that stays busy serves the same request.\<close>

lemma serves_busy_run:
  assumes "sys_run bx ch fm (\<lambda>s. tame s \<and> busy i s) s es t" "serves bx ch items s logs ss" "ss ! i = Some (req, since, st)"
  shows "\<exists>logs' ss' st'. serves bx ch items t logs' ss' \<and> logs_grow logs logs' \<and> ss' ! i = Some (req, since, st')"
  using assms
proof (induction arbitrary: logs ss st rule: sys_run.induct)
  case (stop s)
  then show ?case
    using logs_grow_refl by blast
next
  case (more s e t es u)
  from serves_step [OF more(2,5)] more(1) obtain l1 s1 where
    one: "serves bx ch items t l1 s1" "logs_grow logs l1" "same_services t ss s1" by blast
  have "busy i t" "i < length ss"
    using sys_run_ends [OF more(3)] more(1,5) by (simp_all add: busy_def serves_def)
  then obtain st1 where "s1 ! i = Some (req, since, st1)"
    using one(3) more(6) unfolding same_services_def by blast
  from more(4) [OF one(1) this] show ?case
    using logs_grow_trans [OF one(2)] by blast
qed

end

text \<open>When a request has just been taken, the service may be read off the connection.\<close>

lemma serves_restart:
  assumes "serves bx ch items s logs ss" "i < length (sy_conns s)" "cn_state (sy_conns s ! i) = Handling (handle_request bx ch req)"
  shows "serves bx ch items s logs (ss[i := Some (req, logs, Looking)])"
proof -
  have "ss ! i \<noteq> Some (req', since, Awaiting tx rid)" for req' since tx rid
    using assms by (auto simp: serves_def conn_ok_def handle_request_shape)
  moreover have "sys_inv ch items s logs" "conn_ok bx ch items (sy_broker s) logs (cn_state (sy_conns s ! i)) (Some (req, logs, Looking))"
    using assms(1,3) by (simp_all add: serves_def conn_ok_def)
  moreover have same: "\<lparr> sy_broker = sy_broker s, sy_conns = (sy_conns s)[i := sy_conns s ! i] \<rparr> = s"
    by simp
  ultimately show ?thesis
    using serves_idle [OF assms(1,2), of "sy_conns s ! i" "Some (req, logs, Looking)", unfolded same] by simp
qed

end
