(* ===== verification/Ruka_Live.thy ===== *)
theory Ruka_Live
  imports Ruka_Serving
begin

text \<open>
  The start of the broker on an empty data directory, progress as long as a request is being
  served, and a measure that every step of the broker itself decreases.
\<close>

section \<open>The start of the broker\<close>

text \<open>
  A data directory without any entry, a channel capacity that tokio accepts, and a segment limit
  far below the end of the 64-bit range.
\<close>

abbreviation data_path :: "broker_config \<Rightarrow> path" where
  "data_path config \<equiv> path_join [] (data_dir config)"

definition fresh :: "broker_config \<Rightarrow> world \<Rightarrow> bool" where
  "fresh config w \<longleftrightarrow>
     quiet w \<and> (\<forall>q. strict_prefix (data_path config) q \<longrightarrow> map_of (nodes w) q = None) \<and>
     (\<forall>q \<in> dirs_to (data_path config). \<forall>x d. map_of (nodes w) q \<noteq> Some (FileNode x d)) \<and>
     0 < channel_capacity config \<and> channel_capacity config \<le> max_permits \<and> unat (segment_max_bytes config) < 2 ^ 63"

lemma dirs_to_cases:
  assumes "q \<in> dirs_to (base @ cs)"
  shows "q \<in> dirs_to base \<or> strict_prefix base q"
proof -
  obtain k where k: "q = take k (base @ cs)" "0 < k" "k \<le> length (base @ cs)"
    using assms by (auto simp: dirs_to_def)
  show ?thesis
  proof (cases "k \<le> length base")
    case True
    then have "q = take k base"
      using k(1) by simp
    then show ?thesis
      using k(2) True by (auto simp: dirs_to_def)
  next
    case False
    then have "q = base @ take (k - length base) cs" "take (k - length base) cs \<noteq> []"
      using k by auto
    then show ?thesis
      by (simp add: strict_prefix_def)
  qed
qed

text \<open>Nothing below the data directory and no file above it leaves room for every partition.\<close>

lemma vacant_home:
  assumes "\<And>q. strict_prefix base q \<Longrightarrow> map_of (nodes w) q = None"
    "\<And>q x d. q \<in> dirs_to base \<Longrightarrow> map_of (nodes w) q \<noteq> Some (FileNode x d)"
  shows "vacant w (partition_dir base topic pid)"
proof -
  have "map_of (nodes w) q \<noteq> Some (FileNode x d)" if "q \<in> dirs_to (partition_dir base topic pid)" for q x d
  proof (cases "q \<in> dirs_to base")
    case False
    then have "strict_prefix base q"
      using that dirs_to_cases unfolding partition_dir_def by blast
    then show ?thesis
      using assms(1) by simp
  qed (use assms(2) in simp)
  moreover have "map_of (nodes w) (partition_dir base topic pid @ [name]) = None" for name
    using assms(1) by (simp add: partition_dir_def strict_prefix_def)
  ultimately show ?thesis
    by (simp add: vacant_def)
qed

lemma broker_start_empty:
  assumes "fresh config w"
  shows "\<exists>w'. broker_start bx ch config w = Ok \<lparr> sy_broker = \<lparr> bk_registry = registry_new (data_path config)
      (segment_max_bytes config) (default_partitions config) (cfg_sync_level config) (channel_capacity config),
      bk_actors = [], bk_replies = [], bk_world = w' \<rparr>, sy_conns = [] \<rparr> \<and> fresh config w'"
proof (cases "path_exists w (data_path config)")
  case True
  note start = assms [unfolded fresh_def]
  have dir: "is_dir w (data_path config)"
  proof (cases "data_path config = []")
    case False
    then have "data_path config \<in> dirs_to (data_path config)"
      by (auto simp: dirs_to_def intro!: exI [of _ "length (data_path config)"])
    then have "map_of (nodes w) (data_path config) \<noteq> Some (FileNode x d)" for x d
      using start by blast
    then show ?thesis
      using True False by (auto simp: path_exists_def is_dir_def) (metis node.exhaust)
  qed (simp add: is_dir_def)
  have "names_in w (data_path config) = []"
  proof (rule names_in_empty)
    fix q assume "q \<noteq> []" "butlast q = data_path config"
    then have "strict_prefix (data_path config) q"
      by (metis append_butlast_last_id strict_prefixI' )
    then show "map_of (nodes w) q = None"
      using start by blast
  qed
  then have "read_dir (data_path config) ((), w) = (Ok [], ((), w))"
    using read_dir_names start dir by simp
  then show ?thesis
    using True assms by (intro exI [of _ w]) (simp add: broker_start_def registry_load_def on_paths_def bindp_def registry_new_def)
next
  case False
  note start = assms [unfolded fresh_def]
  obtain w' where w': "create_dir_all (data_path config) ((), w) = (Ok (), ((), w'))" "has_dir w' (data_path config)"
    "only_touches (dirs_to (data_path config)) w w'"
    using create_dir_all_creates [of w "data_path config"] start by blast
  have "map_of (nodes w') q = None" if "strict_prefix (data_path config) q" for q
  proof -
    have "length (data_path config) < length q"
      using that by (rule prefix_length_less)
    then have "q \<notin> dirs_to (data_path config)"
      using dirs_to_length by fastforce
    then show ?thesis
      using w'(3) start that by (simp add: only_touches_def)
  qed
  moreover have "map_of (nodes w') q \<noteq> Some (FileNode x d)" if "q \<in> dirs_to (data_path config)" for q x d
    using w'(2) that by (auto simp: has_dir_def is_dir_def dirs_to_def)
  ultimately have "fresh config w'"
    using start only_touches_quiet [OF w'(3)] by (simp add: fresh_def)
  then show ?thesis
    using False w'(1) by (intro exI [of _ w']) (simp add: broker_start_def registry_load_def on_paths_def bindp_def)
qed

text \<open>The states of the broker after a start and a run of states with a given property.\<close>

definition reaches ::
    "bytes_ops \<Rightarrow> (broker_command, 'q) chan_ops \<Rightarrow> 'f framed_ops \<Rightarrow> (('q, 'f) system \<Rightarrow> bool) \<Rightarrow> broker_config \<Rightarrow> world \<Rightarrow>
     ('q, 'f) system \<Rightarrow> bool" where
  "reaches bx ch fm P config w s \<longleftrightarrow>
     fresh config w \<and> (\<exists>s0 es. broker_start bx ch config w = Ok s0 \<and> sys_run bx ch fm P s0 es s)"

context system_env
begin

lemma start_serves:
  assumes "fresh config w" "broker_start bx ch config w = Ok (s :: ('q, 'f) system)"
  shows "serves bx ch items s [] []" "boxed items capacity (sy_broker s)" "registered (sy_broker s)"
    "rg_channel_capacity (bk_registry (sy_broker s)) = channel_capacity config"
proof -
  obtain w' where "broker_start bx ch config w = Ok (\<lparr> sy_broker = \<lparr> bk_registry = registry_new (data_path config)
      (segment_max_bytes config) (default_partitions config) (cfg_sync_level config) (channel_capacity config),
      bk_actors = [], bk_replies = [], bk_world = w' \<rparr>, sy_conns = [] \<rparr> :: ('q, 'f) system)" "fresh config w'"
    using broker_start_empty [OF assms(1), of bx ch] by blast
  then have w': "s = \<lparr> sy_broker = \<lparr> bk_registry = registry_new (data_path config)
      (segment_max_bytes config) (default_partitions config) (cfg_sync_level config) (channel_capacity config),
      bk_actors = [], bk_replies = [], bk_world = w' \<rparr>, sy_conns = [] \<rparr>" "fresh config w'"
    using assms(2) by simp_all
  have vac: "vacant w' (partition_dir (data_path config) topic pid)" for topic pid
    using w'(2) by (intro vacant_home) (simp_all add: fresh_def)
  have "\<exists>q. ch_new ch (channel_capacity config) = Some q"
    using new_some assms(1) by (simp add: fresh_def)
  then have "sys_inv ch items s []"
    using w' vac by (simp add: sys_inv_def broker_holds_def cmds_ok_def handlers_all_def registered_def registry_new_def
        find_sender_def home_def fresh_def tidy_def places_def)
  then show "serves bx ch items s [] []"
    by (simp add: serves_def w'(1) mail_ok_def rids_ok_def)
  show "boxed items capacity (sy_broker s)" "registered (sy_broker s)"
    "rg_channel_capacity (bk_registry (sy_broker s)) = channel_capacity config"
    by (simp_all add: w'(1) boxed_def registered_def registry_new_def find_sender_def)
qed

lemma boxed_step: "sys_step bx ch fm s e t \<Longrightarrow> boxed items capacity (sy_broker s) \<Longrightarrow> boxed items capacity (sy_broker t)"
  using boxed_change [OF sys_step_change] tokio_channel_axioms by blast

lemma reaches_serves:
  assumes "reaches bx ch fm tame config w s"
  shows "\<exists>logs ss. serves bx ch items s logs ss" "boxed items capacity (sy_broker s)"
proof -
  obtain s0 es where s0: "fresh config w" "broker_start bx ch config w = Ok s0" "sys_run bx ch fm tame s0 es s"
    using assms by (auto simp: reaches_def)
  show "\<exists>logs ss. serves bx ch items s logs ss"
    using serves_run [OF s0(3) start_serves(1) [OF s0(1,2)]] by blast
  show "boxed items capacity (sy_broker s)"
    by (rule sys_run_keeps [OF s0(3)]) (use start_serves(2) [OF s0(1,2)] boxed_step in auto)
qed

end

section \<open>Progress\<close>

lemma connection_step_handle:
  assumes "cn_state cn = Handling h" "\<forall>r. h \<noteq> Done r" "h \<noteq> Panicked"
  shows "connection_step bx ch fm cn b =
    (case async_step bx ch h b of None \<Rightarrow> None | Some (h', b') \<Rightarrow> Some (cn \<lparr> cn_state := Handling h' \<rparr>, b'))"
  using assms by (cases h) (simp_all add: connection_step_def del: async_step.simps)

lemma stage_conn_step:
  assumes "stage_next bx ch req b st b' st'" "cn_state cn = Handling (stage_code bx ch req st)"
  shows "connection_step bx ch fm cn b = Some (cn \<lparr> cn_state := Handling (stage_code bx ch req st') \<rparr>, b')"
proof -
  have "async_step bx ch (stage_code bx ch req st) b = Some (stage_code bx ch req st', b')"
    unfolding stage_code_step using assms(1) by blast
  moreover have "\<forall>r. stage_code bx ch req st \<noteq> Done r" "stage_code bx ch req st \<noteq> Panicked"
    using assms(1) by (auto simp: stage_code_head elim: stage_answeredE stage_crashedE)
  ultimately show ?thesis
    using connection_step_handle [OF assms(2), of bx ch fm b] by (simp del: async_step.simps)
qed

context system_env
begin

lemma actor_can_work:
  assumes "live (sy_broker s) a" "items (ac_mailbox (bk_actors (sy_broker s) ! a)) \<noteq> []"
  shows "\<exists>cmd rep s'. sys_step bx ch fm s (ActorStep a cmd rep) s'"
proof -
  obtain cmd q where "ch_recv ch (ac_mailbox (bk_actors (sy_broker s) ! a)) = Some (cmd, q)"
    using assms(2) by (rule_tac recv_cases [of "ac_mailbox (bk_actors (sy_broker s) ! a)"]) auto
  moreover obtain rep p w where "actor_handle bx cmd (ac_partition (bk_actors (sy_broker s) ! a), bk_world (sy_broker s)) = (rep, (p, w))"
    by (metis surj_pair)
  ultimately have "actor_step bx ch a (sy_broker s) \<noteq> None"
    using assms(1) by (auto simp: actor_step_def Let_def split: option.split)
  then show ?thesis
    using sys_step.actor [of bx ch a s] by fastforce
qed

text \<open>An empty mailbox takes a command.\<close>

lemma empty_mailbox_takes:
  assumes "live b tx" "boxed items capacity b" "\<exists>q. ch_new ch (rg_channel_capacity (bk_registry b)) = Some q"
    "items (ac_mailbox (bk_actors b ! tx)) = []"
  shows "\<exists>q. ch_send ch cmd (ac_mailbox (bk_actors b ! tx)) = Some q"
proof -
  have "bk_actors b ! tx \<in> set (bk_actors b)"
    using assms(1) by (simp add: live_def)
  then have "capacity (ac_mailbox (bk_actors b ! tx)) = rg_channel_capacity (bk_registry b)"
    using assms(2) by (simp add: boxed_def)
  moreover have "rg_channel_capacity (bk_registry b) \<noteq> 0"
    using assms(3) new_zero by (metis option.distinct(1))
  ultimately show ?thesis
    using assms(4) by (rule_tac send_cases [of cmd "ac_mailbox (bk_actors b ! tx)"]) auto
qed

text \<open>A request that is not answered can take its next step, or the actor it waits for can work.\<close>

lemma stage_can_move:
  assumes "stage_ok bx ch items b logs (req, since, st)" "broker_holds b logs" "boxed items capacity b"
    "\<exists>q. ch_new ch (rg_channel_capacity (bk_registry b)) = Some q"
  shows "(\<exists>b' st'. stage_next bx ch req b st b' st') \<or> (\<exists>r. st = Answered r) \<or>
    (\<exists>tx. live b tx \<and> items (ac_mailbox (bk_actors b ! tx)) \<noteq> [])"
proof (cases st)
  case Looking
  have "\<exists>st'. stage_next bx ch req b Looking b st'"
    by (cases "target b req"; cases "writes req") (auto intro: stage_next.intros)
  then show ?thesis
    using Looking by blast
next
  case Creating
  obtain r b' where "create_partition bx ch (request_topic req) (request_partition req) b = (r, b')"
    by (meson surj_pair)
  then have "\<exists>st'. stage_next bx ch req b Creating b' st'"
    by (cases r) (auto intro: stage_next.intros)
  then show ?thesis
    using Creating by blast
next
  case (Asking tx)
  then show ?thesis
    using stage_next.asked by blast
next
  case (Sending tx rid)
  then have tx: "live b tx"
    using assms(1) holds_live [OF assms(2) registered_target [OF holds_registered [OF assms(2)]]] by auto
  show ?thesis
    using empty_mailbox_takes [OF tx assms(3,4)] stage_next.sent [OF tx] tx unfolding Sending by blast
next
  case (Awaiting tx rid)
  then have "live b tx" "bk_replies b ! rid = Waiting \<Longrightarrow> items (ac_mailbox (bk_actors b ! tx)) \<noteq> []"
    using assms(1) holds_live [OF assms(2) registered_target [OF holds_registered [OF assms(2)]]] by (auto simp del: not_None_eq)
  then show ?thesis
    using stage_next.replied unfolding Awaiting by blast
qed (use assms(1) in auto)

text \<open>As long as a request is being served, the broker can make a step.\<close>

lemma busy_can_step:
  assumes "serves bx ch items s logs ss" "boxed items capacity (sy_broker s)" "busy i s"
  shows "\<exists>e s'. internal e \<and> sys_step bx ch fm s e s'"
proof -
  have i: "i < length (sy_conns s)" "conn_ok bx ch items (sy_broker s) logs (cn_state (sy_conns s ! i)) (ss ! i)"
    and inv: "broker_holds (sy_broker s) logs" "\<exists>q. ch_new ch (rg_channel_capacity (bk_registry (sy_broker s))) = Some q"
    using assms(1,3) by (simp_all add: serves_def busy_def sys_inv_def)
  obtain req since st where st: "cn_state (sy_conns s ! i) = Handling (stage_code bx ch req st)"
    "stage_ok bx ch items (sy_broker s) logs (req, since, st)"
    using i(2) assms(3) by (auto simp: conn_ok_def busy_def split: option.splits)
  have conn: ?thesis if "\<exists>cn b. connection_step bx ch fm (sy_conns s ! i) (sy_broker s) = Some (cn, b)"
    using that sys_step.conn [OF i(1)] internal.simps(1) by blast
  consider b' st' where "stage_next bx ch req (sy_broker s) st b' st'" | r where "st = Answered r" |
    tx where "live (sy_broker s) tx" "items (ac_mailbox (bk_actors (sy_broker s) ! tx)) \<noteq> []"
    using stage_can_move [OF st(2) inv(1) assms(2) inv(2)] by blast
  then show ?thesis
  proof cases
    case 1
    then show ?thesis
      using conn stage_conn_step [OF 1 st(1)] by blast
  next
    case (2 r)
    obtain res f where "fm_send fm (response_into_frame bx r) (cn_framed (sy_conns s ! i)) = (res, f)"
      by (meson surj_pair)
    then show ?thesis
      using st(1) 2 by (intro conn) (cases res; simp add: connection_step_def)
  next
    case (3 tx)
    then show ?thesis
      using actor_can_work [OF 3] internal.simps(2) by blast
  qed
qed

end

section \<open>Termination\<close>

text \<open>
  The work that is left: for every connection the bytes to decode and the operations its handler
  still makes, and the commands in the mailboxes.
\<close>

fun rank :: "'r async \<Rightarrow> nat" where
  "rank (ReadTopics k) = 5"
| "rank (WriteTopics topic pid k) = 4"
| "rank (NewReply k) = 3"
| "rank (Send tx cmd k) = 2"
| "rank (Recv tx rid k) = 1"
| "rank (Done r) = 0"
| "rank Panicked = 0"

definition conn_work :: "('f \<Rightarrow> bytes) \<Rightarrow> 'f connection \<Rightarrow> nat" where
  "conn_work unread cn = 20 * length (unread (cn_framed cn)) +
     (case cn_state cn of Closed \<Rightarrow> 0 | Reading \<Rightarrow> 1 | Handling h \<Rightarrow> 2 * rank h + 2)"

definition mail_work :: "('q \<Rightarrow> broker_command list) \<Rightarrow> 'q broker \<Rightarrow> nat" where
  "mail_work items b = sum_list (map (\<lambda>actor. length (items (ac_mailbox actor))) (bk_actors b))"

definition work_left :: "('q \<Rightarrow> broker_command list) \<Rightarrow> ('f \<Rightarrow> bytes) \<Rightarrow> ('q, 'f) system \<Rightarrow> nat" where
  "work_left items unread s = sum_list (map (conn_work unread) (sy_conns s)) + mail_work items (sy_broker s)"

lemma sum_list_replace:
  "i < length xs \<Longrightarrow> sum_list (map f (xs[i := x])) + f (xs ! i) = sum_list (map f xs) + (f x :: nat)"
  by (induction xs arbitrary: i) (auto split: nat.split)

context system_env
begin

lemma stage_work:
  assumes "stage_next bx ch req b st b' st'"
  shows "2 * rank (stage_code bx ch req st') + mail_work items b' < 2 * rank (stage_code bx ch req st) + mail_work items b"
proof -
  have create: "mail_work items b' = mail_work items b" if "create_partition bx ch topic pid b = (r, b')" for topic pid r
    using new_empty by (rule_tac create_partition_cases [OF that]) (auto simp: mail_work_def)
  from assms show ?thesis
  proof (cases rule: stage_next.cases)
    case (sent tx rid q)
    then show ?thesis
      using send_within [OF sent(5)] sum_list_replace [of tx "bk_actors b" "\<lambda>actor. length (items (ac_mailbox actor))"
          "(bk_actors b ! tx) \<lparr> ac_mailbox := q \<rparr>"]
      by (simp add: mail_work_def live_def)
  qed (use create in \<open>auto simp: handle_request_shape mail_work_def\<close>)
qed

lemma next_shrinks:
  assumes "fm_next fm f = (r, f')" "r \<noteq> Pending"
  shows "length (unread f') \<le> length (unread f)"
proof -
  obtain x rest where dec: "codec_decode bx (unread f) = (x, rest)"
    by (meson surj_pair)
  have "x \<noteq> Panic" "length rest \<le> length (unread f)"
    using decode_no_panic [of "unread f"] decode_shrinks [of "unread f"] dec by (auto simp: codec_decode_def)
  moreover have "unread f' = rest"
    using dec assms \<open>x \<noteq> Panic\<close> next_frame [of f] next_pending [of f] next_end [of f] next_error [of f]
    by (cases x; cases "finished f") (fastforce split: option.splits)+
  ultimately show ?thesis by simp
qed

lemma conn_step_work:
  assumes "connection_step bx ch fm cn b = Some (cn', b')" "conn_ok bx ch items b logs (cn_state cn) sv"
  shows "conn_work unread cn' + mail_work items b' < conn_work unread cn + mail_work items b"
  using assms(1)
proof (cases rule: connection_step_cases)
  case closed
  have "length (unread (cn_framed cn')) \<le> length (unread (cn_framed cn))"
    using closed(3) next_shrinks [of "cn_framed cn"] send_result by (metis order_refl prod.collapse)
  then show ?thesis
    using closed by (auto simp: conn_work_def)
next
  case (request x f req)
  have "length (unread f) < length (unread (cn_framed cn))"
    using decoded_payload(2) [OF next_decoded [OF request(2)]] .
  then show ?thesis
    using request by (simp add: conn_work_def handle_request_shape)
next
  case (respond r f u)
  then show ?thesis
    using send_result [OF respond(2)] by (simp add: conn_work_def)
next
  case (handle h h')
  obtain req since st where st: "h = stage_code bx ch req st"
    using assms(2) handle(1) by (auto simp: conn_ok_def split: option.splits)
  obtain st' where "stage_next bx ch req b st b' st'" "h' = stage_code bx ch req st'"
    using handle(2) unfolding st stage_code_step by blast
  then show ?thesis
    using stage_work handle(1,3) st by (fastforce simp: conn_work_def)
qed

lemma internal_step_work:
  assumes "sys_step bx ch fm s e s'" "internal e" "serves bx ch items s logs ss"
  shows "work_left items unread s' < work_left items unread s"
  using assms
proof (induction rule: sys_step.induct)
  case (conn i s cn b)
  have "conn_work unread cn + mail_work items b < conn_work unread (sy_conns s ! i) + mail_work items (sy_broker s)"
    using conn_step_work [OF conn(2)] conn(1,4) by (auto simp: serves_def)
  then show ?case
    using sum_list_replace [OF conn(1), of "conn_work unread" cn] by (simp add: work_left_def)
next
  case (actor a s cmd rep b)
  from actor(1) obtain q p w where step: "live (sy_broker s) a"
    "ch_recv ch (ac_mailbox (bk_actors (sy_broker s) ! a)) = Some (cmd, q)"
    "bk_actors b = (bk_actors (sy_broker s))[a := \<lparr> ac_partition = p, ac_mailbox = q, ac_alive = (rep \<noteq> None) \<rparr>]"
    by (rule actor_step_cases) simp
  then show ?case
    using recv_oldest [OF step(2)] sum_list_replace [of a "bk_actors (sy_broker s)" "\<lambda>actor. length (items (ac_mailbox actor))"
        "\<lparr> ac_partition = p, ac_mailbox = q, ac_alive = (rep \<noteq> None) \<rparr>"]
    by (simp add: work_left_def mail_work_def live_def)
qed simp_all

lemma internal_run_work:
  assumes "sys_run bx ch fm tame s es t" "serves bx ch items s logs ss" "\<forall>e \<in> set es. internal e"
  shows "length es + work_left items unread t \<le> work_left items unread s"
  using assms
proof (induction arbitrary: logs ss rule: sys_run.induct)
  case (more s e t es u)
  obtain l1 s1 where "serves bx ch items t l1 s1"
    using serves_step [OF more(2,5,1)] by blast
  from more(4) [OF this] show ?case
    using internal_step_work [OF more(2) _ more(5)] more(6) by simp
qed simp

end

end
