(* ===== verification/Ruka_Client.thy ===== *)
theory Ruka_Client
  imports Ruka_Broker
begin

text \<open>
  The example client \<open>examples/client.rs\<close>: the requests it makes, the offset it reads from the
  response to its produce request, and the payload it reads from the response to its fetch
  request. What it prints is left out.
\<close>

section \<open>The demo client\<close>

definition demo_topic :: string where
  "demo_topic = ''demo-topic''"

definition demo_message :: string where
  "demo_message = ''Hello, Ruka! This is a high-performance test message.''"

definition client_produce :: produce_request where
  "client_produce =
     \<lparr> pr_correlation_id = 1, pr_topic = demo_topic, pr_partition = 0, pr_payload = as_bytes demo_message \<rparr>"

definition client_fetch :: "u64 \<Rightarrow> fetch_request" where
  "client_fetch committed_offset =
     \<lparr> fq_correlation_id = 2, fq_topic = demo_topic, fq_partition = 0, fq_offset = committed_offset,
       fq_max_bytes = 4096 \<rparr>"

text \<open>
  The committed offset; it stays 0 when there is no response or another kind of response, and a
  payload of fewer than eight bytes panics.
\<close>

fun client_committed :: "frame res option \<Rightarrow> u64 res" where
  "client_committed (Some (Ok frame)) =
     (if fr_api_key frame = Produce
      then if length (fr_payload frame) < 8 then Panic else Ok (be_word (take 8 (fr_payload frame)))
      else Ok 0)"
| "client_committed response = Ok 0"

text \<open>The payload of the first fetched record, if there is one.\<close>

fun client_received :: "bytes_ops \<Rightarrow> frame res option \<Rightarrow> bytes option res" where
  "client_received bx (Some (Ok frame)) =
     (if fr_api_key frame = Fetch
      then case get_u32 bx (fr_payload frame) of
        None \<Rightarrow> Panic
      | Some (num_records, payload) \<Rightarrow>
          if num_records > 0 then
            obind (fst (record_decode bx payload)) (\<lambda>decoded.
            case decoded of
              None \<Rightarrow> Ok None
            | Some r \<Rightarrow> Ok (Some (case lr_value r of None \<Rightarrow> [] | Some v \<Rightarrow> v)))
          else Ok None
      else Ok None)"
| "client_received bx response = Ok None"

context bytes_crate
begin

lemma client_committed_produce:
  "client_committed (Some (Ok (response_into_frame bx (Resp_Produce r)))) = Ok (ps_offset r)"
  by (simp add: produce_response_into_frame_def writer_laws be_simps)

lemma encode_records_eq: "encode_records bx rs dst = dst @ log_bytes rs"
  by (induction rs arbitrary: dst) (simp_all add: record_encode_eq log_bytes_def)

lemma fetch_payload_eq: "fetch_payload bx rs = word_be (of_nat (length rs) :: u32) @ log_bytes rs"
  by (simp add: fetch_payload_def encode_records_eq writer_laws)

lemma client_received_first:
  assumes "wf_record r" "length rs < 2 ^ 32 - 1" "lr_value r = Some v"
    "fs_payload x = fetch_payload bx (r # rs)"
  shows "client_received bx (Some (Ok (response_into_frame bx (Resp_Fetch x)))) = Ok (Some v)"
proof -
  have "get_u32 bx (fetch_payload bx (r # rs)) = Some (of_nat (length (r # rs)), log_bytes (r # rs))"
    by (simp add: fetch_payload_eq get_u32_Some)
  moreover have "unat (of_nat (length (r # rs)) :: u32) = length (r # rs)"
    using assms(2) by (intro unat_of_nat_u32) simp
  then have "(0 :: u32) < of_nat (length (r # rs))"
    unfolding word_less_nat_alt by simp
  ultimately show ?thesis
    using assms record_decode_bytes [OF assms(1)] by (simp add: fetch_response_into_frame_def log_bytes_def)
qed

end

end
