(* ===== verification/Ruka_Answers.thy ===== *)
theory Ruka_Answers
  imports Ruka_Live Ruka_Client
begin

text \<open>
  What the responses of the broker tell its clients: acknowledged payloads are in the log, a fetch
  sees the log at least as it was when the request arrived, and responses fit their requests.
\<close>

section \<open>What responses say of the logs\<close>

text \<open>The offsets and payloads that a response acknowledges.\<close>

fun acknowledged :: "request \<Rightarrow> response \<Rightarrow> (u64 \<times> bytes) list" where
  "acknowledged (Req_Produce p) (Resp_Produce r) = [(ps_offset r, pr_payload p)]"
| "acknowledged (Req_ProduceBatch p) (Resp_ProduceBatch r) =
     map (\<lambda>k. (bs_base_offset r + of_nat k, pb_payloads p ! k)) [0 ..< length (pb_payloads p)]"
| "acknowledged req r = []"

definition written_record :: "u64 \<Rightarrow> u64 \<Rightarrow> bytes \<Rightarrow> log_record" where
  "written_record ts off payload =
     \<lparr> lr_offset = off, lr_timestamp_ms = ts, lr_key = None, lr_value = Some payload \<rparr>"

lemma written_record_simps [simp]:
  "lr_offset (written_record ts off payload) = off" "lr_value (written_record ts off payload) = Some payload"
  by (simp_all add: written_record_def)

lemma stamp_nth: "k < length ps \<Longrightarrow> stamp ts off ps ! k = written_record ts (off + of_nat k) (ps ! k)"
proof (induction ts off ps arbitrary: k rule: stamp.induct)
  case (2 ts off p ps)
  then show ?case
    by (cases k) (simp_all add: written_record_def add.assoc)
qed simp

lemma acknowledged_added:
  assumes "added old (request_command req rid) x new" "(off, payload) \<in> set (acknowledged req (request_respond bx ch req x))"
  shows "\<exists>ts. written_record ts off payload \<in> set new"
  using assms
proof (cases req)
  case (Req_Produce p)
  then obtain o1 where "x = OffsetReply (Ok o1)"
    using assms by (cases "(bx, ch, req, x)" rule: request_respond.cases) (auto simp: error_of_def from_error_def lost_reply_def)
  then show ?thesis
    using assms Req_Produce by (auto simp: written_record_def)
next
  case (Req_ProduceBatch p)
  then obtain o1 where x: "x = OffsetReply (Ok o1)"
    using assms by (cases "(bx, ch, req, x)" rule: request_respond.cases) (auto simp: error_of_def from_error_def lost_reply_def)
  then obtain ts k where new: "new = stamp ts o1 (pb_payloads p)"
    and k: "k < length (pb_payloads p)" "off = o1 + of_nat k" "payload = pb_payloads p ! k"
    using assms Req_ProduceBatch by auto
  have "stamp ts o1 (pb_payloads p) ! k \<in> set new"
    unfolding new using k(1) by (intro nth_mem) (simp add: length_stamp)
  then show ?thesis
    using k stamp_nth [OF k(1)] by auto
next
  case (Req_Fetch q)
  then show ?thesis
    using assms by (cases "(bx, ch, req, x)" rule: request_respond.cases)
      (auto simp: error_of_def from_error_def lost_reply_def split: if_splits)
qed

lemma holds_log:
  assumes "broker_holds b logs" "target b req = Some tx"
  obtains rss where "partition_ok (ac_partition (bk_actors b ! tx)) (bk_world b) rss" "concat rss = log_of logs tx"
    "tx < length logs" "quiet (bk_world b)"
proof -
  have tx: "tx < length logs"
    using registered_target [OF _ assms(2)] assms(1) by (simp add: broker_holds_def)
  then obtain rss where "partition_ok (ac_partition (bk_actors b ! tx)) (bk_world b) rss" "concat rss = logs ! tx"
    using assms(1) by (auto simp: broker_holds_def actor_holds_def)
  then show ?thesis
    using tx assms(1) by (intro that) (simp_all add: log_of_def broker_holds_def)
qed

lemma log_record_at:
  assumes "broker_holds b logs" "target b req = Some tx" "r \<in> set (log_of logs tx)"
  shows "record_at (lr_offset r) (log_of logs tx) = Some r"
proof -
  obtain rss where rss: "partition_ok (ac_partition (bk_actors b ! tx)) (bk_world b) rss" "concat rss = log_of logs tx"
    using holds_log [OF assms(1,2)] by blast
  then have "sorted_wrt (<) (map lr_offset (log_of logs tx))"
    using offsets_from_sorted [OF holds_offsets] unfolding rss(2) [symmetric] partition_ok_def by blast
  then show ?thesis
    using record_at_nth assms(3) by (metis in_set_conv_nth)
qed

context bytes_crate
begin

lemma log_readable:
  assumes "broker_holds b logs" "target b req = Some tx" "r \<in> set (log_of logs tx)"
  shows "fst (partition_read bx (lr_offset r) (ac_partition (bk_actors b ! tx), bk_world b)) = Ok (Some r)"
proof -
  obtain rss where "partition_ok (ac_partition (bk_actors b ! tx)) (bk_world b) rss" "concat rss = log_of logs tx"
    "quiet (bk_world b)"
    using holds_log [OF assms(1,2)] by blast
  then show ?thesis
    using partition_read_log [of "ac_partition (bk_actors b ! tx)" "bk_world b" rss "lr_offset r"]
      log_record_at [OF assms] by (auto simp: partition_ok_def)
qed

end

context system_env
begin

lemma reaches_run:
  "reaches bx ch fm P config w s \<Longrightarrow> sys_run bx ch fm P s es t \<Longrightarrow> reaches bx ch fm P config w t"
  unfolding reaches_def using sys_run_append by blast

text \<open>The answer to a request, from the state in which it was taken.\<close>

lemma request_answer:
  assumes "serves bx ch items s logs ss" "i < length (sy_conns s)"
    "cn_state (sy_conns s ! i) = Handling (handle_request bx ch req)"
    "sys_run bx ch fm (\<lambda>s. tame s \<and> busy i s) s es t" "cn_state (sy_conns t ! i) = Handling (Done r)"
  obtains logs' ss' where "serves bx ch items t logs' ss'" "logs_grow logs logs'"
    "stage_ok bx ch items (sy_broker t) logs' (req, logs, Answered r)"
proof -
  have "i < length ss"
    using assms(1,2) by (simp add: serves_def)
  then obtain logs' ss' st' where t: "serves bx ch items t logs' ss'" "logs_grow logs logs'"
    "ss' ! i = Some (req, logs, st')"
    using serves_busy_run [OF assms(4) serves_restart [OF assms(1-3)], of req logs Looking] by auto
  have "busy i t"
    using sys_run_ends [OF assms(4)] by blast
  then have "i < length ss'"
    using t(1) by (simp add: serves_def busy_def)
  then have "conn_ok bx ch items (sy_broker t) logs' (cn_state (sy_conns t ! i)) (ss' ! i)"
    using t(1) by (simp add: serves_def)
  then have "stage_code bx ch req st' = Done r" "stage_ok bx ch items (sy_broker t) logs' (req, logs, st')"
    using t(3) assms(5) by (simp_all add: conn_ok_def)
  then show ?thesis
    using t(1,2) that stage_code_head(1) by metis
qed

lemma acknowledged_in_log:
  assumes "stage_ok bx ch items b logs (req, since, Answered r)" "(off, payload) \<in> set (acknowledged req r)"
  shows "\<exists>tx ts. target b req = Some tx \<and> written_record ts off payload \<in> set (log_of logs tx)"
proof -
  have "acknowledged req (error_of cid e) = []" for cid e
    by (cases req) (simp_all add: error_of_def from_error_def)
  then obtain tx rid x where x: "target b req = Some tx"
    "answered (log_of since tx) (log_of logs tx) (request_command req rid) x" "r = request_respond bx ch req x"
    using assms by auto
  then obtain old new later where "log_of logs tx = old @ new @ later" "added old (request_command req rid) x new"
    by (auto simp: answered_def)
  then show ?thesis
    using acknowledged_added assms(2) x by fastforce
qed

lemma serves_holds: "serves bx ch items s logs ss \<Longrightarrow> broker_holds (sy_broker s) logs"
  by (simp add: serves_def sys_inv_def)

lemma target_run:
  assumes "sys_run bx ch fm P t es u" "target (sy_broker t) req = Some tx"
  shows "target (sy_broker u) req = Some tx"
  using assms(1)
proof (rule sys_run_keeps)
  fix s e t'
  assume "sys_step bx ch fm s e t'" and found: "target (sy_broker s) req = Some tx"
  then have "broker_change bx ch (sy_broker s) (sy_broker t')"
    by (simp add: sys_step_change)
  then show "target (sy_broker t') req = Some tx"
    using found
  proof (cases rule: broker_change.cases)
    case (create topic pid r)
    then show ?thesis
      using found by (rule_tac create_partition_cases [OF create]) auto
  next
    case (work a cmd rep)
    then show ?thesis
      using found by (rule_tac actor_step_cases [OF work]) simp
  qed auto
qed (use assms(2) in simp)

end

section \<open>Responses fit their requests\<close>

fun response_fits :: "request \<Rightarrow> response \<Rightarrow> bool" where
  "response_fits (Req_Produce p) (Resp_Produce r) \<longleftrightarrow>
     ps_correlation_id r = pr_correlation_id p \<and> ps_topic r = pr_topic p \<and> ps_partition r = pr_partition p"
| "response_fits (Req_ProduceBatch p) (Resp_ProduceBatch r) \<longleftrightarrow>
     bs_correlation_id r = pb_correlation_id p \<and> bs_topic r = pb_topic p \<and> bs_partition r = pb_partition p"
| "response_fits (Req_Fetch q) (Resp_Fetch r) \<longleftrightarrow>
     fs_correlation_id r = fq_correlation_id q \<and> fs_topic r = fq_topic q \<and> fs_partition r = fq_partition q"
| "response_fits req (Resp_Error e) \<longleftrightarrow> es_correlation_id e = request_cid req"
| "response_fits req r \<longleftrightarrow> False"

lemma error_fits: "response_fits req (error_of (request_cid req) e)" "response_fits req (lost_reply ch (request_cid req))"
    "response_fits req (dead_writer ch req)"
  by (cases req; simp add: error_of_def from_error_def lost_reply_def dead_writer_def)+

lemma respond_fits: "response_fits req (request_respond bx ch req x)"
  using error_fits [of req] by (cases "(bx, ch, req, x)" rule: request_respond.cases) auto

definition at_stage :: "bytes_ops \<Rightarrow> (broker_command, 'q) chan_ops \<Rightarrow> request \<Rightarrow> 'f connection \<Rightarrow> bool" where
  "at_stage bx ch req cn \<longleftrightarrow>
     (\<exists>st. cn_state cn = Handling (stage_code bx ch req st) \<and> (\<forall>r. st = Answered r \<longrightarrow> response_fits req r))"

lemma at_stage_conn:
  assumes "at_stage bx ch req cn" "connection_step bx ch fm cn b = Some (cn', b')" "\<exists>h. cn_state cn' = Handling h"
  shows "at_stage bx ch req cn'"
  using assms(2)
proof (cases rule: connection_step_cases)
  case (request x f req')
  then show ?thesis
    using assms(1) by (auto simp: at_stage_def)
next
  case (handle h h')
  obtain st where st: "h = stage_code bx ch req st"
    using assms(1) handle(1) by (auto simp: at_stage_def)
  obtain st' where "stage_next bx ch req b st b' st'" "h' = stage_code bx ch req st'"
    using handle(2) unfolding st stage_code_step by blast
  moreover from this(1) have "response_fits req r" if "st' = Answered r" for r
    using that error_fits respond_fits by (auto elim!: stage_next.cases)
  ultimately show ?thesis
    using handle(3) by (auto simp: at_stage_def)
qed (use assms(3) in auto)

lemma at_stage_step:
  assumes "sys_step bx ch fm s e t" "busy i s" "busy i t" "at_stage bx ch req (sy_conns s ! i)"
  shows "at_stage bx ch req (sy_conns t ! i)"
  using assms
proof (induction rule: sys_step.induct)
  case (conn j s cn b)
  then show ?case
    using at_stage_conn [OF _ conn(2)] by (cases "j = i") (auto simp: busy_def)
next
  case (receive j s bs)
  then show ?case
    by (cases "j = i") (auto simp: at_stage_def)
next
  case (finish j s)
  then show ?case
    by (cases "j = i") (auto simp: at_stage_def)
qed (auto simp: nth_append busy_def)

lemma sys_step_settings:
  assumes "sys_step bx ch fm s e t"
  shows "same_settings (bk_registry (sy_broker s)) (bk_registry (sy_broker t))"
  using sys_step_change [OF assms]
proof (cases rule: broker_change.cases)
  case (create topic pid r)
  then show ?thesis
    by (rule_tac create_partition_cases [OF create]) simp_all
next
  case (work a cmd rep)
  then show ?thesis
    by (rule_tac actor_step_cases [OF work]) (simp add: same_settings_def)
qed (auto simp: same_settings_def)

context system_env
begin

lemma holds_wf:
  assumes "broker_holds b logs" "target b req = Some tx" "r \<in> set (log_of logs tx)"
  shows "wf_record r"
proof -
  obtain rss where rss: "partition_ok (ac_partition (bk_actors b ! tx)) (bk_world b) rss" "concat rss = log_of logs tx"
    using holds_log [OF assms(1,2)] by blast
  then obtain rs where "rs \<in> set rss" "r \<in> set rs"
    using assms(3) by (auto simp flip: rss(2))
  then obtain k where "k < length rss" "r \<in> set (rss ! k)"
    by (metis in_set_conv_nth)
  then show ?thesis
    using rss(1) by (auto simp: partition_ok_def partition_holds_def segment_holds_def)
qed

lemma fetched_count:
  assumes "fetched rs off mx (r # rest)"
  shows "length rest < 2 ^ 32 - 1"
proof (cases "length (log_bytes (r # rest)) \<le> unat mx")
  case True
  then have "28 * length (r # rest) < 2 ^ 32"
    using length_log_bytes_ge [of "r # rest"] unat_u32_less [of mx] by linarith
  then show ?thesis
    by simp
qed (use assms in \<open>simp add: fetched_def\<close>)

text \<open>A fetch sees what was in the log when it arrived.\<close>

lemma fetch_answer:
  assumes "stage_ok bx ch items b logs (Req_Fetch q, since, Answered r)" "broker_holds b logs" "fq_max_bytes q \<noteq> 0"
    "target b (Req_Fetch q) = Some tx" "rec \<in> set (log_of since tx)" "lr_offset rec = fq_offset q"
  shows "\<exists>x rest. r = Resp_Fetch x \<and> fs_topic x = fq_topic q \<and> fs_payload x = fetch_payload bx (rec # rest) \<and>
    length rest < 2 ^ 32 - 1 \<and> wf_record rec \<and> length (log_bytes (rec # rest)) \<le> max (record_len rec) (unat (fq_max_bytes q))"
proof -
  have "tx < length since"
    using assms(5) by (auto simp: log_of_def split: if_splits)
  then obtain rid x where x: "answered (log_of since tx) (log_of logs tx) (Cmd_Fetch (fq_offset q) (fq_max_bytes q) rid) x"
    "r = request_respond bx ch (Req_Fetch q) x"
    using assms(1,4) by auto
  then obtain old later out where out: "log_of logs tx = old @ later" "prefix (log_of since tx) old"
    "x = RecordsReply (Ok out)" "fetched old (fq_offset q) (fq_max_bytes q) out"
    by (auto simp: answered_def elim!: added.elims)
  have old: "rec \<in> set old" "rec \<in> set (log_of logs tx)"
    using assms(5) out(1) set_mono_prefix [OF out(2)] by auto
  then have "record_at (fq_offset q) old \<noteq> None"
    using assms(6) unfolding record_at_None by (metis imageI)
  then have "record_at (fq_offset q) old = Some rec"
    using log_record_at [OF assms(2,4) old(2)] unfolding out(1) assms(6) by (auto simp: record_at_append)
  then obtain rest where rest: "out = rec # rest"
    using out(4) assms(3) by (auto simp: fetched_def)
  then have "length (log_bytes (rec # rest)) \<le> max (record_len rec) (unat (fq_max_bytes q))"
    using out(4) by (auto simp: fetched_def)
  with rest show ?thesis
    using x(2) out(3,4) fetched_count holds_wf [OF assms(2,4) old(2)] by auto
qed

end

end
