(* ===== verification/Ruka_Demo.thy ===== *)
theory Ruka_Demo
  imports Ruka_Answers
begin

text \<open>
  A run of the whole broker, worked out step by step: the program starts on an empty disk, the demo
  client of \<^verbatim>\<open>examples/client.rs\<close> connects, its produce request creates the topic and is answered
  with offset 0, and its fetch request on the same connection is answered with the message. The
  run shows that the hypotheses of the theorems about runs can be met.
\<close>

section \<open>A connection on its own\<close>

definition lone :: "'q broker \<Rightarrow> 'f \<Rightarrow> conn_state \<Rightarrow> ('q, 'f) system" where
  "lone b f cs = \<lparr> sy_broker = b, sy_conns = [\<lparr> cn_framed = f, cn_state = cs \<rparr>] \<rparr>"

text \<open>All offsets are small.\<close>

definition small :: "'q broker \<Rightarrow> bool" where
  "small b \<longleftrightarrow> (\<forall>actor \<in> set (bk_actors b). unat (partition_next_offset (ac_partition actor)) < 2 ^ 63)"

lemma lone_simps [simp]:
  "sy_broker (lone b f cs) = b" "sy_conns (lone b f cs) = [\<lparr> cn_framed = f, cn_state = cs \<rparr>]"
  "busy 0 (lone b f (Handling h))"
  by (simp_all add: lone_def busy_def)

lemma lone_conn:
  "connection_step bx ch fm \<lparr> cn_framed = f, cn_state = cs \<rparr> b = Some (\<lparr> cn_framed = f', cn_state = cs' \<rparr>, b') \<Longrightarrow>
   sys_step bx ch fm (lone b f cs) (ConnStep 0) (lone b' f' cs')"
  using sys_step.conn [of 0 "lone b f cs" bx ch fm] by (simp add: lone_def)

lemma lone_stage:
  assumes "stage_next bx ch req b st b' st'"
  shows "sys_step bx ch fm (lone b f (Handling (stage_code bx ch req st))) (ConnStep 0)
    (lone b' f (Handling (stage_code bx ch req st')))"
  using stage_conn_step [OF assms, of "\<lparr> cn_framed = f, cn_state = Handling (stage_code bx ch req st) \<rparr>"]
  by (intro lone_conn) simp

lemma lone_actor:
  "actor_step bx ch a b = Some (cmd, rep, b') \<Longrightarrow> sys_step bx ch fm (lone b f cs) (ActorStep a cmd rep) (lone b' f cs)"
  using sys_step.actor [of bx ch a "lone b f cs"] by (simp add: lone_def)

lemma stage_code_plain: "plain_topic (request_topic req) \<Longrightarrow> all_async (\<lambda>c. True) plain_topic (stage_code bx ch req st)"
  by (cases st) (simp_all add: handle_request_asks ask_found_def all_async_ask)

lemma tame_lone:
  "small b \<Longrightarrow> plain_topic (request_topic req) \<Longrightarrow> tame (lone b f (Handling (stage_code bx ch req st)))"
  "small b \<Longrightarrow> tame (lone b f Reading)"
  by (simp_all add: tame_def handlers_all_def small_def stage_code_plain)

lemma small_update:
  "small b \<Longrightarrow> unat (partition_next_offset (ac_partition actor)) < 2 ^ 63 \<Longrightarrow> bk_actors b' = (bk_actors b)[tx := actor] \<Longrightarrow> small b'"
  by (auto simp: small_def dest!: set_update_subset_insert [THEN subsetD])

context system_env
begin

text \<open>From the found partition to the answer.\<close>

lemma serve_lone:
  assumes "live b tx" "0 < capacity (ac_mailbox (bk_actors b ! tx))" "items (ac_mailbox (bk_actors b ! tx)) = []"
    "actor_handle bx (request_command req (length (bk_replies b))) (ac_partition (bk_actors b ! tx), bk_world b) = (Some x, (p, w))"
    "x \<noteq> Waiting" "plain_topic (request_topic req)" "small b" "unat (partition_next_offset p) < 2 ^ 63"
  shows "\<exists>b' q es. sys_run bx ch fm (\<lambda>s. tame s \<and> busy 0 s) (lone b f (Handling (stage_code bx ch req (Asking tx)))) es
      (lone b' f (Handling (stage_code bx ch req (Answered (request_respond bx ch req x))))) \<and> small b' \<and>
    bk_registry b' = bk_registry b \<and> bk_world b' = w \<and> items q = [] \<and> capacity q = capacity (ac_mailbox (bk_actors b ! tx)) \<and>
    bk_actors b' = (bk_actors b)[tx := \<lparr> ac_partition = p, ac_mailbox = q, ac_alive = True \<rparr>]"
proof -
  let ?rid = "length (bk_replies b)"
  let ?cmd = "request_command req ?rid"
  let ?a = "bk_actors b ! tx"
  have tx: "tx < length (bk_actors b)" "ac_alive ?a"
    using assms(1) by (simp_all add: live_def)
  obtain q1 where q1: "ch_send ch ?cmd (ac_mailbox ?a) = Some q1" "items q1 = [?cmd]" "capacity q1 = capacity (ac_mailbox ?a)"
    using send_room [of "ac_mailbox ?a" ?cmd] assms(2,3) by auto
  obtain q2 where q2: "ch_recv ch q1 = Some (?cmd, q2)" "items q2 = []" "capacity q2 = capacity q1"
    using recv_first [OF q1(2)] by blast
  define b1 where "b1 = b \<lparr> bk_replies := bk_replies b @ [Waiting] \<rparr>"
  define b2 where "b2 = b1 \<lparr> bk_actors := (bk_actors b)[tx := ?a \<lparr> ac_mailbox := q1 \<rparr>] \<rparr>"
  define b3 where "b3 = b2 \<lparr> bk_actors := (bk_actors b)[tx := \<lparr> ac_partition = p, ac_mailbox = q2, ac_alive = True \<rparr>],
    bk_replies := (bk_replies b @ [Waiting])[?rid := x], bk_world := w \<rparr>"
  have s1: "stage_next bx ch req b (Asking tx) b1 (Sending tx ?rid)"
    unfolding b1_def by (rule stage_next.asked)
  have s2: "stage_next bx ch req b1 (Sending tx ?rid) b2 (Awaiting tx ?rid)"
    using stage_next.sent [of b1 tx ch req ?rid q1] tx q1(1) by (simp add: b1_def b2_def live_def)
  have s3: "actor_step bx ch tx b2 = Some (?cmd, Some x, b3)"
    using tx q2(1) assms(4) by (simp add: actor_step_def b1_def b2_def b3_def live_def Let_def)
  have s4: "stage_next bx ch req b3 (Awaiting tx ?rid) b3 (Answered (request_respond bx ch req x))"
    using stage_next.replied [of b3 ?rid bx ch req tx] assms(5) by (simp add: b3_def)
  have small: "small b1" "small b2" "small b3"
    using assms(7) tx(1) assms(8) small_update [OF assms(7)]
    by (auto simp: b1_def b2_def b3_def small_def dest!: set_update_subset_insert [THEN subsetD])
  have ok: "tame (lone b f (Handling (stage_code bx ch req st))) \<and> busy 0 (lone b f (Handling (stage_code bx ch req st)))"
    if "small b" for b st
    using tame_lone(1) [OF that assms(6)] by simp
  note run4 = sys_run.stop [where P = "\<lambda>s. tame s \<and> busy 0 s", OF ok [OF small(3)]]
  note run3 = sys_run.more [OF ok [OF small(3)] lone_stage [OF s4, of fm f] run4]
  note run2 = sys_run.more [OF ok [OF small(2)] lone_actor [OF s3, of fm f] run3]
  note run1 = sys_run.more [OF ok [OF small(1)] lone_stage [OF s2, of fm f] run2]
  note run0 = sys_run.more [OF ok [OF assms(7)] lone_stage [OF s1, of fm f] run1]
  have "bk_registry b3 = bk_registry b" "bk_world b3 = w" "capacity q2 = capacity (ac_mailbox ?a)"
    "bk_actors b3 = (bk_actors b)[tx := \<lparr> ac_partition = p, ac_mailbox = q2, ac_alive = True \<rparr>]"
    using q1(3) q2(3) by (simp_all add: b1_def b2_def b3_def)
  then show ?thesis
    using run0 small(3) q2(2) by blast
qed

end

lemma next_of_log:
  assumes "partition_ok p w rss" "concat rss = r # rs"
  shows "unat (partition_next_offset p) = unat (lr_offset r) + length (r # rs)"
proof -
  have holds: "partition_holds p w rss"
    using assms(1) by (simp add: partition_ok_def)
  obtain k where k: "length rss = Suc k" "length (pt_segments p) = Suc k" "k < length rss"
    using holds by (cases rss) (auto simp: partition_holds_def)
  have next1: "partition_next_offset p = sg_next_offset (pt_segments p ! k)"
    using partition_next_last [OF assms(1)] snoc_nth_last(2) [OF k(2)] by simp
  have "segment_holds (pt_segments p ! k) w (rss ! k)"
    using holds k(3) by (simp add: partition_holds_def)
  then have "unat (partition_next_offset p) = unat (base_of p 0) + length (concat (take k rss)) + length (rss ! k)"
    using holds_next holds_chain [OF holds k(3)] next1 by simp
  moreover have "concat (take k rss) @ rss ! k = r # rs"
    using assms(2) k(1,3) by (metis concat.simps concat_append append_Nil2 take_Suc_conv_app_nth take_all_iff order_refl)
  then have "length (concat (take k rss)) + length (rss ! k) = length (r # rs)"
    by (metis length_append)
  moreover have "lr_offset r = base_of p 0"
    using holds_offsets(1) [OF holds] assms(2) by simp
  ultimately show ?thesis
    by simp
qed

section \<open>The demo client and the broker\<close>

definition empty_world :: world where
  "empty_world = \<lparr> nodes = [], choices = [], clock = 5 \<rparr>"

abbreviation demo_pipe :: "pipe framed_ops" where
  "demo_pipe \<equiv> list_framed be_ops"

definition demo_bytes :: "request \<Rightarrow> bytes" where
  "demo_bytes req = frame_encode be_ops (request_frame be_ops req) []"

lemma empty_world_fresh: "fresh broker_config_default empty_world"
  by (simp add: fresh_def empty_world_def quiet_def broker_config_default_def max_permits_def)

lemma demo_plain: "plain_topic demo_topic"
  by (simp add: plain_topic_def demo_topic_def)

lemma demo_next:
  assumes "wf_request req" "wf_frame (request_frame be_ops req)"
  shows "connection_step be_ops ch demo_pipe \<lparr> cn_framed = (demo_bytes req, e, out), cn_state = Reading \<rparr> b =
    Some (\<lparr> cn_framed = ([], e, out), cn_state = Handling (handle_request be_ops ch req) \<rparr>, b)"
  using frame_decode_wire_bytes [OF be.bytes_crate_axioms assms(2), of "[]"] be.from_request_frame [OF assms(1)]
  by (simp add: connection_step_def list_framed_next codec_decode_def demo_bytes_def)

lemma demo_requests:
  "wf_request (Req_Produce client_produce)" "wf_frame (request_frame be_ops (Req_Produce client_produce))"
  "wf_request (Req_Fetch (client_fetch off))" "wf_frame (request_frame be_ops (Req_Fetch (client_fetch off)))"
  by (simp_all add: client_produce_def client_fetch_def demo_topic_def demo_message_def wf_frame_def wf_topic_def
      valid_string_def body_len_def produce_into_frame_def fetch_into_frame_def MAX_FRAME_SIZE_def be.writer_laws
      utf8_valid_ascii as_bytes_def)

lemma client_simps [simp]:
  "pr_topic client_produce = demo_topic" "pr_partition client_produce = 0" "pr_correlation_id client_produce = 1"
  "pr_payload client_produce = as_bytes demo_message" "fq_topic (client_fetch off) = demo_topic"
  "fq_partition (client_fetch off) = 0" "fq_offset (client_fetch off) = off" "fq_max_bytes (client_fetch off) = 4096"
  "fq_correlation_id (client_fetch off) = 2"
  by (simp_all add: client_produce_def client_fetch_def)

text \<open>The broker after the start.\<close>

lemma demo_start:
  obtains b0 where "broker_start be_ops list_chan broker_config_default empty_world =
      Ok (\<lparr> sy_broker = b0, sy_conns = [] \<rparr> :: (nat \<times> broker_command list, pipe) system)"
    "broker_inv list_chan snd b0 []" "boxed snd fst b0" "bk_actors b0 = []" "rg_channel_capacity (bk_registry b0) = 1024"
    "rg_max_segment_bytes (bk_registry b0) = 10485760"
    "find_sender (rg_topics (bk_registry b0)) topic pid = None"
proof -
  obtain w' where start: "broker_start be_ops list_chan broker_config_default empty_world =
      Ok (\<lparr> sy_broker = \<lparr> bk_registry = registry_new (data_path broker_config_default)
        (segment_max_bytes broker_config_default) (default_partitions broker_config_default)
        (cfg_sync_level broker_config_default) (channel_capacity broker_config_default),
        bk_actors = [], bk_replies = [], bk_world = w' \<rparr>, sy_conns = [] \<rparr> :: (nat \<times> broker_command list, pipe) system)"
    using broker_start_empty [OF empty_world_fresh, of be_ops list_chan] by blast
  note facts = sample.start_serves [OF empty_world_fresh start]
  show ?thesis
    by (rule that [OF start])
      (use facts in \<open>simp_all add: serves_def sys_inv_alt registry_new_def broker_config_default_def find_sender_def\<close>)
qed

text \<open>The first request creates the partition.\<close>

lemma demo_created:
  assumes "broker_inv list_chan snd b0 []" "bk_actors b0 = []" "rg_channel_capacity (bk_registry b0) = 1024"
    "rg_max_segment_bytes (bk_registry b0) = 10485760" "find_sender (rg_topics (bk_registry b0)) demo_topic 0 = None"
  obtains b1 p where "create_partition be_ops list_chan demo_topic 0 b0 = (Ok 0, b1)"
    "bk_actors b1 = [\<lparr> ac_partition = p, ac_mailbox = (1024, []), ac_alive = True \<rparr>]"
    "partition_ok p (bk_world b1) [[]]" "quiet (bk_world b1)" "partition_next_offset p = 0" "pt_max_segment_bytes p = 10485760"
    "find_sender (rg_topics (bk_registry b1)) demo_topic 0 = Some 0"
proof -
  have holds: "broker_holds b0 []"
    using assms(1) by (simp add: broker_inv_def)
  obtain r b1 where create: "create_partition be_ops list_chan demo_topic 0 b0 = (r, b1)"
    by (meson surj_pair)
  have "\<exists>q. ch_new list_chan (rg_channel_capacity (bk_registry b0)) = Some (q :: nat \<times> broker_command list)"
    using assms(3) by (simp add: max_permits_def)
  from be.broker_holds_create [OF holds create demo_plain this] obtain tx logs' where
    done1: "r = Ok tx" "broker_holds b1 logs'" "find_sender (rg_topics (bk_registry b1)) demo_topic 0 = Some tx"
    by blast
  have q: "quiet (bk_world b0)" and vac: "vacant (bk_world b0) (home b0 demo_topic 0)"
    using holds assms(5) demo_plain by (simp_all add: broker_holds_def)
  have dir: "home b0 demo_topic 0 = path_join (path_join (rg_base_dir (bk_registry b0)) demo_topic) (show_nat (unat (0 :: u32)))"
    by (simp only: home_def partition_dir_join [OF demo_plain])
  from create show ?thesis
  proof (cases rule: create_partition_cases)
    case (made p q w)
    from partition_open_new [OF q dir vac, of "10485760" be_ops "rg_sync_level (bk_registry b0)"]
    have "partition_ok p w [[]] \<and> partition_next_offset p = 0 \<and> pt_max_segment_bytes p = 10485760"
      using made(3) assms(4) by auto
    moreover have "quiet w"
      using done1(2) made(6) by (simp add: broker_holds_def)
    moreover have "q = (1024, [])"
      using made(4) assms(3) by (simp add: max_permits_def)
    ultimately show ?thesis
      using that [of b1 p] create made(2,5,6) done1 assms(2) by simp
  qed (use assms(5) done1(1) in auto)
qed

lemma record_len_written: "record_len (written_record ts off payload) = 28 + length payload"
  by (simp add: written_record_def record_len_def opt_len_def)

text \<open>The actor stores the message at offset 0 and finds it there.\<close>

lemma demo_stored:
  assumes "partition_ok p w [[]]" "quiet w" "partition_next_offset p = 0" "pt_max_segment_bytes p = 10485760"
  obtains p' w' rss ts where "actor_handle be_ops (request_command (Req_Produce client_produce) rid) (p, w) =
      (Some (OffsetReply (Ok 0)), (p', w'))"
    "partition_ok p' w' rss" "quiet w'" "concat rss = [written_record ts 0 (as_bytes demo_message)]"
proof -
  have len: "length demo_message = 53"
    by (simp add: demo_message_def)
  have adm: "partition_admits (p, w) None (Some (as_bytes demo_message))"
    using assms(3) by (simp add: partition_admits_def opt_len_def len)
  have "\<not> unat (pt_max_segment_bytes p) < record_len (written_record (clock w) 0 (as_bytes demo_message))"
    by (simp add: assms(4) record_len_written len)
  then obtain p' w' rss where "partition_append be_ops None (Some (as_bytes demo_message)) (p, w) = (Ok 0, (p', w'))"
    "partition_ok p' w' rss" "concat rss = [written_record (clock w) 0 (as_bytes demo_message)]"
    "only_touches (dir_files (pt_base_dir p)) w w'"
    using be.partition_append_cases [OF assms(1,2) adm, of "written_record (clock w) 0 (as_bytes demo_message)"] assms(3)
    by (auto simp: written_record_def)
  then show ?thesis
    by (intro that [of p' w' rss "clock w"]) (simp_all add: actor_handle_def client_produce_def only_touches_quiet)
qed

lemma demo_fetched:
  assumes "partition_ok p w rss" "quiet w" "concat rss = [r]" "lr_offset r = 0"
  obtains p' where "actor_handle be_ops (request_command (Req_Fetch (client_fetch 0)) rid) (p, w) =
      (Some (RecordsReply (Ok [r])), (p', w))" "partition_ok p' w rss"
proof -
  have holds: "partition_holds p w rss"
    using assms(1) by (simp add: partition_ok_def)
  obtain out p' where out: "partition_read_batch be_ops 0 4096 (p, w) = (Ok out, (p', w))" "partition_ok p' w rss"
    "fetched [r] 0 4096 out"
    using be.partition_read_batch_fetched [OF holds assms(2), of 0 4096] assms(1,3) by auto
  then obtain rest where "out = r # rest" "subseq out [r]"
    using assms(4) by (auto simp: fetched_def)
  then have "out = [r]"
    using list_emb_length by fastforce
  then show ?thesis
    using out by (intro that [of p']) (simp_all add: actor_handle_def client_fetch_def)
qed

text \<open>
  The run of the demo client: its produce request is taken and answered with offset 0, then its
  fetch request is taken on the same connection and answered with the message.
\<close>

abbreviation demo_run ::
    "((nat \<times> broker_command list, pipe) system \<Rightarrow> bool) \<Rightarrow> (nat \<times> broker_command list, pipe) system \<Rightarrow>
     pipe event list \<Rightarrow> (nat \<times> broker_command list, pipe) system \<Rightarrow> bool" where
  "demo_run \<equiv> sys_run be_ops list_chan demo_pipe"

abbreviation demo_stage :: "request \<Rightarrow> stage \<Rightarrow> conn_state" where
  "demo_stage req st \<equiv> Handling (stage_code be_ops list_chan req st)"

abbreviation demo_ack :: response where
  "demo_ack \<equiv> Resp_Produce \<lparr> ps_correlation_id = 1, ps_topic = demo_topic, ps_partition = 0, ps_offset = 0 \<rparr>"

lemma demo_tame:
  "small b \<Longrightarrow> tame (lone b f (demo_stage (Req_Produce client_produce) st)) \<and> busy 0 (lone b f (demo_stage (Req_Produce client_produce) st))"
  using tame_lone(1) [of b "Req_Produce client_produce"] demo_plain by simp

text \<open>The first request is taken, and the partition is there.\<close>

lemma demo_taken:
  obtains b0 b1 p where
    "reaches be_ops list_chan demo_pipe tame broker_config_default empty_world
      (lone b0 ([], False, []) (demo_stage (Req_Produce client_produce) Looking))"
    "demo_run (\<lambda>s. tame s \<and> busy 0 s) (lone b0 ([], False, []) (demo_stage (Req_Produce client_produce) Looking)) [ConnStep 0, ConnStep 0]
      (lone b1 ([], False, []) (demo_stage (Req_Produce client_produce) (Asking 0)))"
    "small b1" "bk_actors b1 = [\<lparr> ac_partition = p, ac_mailbox = (1024, []), ac_alive = True \<rparr>]"
    "partition_ok p (bk_world b1) [[]]" "quiet (bk_world b1)" "partition_next_offset p = 0" "pt_max_segment_bytes p = 10485760"
    "find_sender (rg_topics (bk_registry b1)) demo_topic 0 = Some 0"
proof -
  let ?req = "Req_Produce client_produce"
  obtain b0 where start: "broker_start be_ops list_chan broker_config_default empty_world =
      Ok (\<lparr> sy_broker = b0, sy_conns = [] \<rparr> :: (nat \<times> broker_command list, pipe) system)"
    "broker_inv list_chan snd b0 []" "bk_actors b0 = []" "rg_channel_capacity (bk_registry b0) = 1024"
    "rg_max_segment_bytes (bk_registry b0) = 10485760" "find_sender (rg_topics (bk_registry b0)) demo_topic 0 = None"
    using demo_start [of demo_topic 0] by blast
  obtain b1 p where b1: "create_partition be_ops list_chan demo_topic 0 b0 = (Ok 0, b1)"
    "bk_actors b1 = [\<lparr> ac_partition = p, ac_mailbox = (1024, []), ac_alive = True \<rparr>]"
    "partition_ok p (bk_world b1) [[]]" "quiet (bk_world b1)" "partition_next_offset p = 0" "pt_max_segment_bytes p = 10485760"
    "find_sender (rg_topics (bk_registry b1)) demo_topic 0 = Some 0"
    using demo_created [OF start(2-6)] by blast
  have small: "small b0" "small b1"
    using start(3) b1(2,5) by (simp_all add: small_def)
  have s1: "stage_next be_ops list_chan ?req b0 Looking b0 Creating" "stage_next be_ops list_chan ?req b0 Creating b1 (Asking 0)"
    using start(6) b1(1) stage_next.missing [of b0 ?req] stage_next.made [of be_ops list_chan ?req b0 0 b1] by simp_all
  note run2 = sys_run.stop [where P = "\<lambda>s. tame s \<and> busy 0 s", OF demo_tame [OF small(2)]]
  note run1 = sys_run.more [OF demo_tame [OF small(1)] lone_stage [OF s1(2)] run2]
  note run0 = sys_run.more [OF demo_tame [OF small(1)] lone_stage [OF s1(1)] run1]
  let ?f = "(demo_bytes ?req, False, []) :: pipe"
  have accept: "sys_step be_ops list_chan demo_pipe \<lparr> sy_broker = b0, sy_conns = [] \<rparr> (Accept ?f) (lone b0 ?f Reading)"
    using sys_step.accept [of be_ops list_chan demo_pipe "\<lparr> sy_broker = b0, sy_conns = [] \<rparr>" ?f] by (simp add: lone_def)
  have take: "sys_step be_ops list_chan demo_pipe (lone b0 ?f Reading) (ConnStep 0) (lone b0 ([], False, []) (demo_stage ?req Looking))"
    using demo_next [OF demo_requests(1,2)] by (intro lone_conn) simp
  have tame0: "tame \<lparr> sy_broker = b0, sy_conns = [] \<rparr>" "tame (lone b0 ?f Reading)"
    using small(1) tame_lone(2) by (simp_all add: tame_def handlers_all_def small_def)
  note stop = sys_run.stop [where P = tame, OF conjunct1 [OF demo_tame [OF small(1), of "([], False, [])" Looking]]]
  have "reaches be_ops list_chan demo_pipe tame broker_config_default empty_world
      (lone b0 ([], False, []) (demo_stage ?req Looking))"
    unfolding reaches_def using empty_world_fresh start(1)
      sys_run.more [OF tame0(1) accept sys_run.more [OF tame0(2) take stop]] by blast
  then show ?thesis
    by (rule that [OF _ run0 small(2) b1(2-7)])
qed

lemma demo_produce_run:
  obtains b b' es rss ts q where
    "reaches be_ops list_chan demo_pipe tame broker_config_default empty_world
      (lone b ([], False, []) (demo_stage (Req_Produce client_produce) Looking))"
    "demo_run (\<lambda>s. tame s \<and> busy 0 s) (lone b ([], False, []) (demo_stage (Req_Produce client_produce) Looking)) es
      (lone b' ([], False, []) (demo_stage (Req_Produce client_produce) (Answered demo_ack)))"
    "small b'" "live b' 0" "ac_mailbox (bk_actors b' ! 0) = q" "snd q = []" "0 < fst q" "length (bk_actors b') = 1"
    "partition_ok (ac_partition (bk_actors b' ! 0)) (bk_world b') rss" "quiet (bk_world b')"
    "concat rss = [written_record ts 0 (as_bytes demo_message)]"
    "find_sender (rg_topics (bk_registry b')) demo_topic 0 = Some 0"
proof -
  let ?req = "Req_Produce client_produce"
  obtain b0 b1 p where reach: "reaches be_ops list_chan demo_pipe tame broker_config_default empty_world
      (lone b0 ([], False, []) (demo_stage ?req Looking))"
    and run: "demo_run (\<lambda>s. tame s \<and> busy 0 s) (lone b0 ([], False, []) (demo_stage ?req Looking)) [ConnStep 0, ConnStep 0]
      (lone b1 ([], False, []) (demo_stage ?req (Asking 0)))"
    and b1: "small b1" "bk_actors b1 = [\<lparr> ac_partition = p, ac_mailbox = (1024, []), ac_alive = True \<rparr>]"
    "partition_ok p (bk_world b1) [[]]" "quiet (bk_world b1)" "partition_next_offset p = 0" "pt_max_segment_bytes p = 10485760"
    "find_sender (rg_topics (bk_registry b1)) demo_topic 0 = Some 0"
    by (rule demo_taken)
  obtain p' w' rss ts where st: "actor_handle be_ops (request_command ?req (length (bk_replies b1))) (p, bk_world b1) =
      (Some (OffsetReply (Ok 0)), (p', w'))" "partition_ok p' w' rss" "quiet w'"
    "concat rss = [written_record ts 0 (as_bytes demo_message)]"
    using demo_stored [OF b1(3-6)] by blast
  have small: "unat (partition_next_offset p') < 2 ^ 63"
    using next_of_log [OF st(2,4)] by simp
  have plain: "plain_topic (request_topic ?req)"
    using demo_plain by simp
  obtain b' q es where tail: "demo_run (\<lambda>s. tame s \<and> busy 0 s) (lone b1 ([], False, []) (demo_stage ?req (Asking 0))) es
      (lone b' ([], False, []) (demo_stage ?req (Answered demo_ack)))" "small b'" "bk_registry b' = bk_registry b1"
    "bk_world b' = w'" "snd q = []" "fst q = 1024"
    "bk_actors b' = [\<lparr> ac_partition = p', ac_mailbox = q, ac_alive = True \<rparr>]"
    using sample.serve_lone [of b1 0 ?req "OffsetReply (Ok 0)" p' w' "([], False, [])"] b1(1,2) st(1) plain small
    by (auto simp: live_def simp del: stage_code.simps)
  show ?thesis
    using that [OF reach sys_run_append [OF run tail(1)]] tail(2-7) st(2-4) b1(7) by (simp add: live_def del: stage_code.simps)
qed

text \<open>The same request when it has been dispatched and its actor has not yet looked into the mailbox.\<close>

lemma demo_dispatched:
  obtains b p q rid where "reaches be_ops list_chan demo_pipe tame broker_config_default empty_world
      (lone b ([], False, []) (demo_stage (Req_Produce client_produce) (Awaiting 0 rid)))"
    "bk_actors b = [\<lparr> ac_partition = p, ac_mailbox = q, ac_alive = True \<rparr>]"
    "snd q = [Cmd_Produce None (Some (as_bytes demo_message)) rid]" "pt_max_segment_bytes p = 10485760"
    "pt_topic p = demo_topic" "pt_id p = 0" "partition_next_offset p = 0"
proof -
  let ?req = "Req_Produce client_produce"
  obtain b0 b1 p where reach: "reaches be_ops list_chan demo_pipe tame broker_config_default empty_world
      (lone b0 ([], False, []) (demo_stage ?req Looking))"
    and run: "demo_run (\<lambda>s. tame s \<and> busy 0 s) (lone b0 ([], False, []) (demo_stage ?req Looking)) [ConnStep 0, ConnStep 0]
      (lone b1 ([], False, []) (demo_stage ?req (Asking 0)))"
    and b1: "small b1" "bk_actors b1 = [\<lparr> ac_partition = p, ac_mailbox = (1024, []), ac_alive = True \<rparr>]"
    "partition_next_offset p = 0" "pt_max_segment_bytes p = 10485760" "find_sender (rg_topics (bk_registry b1)) demo_topic 0 = Some 0"
    by (rule demo_taken)
  let ?rid = "length (bk_replies b1)"
  let ?cmd = "Cmd_Produce None (Some (as_bytes demo_message)) ?rid"
  define b2 where "b2 = b1 \<lparr> bk_replies := bk_replies b1 @ [Waiting] \<rparr>"
  define b3 where "b3 = b2 \<lparr> bk_actors := [\<lparr> ac_partition = p, ac_mailbox = (1024, [?cmd]), ac_alive = True \<rparr>] \<rparr>"
  have s1: "stage_next be_ops list_chan ?req b1 (Asking 0) b2 (Sending 0 ?rid)"
    unfolding b2_def by (rule stage_next.asked)
  have s2: "stage_next be_ops list_chan ?req b2 (Sending 0 ?rid) b3 (Awaiting 0 ?rid)"
    using stage_next.sent [of b2 0 list_chan ?req ?rid "(1024, [?cmd])" be_ops] b1(2)
    by (simp add: b2_def b3_def live_def list_chan_def)
  have small: "small b2" "small b3"
    using b1(1-3) by (simp_all add: small_def b2_def b3_def)
  note stop = sys_run.stop [where P = "\<lambda>s. tame s \<and> busy 0 s", OF demo_tame [OF small(2)]]
  note tail = sys_run.more [OF demo_tame [OF b1(1)] lone_stage [OF s1] sys_run.more [OF demo_tame [OF small(1)] lone_stage [OF s2] stop]]
  have "reaches be_ops list_chan demo_pipe tame broker_config_default empty_world
      (lone b3 ([], False, []) (demo_stage ?req (Awaiting 0 ?rid)))"
    by (rule sample.reaches_run [OF reach sys_run_mono [OF sys_run_append [OF run tail]]]) simp
  note end_reached = this
  obtain logs ss where "serves be_ops list_chan snd (lone b3 (([], False, []) :: pipe) (demo_stage ?req (Awaiting 0 ?rid))) logs ss"
    using sample.reaches_serves(1) [OF end_reached] by blast
  then have "registered b3"
    by (simp add: serves_def sys_inv_def broker_holds_def)
  then have "pt_topic p = demo_topic" "pt_id p = 0"
    using b1(5) by (auto simp: registered_def b2_def b3_def)
  then show ?thesis
    using that [OF end_reached] b1(3,4) by (simp add: b3_def)
qed

text \<open>The answer goes out, and the connection reads again.\<close>

lemma demo_reply_run:
  assumes "small b"
  shows "demo_run tame (lone b ([], False, []) (Handling (Done demo_ack))) [ConnStep 0]
    (lone b ([], False, snd (codec_encode be_ops (response_into_frame be_ops demo_ack) [])) Reading)"
proof -
  let ?out = "snd (codec_encode be_ops (response_into_frame be_ops demo_ack) [])"
  have step: "sys_step be_ops list_chan demo_pipe (lone b ([], False, []) (Handling (Done demo_ack))) (ConnStep 0)
      (lone b ([], False, ?out) Reading)"
    by (intro lone_conn) (simp add: connection_step_def)
  have tame1: "tame (lone b ([], False, []) (Handling (Done demo_ack)))"
    using tame_lone(1) [OF assms, of "Req_Produce client_produce" _ _ _ "Answered demo_ack"] demo_plain by simp
  note stop = sys_run.stop [where P = tame, OF tame_lone(2) [OF assms, of "([], False, ?out)"]]
  show ?thesis
    by (rule sys_run.more [OF tame1 step stop])
qed

text \<open>The next request comes on the same connection.\<close>

lemma demo_next_run:
  assumes "small b"
  shows "demo_run tame (lone b ([], False, out) Reading) [Receive 0 (demo_bytes (Req_Fetch (client_fetch 0))), ConnStep 0]
    (lone b ([], False, out) (demo_stage (Req_Fetch (client_fetch 0)) Looking))"
proof -
  let ?req = "Req_Fetch (client_fetch 0)"
  have s1: "sys_step be_ops list_chan demo_pipe (lone b ([], False, out) Reading) (Receive 0 (demo_bytes ?req))
      (lone b (demo_bytes ?req, False, out) Reading)"
    using sys_step.receive [of 0 "lone b ([], False, out) Reading" be_ops list_chan demo_pipe "demo_bytes ?req"]
    by (simp add: lone_def)
  have s2: "sys_step be_ops list_chan demo_pipe (lone b (demo_bytes ?req, False, out) Reading) (ConnStep 0)
      (lone b ([], False, out) (demo_stage ?req Looking))"
    using demo_next [OF demo_requests(3,4)] by (intro lone_conn) simp
  have "tame (lone b ([], False, out) (demo_stage ?req Looking))"
    by (rule tame_lone(1) [OF assms]) (simp add: demo_plain)
  note run2 = sys_run.stop [where P = tame, OF this]
  show ?thesis
    by (rule sys_run.more [OF tame_lone(2) [OF assms] s1 sys_run.more [OF tame_lone(2) [OF assms] s2 run2]])
qed

lemma demo_fetch_run:
  assumes "small b" "live b 0" "snd (ac_mailbox (bk_actors b ! 0)) = []" "0 < fst (ac_mailbox (bk_actors b ! 0))"
    "partition_ok (ac_partition (bk_actors b ! 0)) (bk_world b) rss" "quiet (bk_world b)"
    "concat rss = [r]" "lr_offset r = 0" "find_sender (rg_topics (bk_registry b)) demo_topic 0 = Some 0"
  obtains b' es where
    "demo_run (\<lambda>s. tame s \<and> busy 0 s) (lone b f (demo_stage (Req_Fetch (client_fetch 0)) Looking)) es
      (lone b' f (Handling (Done (request_respond be_ops list_chan (Req_Fetch (client_fetch 0)) (RecordsReply (Ok [r]))))))"
    "small b'"
proof -
  let ?req = "Req_Fetch (client_fetch 0)"
  obtain p' where p': "actor_handle be_ops (request_command ?req (length (bk_replies b))) (ac_partition (bk_actors b ! 0), bk_world b) =
      (Some (RecordsReply (Ok [r])), (p', bk_world b))" "partition_ok p' (bk_world b) rss"
    using demo_fetched [OF assms(5-8)] by blast
  have plain: "plain_topic (request_topic ?req)"
    using demo_plain by simp
  have "unat (partition_next_offset p') < 2 ^ 63"
    using next_of_log [OF p'(2) assms(7)] assms(8) by simp
  from sample.serve_lone [OF assms(2,4,3) p'(1) _ plain assms(1) this, of f] obtain b' es where
    tail: "demo_run (\<lambda>s. tame s \<and> busy 0 s) (lone b f (demo_stage ?req (Asking 0))) es
      (lone b' f (demo_stage ?req (Answered (request_respond be_ops list_chan ?req (RecordsReply (Ok [r]))))))" "small b'"
    by blast
  have "stage_next be_ops list_chan ?req b Looking b (Asking 0)"
    using assms(9) by (intro stage_next.found) simp
  note step = lone_stage [OF this, of demo_pipe f]
  have "tame (lone b f (demo_stage ?req Looking)) \<and> busy 0 (lone b f (demo_stage ?req Looking))"
    using tame_lone(1) [OF assms(1) plain] by (simp del: stage_code.simps)
  from sys_run.more [OF this step tail(1)] show ?thesis
    using that tail(2) unfolding stage_code.simps(6) by blast
qed

lemma reaches_any: "reaches bx ch fm P config w s \<Longrightarrow> reaches bx ch fm (\<lambda>s. True) config w s"
  using sys_run_mono [of bx ch fm P _ _ s "\<lambda>s. True"] by (auto simp: reaches_def)

lemma demo_reached:
  obtains b rss ts where "reaches be_ops list_chan demo_pipe tame broker_config_default empty_world
      (lone b ([], False, []) (Handling (Done demo_ack)))" "small b"
    "find_sender (rg_topics (bk_registry b)) demo_topic 0 = Some 0" "live b 0" "length (bk_actors b) = 1"
    "snd (ac_mailbox (bk_actors b ! 0)) = []" "partition_ok (ac_partition (bk_actors b ! 0)) (bk_world b) rss"
    "quiet (bk_world b)" "concat rss = [written_record ts 0 (as_bytes demo_message)]"
proof -
  let ?req = "Req_Produce client_produce"
  obtain b b' es rss ts q where run: "reaches be_ops list_chan demo_pipe tame broker_config_default empty_world
      (lone b ([], False, []) (demo_stage ?req Looking))"
    "demo_run (\<lambda>s. tame s \<and> busy 0 s) (lone b ([], False, []) (demo_stage ?req Looking)) es
      (lone b' ([], False, []) (demo_stage ?req (Answered demo_ack)))"
    and b': "small b'" "live b' 0" "ac_mailbox (bk_actors b' ! 0) = q" "snd q = []" "length (bk_actors b') = 1"
    "find_sender (rg_topics (bk_registry b')) demo_topic 0 = Some 0"
    "partition_ok (ac_partition (bk_actors b' ! 0)) (bk_world b') rss" "quiet (bk_world b')"
    "concat rss = [written_record ts 0 (as_bytes demo_message)]"
    by (rule demo_produce_run)
  have "demo_run tame (lone b ([], False, []) (demo_stage ?req Looking)) es
      (lone b' ([], False, []) (demo_stage ?req (Answered demo_ack)))"
    by (rule sys_run_mono [OF run(2)]) simp
  note end_reached = sample.reaches_run [OF run(1) this [unfolded stage_code.simps(6)]]
  have "snd (ac_mailbox (bk_actors b' ! 0)) = []"
    by (simp only: b'(3,4))
  then show ?thesis
    by (rule that [OF end_reached b'(1,6,2,5) _ b'(7-9)])
qed

lemma demo_quiet_end:
  obtains b out where "reaches be_ops list_chan demo_pipe tame broker_config_default empty_world
      (lone b ([], False, out) Reading)"
    "\<And>e u. internal e \<Longrightarrow> \<not> sys_step be_ops list_chan demo_pipe (lone b ([], False, out) Reading) e u"
proof -
  obtain b where b: "reaches be_ops list_chan demo_pipe tame broker_config_default empty_world
      (lone b ([], False, []) (Handling (Done demo_ack)))" "small b" "length (bk_actors b) = 1"
    "snd (ac_mailbox (bk_actors b ! 0)) = []"
    by (rule demo_reached)
  let ?out = "snd (codec_encode be_ops (response_into_frame be_ops demo_ack) [])"
  note reach = sample.reaches_run [OF b(1) demo_reply_run [OF b(2)]]
  have "codec_decode be_ops [] = (Ok None, [])"
    by (simp add: codec_decode_def frame_decode_def)
  then have "connection_step be_ops list_chan demo_pipe \<lparr> cn_framed = ([], False, ?out), cn_state = Reading \<rparr> b = None"
    by (simp add: connection_step_def list_framed_next)
  moreover have "actor_step be_ops list_chan a b = None" for a
    using b(3,4) by (auto simp: actor_step_def live_def Let_def)
  ultimately have "\<not> sys_step be_ops list_chan demo_pipe (lone b ([], False, ?out) Reading) e u" if "internal e" for e u
    using that by (auto elim!: sys_step.cases)
  then show ?thesis
    using that reach by blast
qed

end
