(* ===== verification/Ruka_Exchange.thy ===== *)
theory Ruka_Exchange
  imports Ruka_Demo
begin

text \<open>
  A request and its answer as the two ends of a connection see them: the broker takes the request, answers it
  and writes the response; the example client decodes the bytes that were written with the same codec.
\<close>

section \<open>An exchange\<close>

text \<open>
  From a state in which a connection has taken a request to the state in which it has
  written the response and reads again, with the bytes written. Meanwhile everything else goes on.
\<close>

definition exchange ::
    "bytes_ops \<Rightarrow> (broker_command, 'q) chan_ops \<Rightarrow> 'f framed_ops \<Rightarrow> ('f \<Rightarrow> bytes) \<Rightarrow> nat \<Rightarrow> request \<Rightarrow>
     ('q, 'f) system \<Rightarrow> ('q, 'f) system \<Rightarrow> bytes \<Rightarrow> bool" where
  "exchange bx ch fm written i req s u bs \<longleftrightarrow>
     cn_state (sy_conns s ! i) = Handling (handle_request bx ch req) \<and>
     (\<exists>es t r. sys_run bx ch fm (\<lambda>s. tame s \<and> busy i s) s es t \<and> cn_state (sy_conns t ! i) = Handling (Done r) \<and>
        sys_step bx ch fm t (ConnStep i) u \<and> cn_state (sy_conns u ! i) = Reading \<and>
        written (cn_framed (sy_conns u ! i)) = written (cn_framed (sy_conns t ! i)) @ bs)"

context system_env
begin

lemma response_sent:
  assumes "sys_step bx ch fm t (ConnStep i) u" "cn_state (sy_conns t ! i) = Handling (Done r)"
    "cn_state (sy_conns u ! i) = Reading"
  shows "written (cn_framed (sy_conns u ! i)) =
      written (cn_framed (sy_conns t ! i)) @ frame_encode bx (response_into_frame bx r) []"
  using assms(1)
proof cases
  case (conn cn b)
  obtain res f where f: "fm_send fm (response_into_frame bx r) (cn_framed (sy_conns t ! i)) = (res, f)"
    by (metis prod.collapse)
  then have "cn_framed cn = f" "res = Ok ()"
    using conn assms(2,3) by (auto simp: connection_step_def split: outcome.splits)
  then show ?thesis
    using send_result [OF f] conn by (simp add: codec_encode_def)
qed

text \<open>What is known when an exchange is over: the answer, and what the broker holds.\<close>

lemma exchange_answer:
  assumes "serves bx ch items s logs ss" "exchange bx ch fm written i req s u bs"
  shows "\<exists>es t r logs' ss'. sys_run bx ch fm tame s es t \<and> sys_step bx ch fm t (ConnStep i) u \<and> tame t \<and>
    bs = frame_encode bx (response_into_frame bx r) [] \<and> serves bx ch items t logs' ss' \<and>
    stage_ok bx ch items (sy_broker t) logs' (req, logs, Answered r)"
proof -
  obtain es t r where ex: "cn_state (sy_conns s ! i) = Handling (handle_request bx ch req)"
    "sys_run bx ch fm (\<lambda>s. tame s \<and> busy i s) s es t" "cn_state (sy_conns t ! i) = Handling (Done r)"
    "sys_step bx ch fm t (ConnStep i) u" "cn_state (sy_conns u ! i) = Reading"
    "written (cn_framed (sy_conns u ! i)) = written (cn_framed (sy_conns t ! i)) @ bs"
    using assms(2) by (auto simp: exchange_def)
  have ends: "i < length (sy_conns s)" "tame t"
    using sys_run_ends [OF ex(2)] by (simp_all add: busy_def)
  obtain logs' ss' where "serves bx ch items t logs' ss'" "stage_ok bx ch items (sy_broker t) logs' (req, logs, Answered r)"
    using request_answer [OF assms(1) ends(1) ex(1-3)] by blast
  moreover have "bs = frame_encode bx (response_into_frame bx r) []"
    using response_sent [OF ex(4,3,5)] ex(6) by simp
  moreover have "sys_run bx ch fm tame s es t"
    by (rule sys_run_mono [OF ex(2)]) simp
  ultimately show ?thesis
    using ex(4) ends(2) by blast
qed

text \<open>The client reads the offset that was acknowledged.\<close>

lemma committed_over_wire:
  assumes "stage_ok bx ch items b logs (Req_Produce p, since, Answered r)" "wf_topic (pr_topic p)"
    "codec_decode bx (frame_encode bx (response_into_frame bx r) []) = (Ok (Some x), rest)"
    "fr_api_key x = Produce" "client_committed (Some (Ok x)) = Ok off"
  shows "\<exists>y. r = Resp_Produce y \<and> ps_offset y = off"
proof -
  have "fr_api_key (response_into_frame bx r) = Produce"
    using decode_key assms(3,4) by (simp add: codec_decode_def)
  then obtain y where y: "r = Resp_Produce y"
    by (cases r) (simp_all add: produce_response_into_frame_def produce_batch_response_into_frame_def
        fetch_response_into_frame_def error_response_into_frame_def)
  obtain z where "r = request_respond bx ch (Req_Produce p) z"
    using assms(1) by auto
  then have "ps_topic y = pr_topic p"
    unfolding y by (cases "(bx, ch, Req_Produce p, z)" rule: request_respond.cases) (auto simp: error_of_def from_error_def lost_reply_def)
  then have "wf_frame (response_into_frame bx r)"
    using assms(2) y by (intro wf_response_frame) simp
  then have "x = response_into_frame bx r"
    using frame_decode_wire_bytes [OF bytes_crate_axioms, of "response_into_frame bx r" "[]"] assms(3) by (simp add: codec_decode_def)
  then show ?thesis
    using client_committed_produce [of y] assms(5) by (simp add: y del: client_committed.simps)
qed

lemma received_over_wire:
  assumes "wf_topic (fs_topic y)" "fs_payload y = fetch_payload bx (rec # rest)" "length rest < 2 ^ 32 - 1" "wf_record rec"
    "lr_value rec = Some v" "21 + length (fs_topic y) + length (log_bytes (rec # rest)) \<le> MAX_FRAME_SIZE"
  shows "\<exists>x. codec_decode bx (frame_encode bx (response_into_frame bx (Resp_Fetch y)) []) = (Ok (Some x), []) \<and>
    client_received bx (Some (Ok x)) = Ok (Some v)"
proof -
  have "wf_frame (response_into_frame bx (Resp_Fetch y))"
    using assms(1,2,6) by (intro wf_response_frame) (simp add: fetch_payload_eq)
  then show ?thesis
    using frame_decode_wire_bytes [OF bytes_crate_axioms, of "response_into_frame bx (Resp_Fetch y)" "[]"]
      client_received_first [OF assms(4,3,5,2)] by (simp add: codec_decode_def del: client_received.simps)
qed

end

section \<open>A client gets back what it wrote\<close>

text \<open>C2: A client gets back what it wrote, over the wire. A connection takes a produce request, answers it and
  writes the response; the example client decodes the bytes written, finds a produce response
  and reads the committed offset from it. Any connection that later takes a fetch request for
  this offset with a byte limit other than 0 then writes bytes that the client's codec decodes
  to exactly one frame, from which the client reads the payload it had sent, whatever other requests
  are served meanwhile. The topic is one that a frame can carry, and the first record or the
  byte limit, whichever is larger, has to fit a frame: beyond that the client's codec would refuse the response.\<close>

theorem client_reads_back:
  assumes "system_env bx ch items capacity fm unread finished written" "reaches bx ch fm tame config w s"
    "exchange bx ch fm written i (Req_Produce p) s u bs" "codec_decode bx bs = (Ok (Some x), rest)"
    "fr_api_key x = Produce" "client_committed (Some (Ok x)) = Ok (fq_offset q)"
    "sys_run bx ch fm tame u es s'" "exchange bx ch fm written j (Req_Fetch q) s' u' bs'"
    "fq_topic q = pr_topic p" "fq_partition q = pr_partition p" "wf_topic (pr_topic p)" "fq_max_bytes q \<noteq> 0"
    "21 + length (pr_topic p) + max (28 + length (pr_payload p)) (unat (fq_max_bytes q)) \<le> MAX_FRAME_SIZE"
  shows "\<exists>y. codec_decode bx bs' = (Ok (Some y), []) \<and> client_received bx (Some (Ok y)) = Ok (Some (pr_payload p))"
proof -
  note env = assms(1)
  obtain logs ss where s: "serves bx ch items s logs ss"
    using system_env.reaches_serves(1) [OF env assms(2)] by blast
  obtain es1 t r logs1 ss1 where t: "sys_step bx ch fm t (ConnStep i) u" "tame t"
    "bs = frame_encode bx (response_into_frame bx r) []" "serves bx ch items t logs1 ss1"
    "stage_ok bx ch items (sy_broker t) logs1 (Req_Produce p, logs, Answered r)"
    using system_env.exchange_answer [OF env s assms(3)] by blast
  obtain x' where x': "r = Resp_Produce x'" "ps_offset x' = fq_offset q"
    using system_env.committed_over_wire [OF env t(5) assms(11) _ assms(5,6)] assms(4) t(3) by blast
  obtain tx ts where tx: "target (sy_broker t) (Req_Produce p) = Some tx"
    "written_record ts (fq_offset q) (pr_payload p) \<in> set (log_of logs1 tx)"
    using system_env.acknowledged_in_log [OF env t(5), of "fq_offset q" "pr_payload p"] x' by auto
  let ?rec = "written_record ts (fq_offset q) (pr_payload p)"
  note run = sys_run.more [OF t(2,1) assms(7)]
  obtain logs2 ss2 where s': "serves bx ch items s' logs2 ss2" "logs_grow logs1 logs2"
    using system_env.serves_run [OF env run t(4)] by blast
  obtain es2 t' r' logs3 ss3 where t': "sys_run bx ch fm tame s' es2 t'" "bs' = frame_encode bx (response_into_frame bx r') []"
    "serves bx ch items t' logs3 ss3" "stage_ok bx ch items (sy_broker t') logs3 (Req_Fetch q, logs2, Answered r')"
    using system_env.exchange_answer [OF env s'(1) assms(8)] by blast
  have "target (sy_broker s') (Req_Fetch q) = Some tx"
    using system_env.target_run [OF env run tx(1)] assms(9,10) by simp
  then have "target (sy_broker t') (Req_Fetch q) = Some tx"
    using system_env.target_run [OF env t'(1)] by blast
  moreover have "?rec \<in> set (log_of logs2 tx)"
    using tx(2) set_mono_prefix [OF log_of_grow [OF s'(2)]] by blast
  ultimately obtain y more where y: "r' = Resp_Fetch y" "fs_topic y = fq_topic q" "fs_payload y = fetch_payload bx (?rec # more)"
    "length more < 2 ^ 32 - 1" "wf_record ?rec" "length (log_bytes (?rec # more)) \<le> max (record_len ?rec) (unat (fq_max_bytes q))"
    using system_env.fetch_answer [OF env t'(4) system_env.serves_holds [OF env t'(3)] assms(12) _ _ written_record_simps(1)]
    by blast
  have "21 + length (fs_topic y) + length (log_bytes (?rec # more)) \<le> MAX_FRAME_SIZE"
    using y(2,6) assms(9,13) by (simp add: record_len_written)
  then show ?thesis
    using system_env.received_over_wire [OF env _ y(3-5) written_record_simps(2)] y(1,2) assms(9,11) t'(2) by simp
qed

lemma demo_exchange:
  assumes "demo_run (\<lambda>s. tame s \<and> busy 0 s) (lone b ([], False, out) (demo_stage req Looking)) es (lone b' ([], False, out) (Handling (Done r)))"
  shows "exchange be_ops list_chan demo_pipe (\<lambda>f. snd (snd f)) 0 req (lone b ([], False, out) (demo_stage req Looking))
    (lone b' ([], False, out @ frame_encode be_ops (response_into_frame be_ops r) []) Reading)
    (frame_encode be_ops (response_into_frame be_ops r) [])"
proof -
  have "sys_step be_ops list_chan demo_pipe (lone b' ([], False, out) (Handling (Done r))) (ConnStep 0)
      (lone b' ([], False, out @ frame_encode be_ops (response_into_frame be_ops r) []) Reading)"
    by (intro lone_conn) (simp add: connection_step_def codec_encode_def)
  then show ?thesis
    unfolding exchange_def using assms by fastforce
qed

theorem client_reads_back_witness:
  "\<exists>s u s' u' bs bs' x y. exchange be_ops list_chan demo_pipe (\<lambda>f. snd (snd f)) 0 (Req_Produce client_produce) s u bs \<and>
    codec_decode be_ops bs = (Ok (Some x), []) \<and> client_committed (Some (Ok x)) = Ok 0 \<and>
    exchange be_ops list_chan demo_pipe (\<lambda>f. snd (snd f)) 0 (Req_Fetch (client_fetch 0)) s' u' bs' \<and>
    codec_decode be_ops bs' = (Ok (Some y), []) \<and> client_received be_ops (Some (Ok y)) = Ok (Some (as_bytes demo_message))"
proof -
  let ?req = "Req_Produce client_produce" and ?get = "Req_Fetch (client_fetch 0)"
  let ?ack = "response_into_frame be_ops demo_ack"
  obtain b b' es rss ts q where run: "reaches be_ops list_chan demo_pipe tame broker_config_default empty_world
      (lone b ([], False, []) (demo_stage ?req Looking))"
    "demo_run (\<lambda>s. tame s \<and> busy 0 s) (lone b ([], False, []) (demo_stage ?req Looking)) es
      (lone b' ([], False, []) (demo_stage ?req (Answered demo_ack)))"
    and b': "small b'" "live b' 0" "ac_mailbox (bk_actors b' ! 0) = q" "snd q = []" "0 < fst q"
    "partition_ok (ac_partition (bk_actors b' ! 0)) (bk_world b') rss" "quiet (bk_world b')"
    "concat rss = [written_record ts 0 (as_bytes demo_message)]"
    "find_sender (rg_topics (bk_registry b')) demo_topic 0 = Some 0"
    by (rule demo_produce_run)
  note put = demo_exchange [OF run(2) [unfolded stage_code.simps(6)]]
  have wf: "wf_topic demo_topic"
    by (simp add: wf_topic_def demo_topic_def valid_string_def as_bytes_def utf8_valid_ascii)
  have ack: "codec_decode be_ops (frame_encode be_ops ?ack []) = (Ok (Some ?ack), [])"
    using frame_decode_wire_bytes [OF be.bytes_crate_axioms be.wf_response_frame [of demo_ack], of "[]"] wf
    by (simp add: codec_decode_def)
  have key: "fr_api_key ?ack = Produce"
    by (simp add: produce_response_into_frame_def)
  have off: "client_committed (Some (Ok ?ack)) = Ok 0"
    by (simp only: be.client_committed_produce produce_response.select_convs)
  have box: "snd (ac_mailbox (bk_actors b' ! 0)) = []" "0 < fst (ac_mailbox (bk_actors b' ! 0))"
    using b'(3-5) by simp_all
  let ?out = "[] @ frame_encode be_ops ?ack []"
  let ?r = "request_respond be_ops list_chan ?get (RecordsReply (Ok [written_record ts 0 (as_bytes demo_message)]))"
  obtain b'' es'' where fin: "demo_run (\<lambda>s. tame s \<and> busy 0 s) (lone b' ([], False, ?out) (demo_stage ?get Looking)) es''
      (lone b'' ([], False, ?out) (Handling (Done ?r)))"
    by (rule demo_fetch_run [OF b'(1,2) box b'(6-8) written_record_simps(1) b'(9)])
  note get = demo_exchange [OF fin]
  have "\<exists>y. codec_decode be_ops (frame_encode be_ops (response_into_frame be_ops ?r) []) = (Ok (Some y), []) \<and>
      client_received be_ops (Some (Ok y)) = Ok (Some (pr_payload client_produce))"
    by (rule client_reads_back [OF sample.system_env_axioms run(1) put ack key _ demo_next_run [OF b'(1)] get])
      (use off wf in \<open>simp_all add: demo_topic_def demo_message_def MAX_FRAME_SIZE_def del: client_committed.simps\<close>)
  then obtain y where y: "codec_decode be_ops (frame_encode be_ops (response_into_frame be_ops ?r) []) = (Ok (Some y), [])"
    "client_received be_ops (Some (Ok y)) = Ok (Some (as_bytes demo_message))"
    unfolding client_simps by blast
  show ?thesis
    by (intro exI conjI, rule put, rule ack, rule off, rule get, rule y(1), rule y(2))
qed

end
