(* ===== verification/Ruka_System_Props.thy ===== *)
theory Ruka_System_Props
  imports Ruka_Exchange
begin

text \<open>
  The properties of the whole broker, in every run from its start on an empty data directory: what
  is acknowledged stays readable, every request is answered, the answer is of the request's kind,
  and each partition has one writer.
\<close>

section \<open>Properties of the whole broker\<close>

text \<open>C1: A write that the broker has acknowledged stays. Start the broker on an empty data directory
  and let it run with any number of connections in any interleaving. If a connection takes a
  produce or produce batch request and, while all others go on, comes to answer it with an
  offset, then in every later state each payload of the request can be read from its partition
  at the acknowledged offset, and at the following offsets for the payloads of a batch.\<close>

theorem acknowledged_writes_stay:
  assumes "system_env bx ch items capacity fm unread finished written"
    "reaches bx ch fm tame config w s" "cn_state (sy_conns s ! i) = Handling (handle_request bx ch req)"
    "sys_run bx ch fm (\<lambda>s. tame s \<and> busy i s) s es t" "cn_state (sy_conns t ! i) = Handling (Done r)"
    "sys_run bx ch fm tame t es' u" "(off, payload) \<in> set (acknowledged req r)"
  shows "\<exists>tx ts. find_sender (rg_topics (bk_registry (sy_broker u))) (request_topic req) (request_partition req) = Some tx \<and>
    fst (partition_read bx off (ac_partition (bk_actors (sy_broker u) ! tx), bk_world (sy_broker u))) =
      Ok (Some (written_record ts off payload))"
proof -
  note env = assms(1)
  have i: "i < length (sy_conns s)"
    using sys_run_ends [OF assms(4)] by (simp add: busy_def)
  obtain logs ss where s: "serves bx ch items s logs ss"
    using system_env.reaches_serves(1) [OF env assms(2)] by blast
  obtain logs' ss' where t: "serves bx ch items t logs' ss'"
    "stage_ok bx ch items (sy_broker t) logs' (req, logs, Answered r)"
    using system_env.request_answer [OF env s i assms(3-5)] by blast
  obtain tx ts where tx: "target (sy_broker t) req = Some tx" "written_record ts off payload \<in> set (log_of logs' tx)"
    using system_env.acknowledged_in_log [OF env t(2) assms(7)] by blast
  obtain logs'' ss'' where u: "serves bx ch items u logs'' ss''" "logs_grow logs' logs''"
    using system_env.serves_run [OF env assms(6) t(1)] by blast
  have found: "target (sy_broker u) req = Some tx"
    using system_env.target_run [OF env assms(6) tx(1)] .
  have "written_record ts off payload \<in> set (log_of logs'' tx)"
    using tx(2) set_mono_prefix [OF log_of_grow [OF u(2)]] by blast
  from bytes_crate.log_readable [OF system_env.axioms(1) [OF env] system_env.serves_holds [OF env u(1)] found this]
  show ?thesis
    using found by auto
qed

theorem acknowledged_writes_stay_witness:
  "\<exists>(u :: (nat \<times> broker_command list, pipe) system) tx ts.
    find_sender (rg_topics (bk_registry (sy_broker u))) demo_topic 0 = Some tx \<and>
    fst (partition_read be_ops 0 (ac_partition (bk_actors (sy_broker u) ! tx), bk_world (sy_broker u))) =
      Ok (Some (written_record ts 0 (as_bytes demo_message)))"
proof -
  let ?req = "Req_Produce client_produce"
  obtain b b' es where run: "reaches be_ops list_chan demo_pipe tame broker_config_default empty_world
      (lone b ([], False, []) (demo_stage ?req Looking))"
    "demo_run (\<lambda>s. tame s \<and> busy 0 s) (lone b ([], False, []) (demo_stage ?req Looking)) es
      (lone b' ([], False, []) (demo_stage ?req (Answered demo_ack)))"
    by (rule demo_produce_run)
  note stay = sys_run.stop [where P = tame, OF conjunct1 [OF conjunct2 [OF sys_run_ends [OF run(2)]]]]
  show ?thesis
    using acknowledged_writes_stay [OF sample.system_env_axioms run(1) _ run(2) _ stay, of ?req demo_ack 0 "as_bytes demo_message"]
    by (auto intro!: exI [of _ "lone b' ([], False, []) (demo_stage ?req (Answered demo_ack))"])
qed

text \<open>C15: Every response fits its request, in every run. What a connection answers to a request carries
  the correlation id of the request and is either the response of the same kind for the same
  topic and partition, or an error.\<close>

theorem response_matches_request:
  assumes "sys_run bx ch fm (busy i) s es t" "cn_state (sy_conns s ! i) = Handling (handle_request bx ch req)"
    "cn_state (sy_conns t ! i) = Handling (Done r)"
  shows "response_fits req r"
proof -
  have "at_stage bx ch req (sy_conns s ! i)"
    using assms(2) by (auto simp: at_stage_def intro!: exI [of _ Looking])
  then have "at_stage bx ch req (sy_conns t ! i)"
    using at_stage_step by (rule_tac sys_run_keeps [OF assms(1)]) auto
  then show ?thesis
    using assms(3) unfolding at_stage_def by (metis conn_state.inject stage_code_head(1))
qed

theorem response_matches_request_witness:
  "response_fits (Req_Produce client_produce) demo_ack"
proof -
  let ?req = "Req_Produce client_produce"
  obtain b b' es where run: "demo_run (\<lambda>s. tame s \<and> busy 0 s) (lone b ([], False, []) (demo_stage ?req Looking)) es
      (lone b' ([], False, []) (demo_stage ?req (Answered demo_ack)))"
    by (rule demo_produce_run)
  have "demo_run (busy 0) (lone b ([], False, []) (demo_stage ?req Looking)) es
      (lone b' ([], False, []) (demo_stage ?req (Answered demo_ack)))"
    by (rule sys_run_mono [OF run]) simp
  from response_matches_request [OF this, of ?req demo_ack] show ?thesis
    by simp
qed

text \<open>C13: All requests get answered. In every run from the start of the broker, when the broker has
  gone on by itself until no connection and no actor can make a step, no connection is in the
  middle of a request: there is no deadlock between the handlers that wait for room in a
  mailbox or for a reply and the actors that serve them.\<close>

theorem requests_get_answered:
  assumes "system_env bx ch items capacity fm unread finished written" "reaches bx ch fm tame config w s"
    "\<And>e u. internal e \<Longrightarrow> \<not> sys_step bx ch fm s e u"
  shows "\<forall>cn \<in> set (sy_conns s). cn_state cn = Reading \<or> cn_state cn = Closed"
proof
  fix cn assume "cn \<in> set (sy_conns s)"
  then obtain i where "i < length (sy_conns s)" "cn = sy_conns s ! i"
    by (metis in_set_conv_nth)
  moreover have "\<not> busy i s"
    using system_env.reaches_serves [OF assms(1,2)] system_env.busy_can_step [OF assms(1)] assms(3) by blast
  ultimately show "cn_state cn = Reading \<or> cn_state cn = Closed"
    by (cases "cn_state cn") (auto simp: busy_def)
qed

theorem requests_get_answered_witness:
  "\<exists>b out. reaches be_ops list_chan demo_pipe tame broker_config_default empty_world (lone b ([], False, out) Reading) \<and>
    (\<forall>cn \<in> set (sy_conns (lone b (([], False, out) :: pipe) Reading)). cn_state cn = Reading \<or> cn_state cn = Closed)"
proof -
  obtain b out where rest: "reaches be_ops list_chan demo_pipe tame broker_config_default empty_world
      (lone b ([], False, out) Reading)"
    "\<And>e u. internal e \<Longrightarrow> \<not> sys_step be_ops list_chan demo_pipe (lone b ([], False, out) Reading) e u"
    using demo_quiet_end by blast
  have "\<forall>cn \<in> set (sy_conns (lone b (([], False, out) :: pipe) Reading)). cn_state cn = Reading \<or> cn_state cn = Closed"
    by (rule requests_get_answered [OF sample.system_env_axioms rest(1)]) (rule rest(2))
  with rest(1) show ?thesis
    by blast
qed

text \<open>C14: The broker comes to rest. From any state it reaches, the steps of the connections and actors
  that follow without further input from clients are at most as many as the work that is left:
  twenty for every byte received and not yet decoded, the operations that the handlers still
  make, and the commands in the mailboxes.\<close>

theorem broker_comes_to_rest:
  assumes "system_env bx ch items capacity fm unread finished written" "reaches bx ch fm tame config w s"
    "sys_run bx ch fm tame s es t" "\<forall>e \<in> set es. internal e"
  shows "length es + work_left items unread t \<le> work_left items unread s"
  using system_env.reaches_serves(1) [OF assms(1,2)] system_env.internal_run_work [OF assms(1,3) _ assms(4)] by blast

theorem broker_comes_to_rest_witness:
  "\<exists>b b' st st'. reaches be_ops list_chan demo_pipe tame broker_config_default empty_world (lone b ([], False, []) st) \<and>
    demo_run tame (lone b ([], False, []) st) [ConnStep 0, ConnStep 0] (lone b' ([], False, []) st') \<and>
    2 + work_left snd fst (lone b' ([], False, [] :: bytes) st') \<le> work_left snd fst (lone b ([], False, [] :: bytes) st)"
proof -
  let ?req = "Req_Produce client_produce"
  obtain b0 b1 where run: "reaches be_ops list_chan demo_pipe tame broker_config_default empty_world
      (lone b0 ([], False, []) (demo_stage ?req Looking))"
    "demo_run (\<lambda>s. tame s \<and> busy 0 s) (lone b0 ([], False, []) (demo_stage ?req Looking)) [ConnStep 0, ConnStep 0]
      (lone b1 ([], False, []) (demo_stage ?req (Asking 0)))"
    by (rule demo_taken)
  have run': "demo_run tame (lone b0 ([], False, []) (demo_stage ?req Looking)) [ConnStep 0, ConnStep 0]
      (lone b1 ([], False, []) (demo_stage ?req (Asking 0)))"
    by (rule sys_run_mono [OF run(2)]) simp
  have "length [ConnStep 0, ConnStep 0 :: pipe event] + work_left snd fst (lone b1 ([], False, [] :: bytes) (demo_stage ?req (Asking 0))) \<le>
      work_left snd fst (lone b0 ([], False, [] :: bytes) (demo_stage ?req Looking))"
    by (rule broker_comes_to_rest [OF sample.system_env_axioms run(1) run']) simp
  then show ?thesis
    using run(1) run' by (intro exI conjI) (assumption | simp del: stage_code.simps)+
qed

text \<open>C16: In every state of every run from the start of the broker, no two actors own the same partition,
  and the registry leads each topic and partition to the actor that owns it and to no other.\<close>

theorem one_writer_per_partition:
  assumes "system_env bx ch items capacity fm unread finished written" "reaches bx ch fm (\<lambda>s. True) config w s"
  shows "find_sender (rg_topics (bk_registry (sy_broker s))) topic pid = Some tx \<longleftrightarrow>
    tx < length (bk_actors (sy_broker s)) \<and> pt_topic (ac_partition (bk_actors (sy_broker s) ! tx)) = topic \<and>
    pt_id (ac_partition (bk_actors (sy_broker s) ! tx)) = pid"
proof -
  obtain s0 es where s0: "fresh config w" "broker_start bx ch config w = Ok s0" "sys_run bx ch fm (\<lambda>s. True) s0 es s"
    using assms(2) by (auto simp: reaches_def)
  have "registered (sy_broker s)"
    by (rule sys_run_keeps [OF s0(3)])
      (use system_env.start_serves(3) [OF assms(1) s0(1,2)] registered_change [OF sys_step_change] in auto)
  then show ?thesis
    by (simp add: registered_def)
qed

theorem one_writer_per_partition_witness:
  "\<exists>b :: (nat \<times> broker_command list) broker. find_sender (rg_topics (bk_registry b)) demo_topic 0 = Some 0 \<and>
    pt_topic (ac_partition (bk_actors b ! 0)) = demo_topic \<and> pt_id (ac_partition (bk_actors b ! 0)) = 0"
proof -
  obtain b where b: "reaches be_ops list_chan demo_pipe tame broker_config_default empty_world
      (lone b ([], False, []) (Handling (Done demo_ack)))" "find_sender (rg_topics (bk_registry b)) demo_topic 0 = Some 0"
    by (rule demo_reached)
  have "reaches be_ops list_chan demo_pipe (\<lambda>s. True) broker_config_default empty_world
      (lone b ([], False, []) (Handling (Done demo_ack)))"
    by (rule reaches_any [OF b(1)])
  from one_writer_per_partition [OF sample.system_env_axioms this, of demo_topic 0 0] show ?thesis
    using b(2) by auto
qed

end
