(* ===== verification/Ruka_Reload.thy ===== *)
theory Ruka_Reload
  imports Ruka_Broker_Inv
begin

text \<open>
  The start on a data directory with partitions in it: \<open>TopicRegistry::load\<close> of
  \<open>broker/topic.rs\<close> lists the topics and partitions, and every partition that the disk holds comes back
  with its records.
\<close>

section \<open>A stored partition\<close>

lemma set_names_in: "name \<in> set (names_in w dir) \<longleftrightarrow> map_of (nodes w) (dir @ [name]) \<noteq> None"
proof -
  have "name \<in> set (names_in w dir) \<longleftrightarrow> (\<exists>q \<in> fst ` set (nodes w). q \<noteq> [] \<and> butlast q = dir \<and> last q = name)"
    by (auto simp: names_in_def)
  also have "\<dots> \<longleftrightarrow> dir @ [name] \<in> fst ` set (nodes w)"
    by (metis append_butlast_last_id butlast_snoc last_snoc snoc_eq_iff_butlast)
  finally show ?thesis
    by (simp add: map_of_eq_None_iff)
qed

lemma distinct_names_in: "distinct (names_in w dir)"
  unfolding names_in_def distinct_map by (auto intro!: inj_onI) (metis append_butlast_last_id)

lemma set_map_filter: "y \<in> set (List.map_filter f xs) \<longleftrightarrow> (\<exists>x \<in> set xs. f x = Some y)"
  by (force simp: List.map_filter_def)

lemma distinct_map_filter:
  assumes "distinct xs" "\<And>x y z. x \<in> set xs \<Longrightarrow> y \<in> set xs \<Longrightarrow> f x = Some z \<Longrightarrow> f y = Some z \<Longrightarrow> x = y"
  shows "distinct (List.map_filter f xs)"
  using assms
proof (induction xs)
  case (Cons x xs)
  then have "f x = Some z \<Longrightarrow> y \<in> set xs \<Longrightarrow> f y \<noteq> Some z" for y z
    by (metis distinct.simps(2) list.set_intros)
  with Cons show ?case
    by (auto simp: List.map_filter_simps List.map_filter_def split: option.split)
qed (simp add: List.map_filter_simps)

text \<open>
  The directory of a partition on disk: the segments of the records, one after the other, and
  no file that belongs to none of them. A stock is the next offset and the records by segment.
\<close>

record stock =
  st_next :: u64
  st_records :: "log_record list list"

definition stored_partition :: "bytes_ops \<Rightarrow> u64 \<Rightarrow> world \<Rightarrow> path \<Rightarrow> stock \<Rightarrow> bool" where
  "stored_partition bx mx w dir st \<longleftrightarrow>
     has_dir w dir \<and>
     (\<exists>bases. bases \<noteq> [] \<and> length (st_records st) = length bases \<and> st_next st = last bases + of_nat (length (last (st_records st))) \<and>
        (\<forall>i < length bases. stored_segment bx dir mx w (bases ! i) (st_records st ! i)) \<and>
        (\<forall>i. Suc i < length bases \<longrightarrow> st_records st ! i \<noteq> [] \<and> bases ! Suc i = bases ! i + of_nat (length (st_records st ! i))) \<and>
        (\<forall>name. map_of (nodes w) (dir @ [name]) \<noteq> None \<longrightarrow> (\<exists>b \<in> set bases. dir @ [name] \<in> files_of dir b)))"

lemma segment_name_cases:
  assumes "dir @ [name] \<in> files_of dir b"
  shows "segment_name name = None \<or> segment_name name = Some b \<and> name = show_020 (unat b) @ ''.log''"
  using assms by (auto simp: files_of_def log_path_def index_path_def)

lemma stored_names:
  assumes "sorted_wrt (<) bases" "\<And>b. b \<in> set bases \<Longrightarrow> map_of (nodes w) (log_path dir b) \<noteq> None"
    "\<And>name. map_of (nodes w) (dir @ [name]) \<noteq> None \<Longrightarrow> \<exists>b \<in> set bases. dir @ [name] \<in> files_of dir b"
  shows "sort (List.map_filter segment_name (names_in w dir)) = bases"
proof -
  let ?bs = "List.map_filter segment_name (names_in w dir)"
  have name: "b \<in> set bases \<and> name = show_020 (unat b) @ ''.log''"
    if "name \<in> set (names_in w dir)" "segment_name name = Some b" for name b
    using that assms(3) [of name] segment_name_cases by (fastforce simp: set_names_in)
  have "b \<in> set ?bs" if "b \<in> set bases" for b
  proof -
    have "show_020 (unat b) @ ''.log'' \<in> set (names_in w dir)"
      using assms(2) [OF that] by (simp add: set_names_in log_path_def)
    then show ?thesis
      using segment_name_files(1) [of b] by (force simp: set_map_filter)
  qed
  moreover have "b \<in> set bases" if "b \<in> set ?bs" for b
    using that name by (auto simp: set_map_filter)
  ultimately have "set ?bs = set bases"
    by blast
  moreover have "distinct ?bs"
    using name by (intro distinct_map_filter [OF distinct_names_in]) metis
  ultimately show ?thesis
    using assms(1) by (intro sorted_distinct_set_unique) (auto simp: strict_sorted_iff)
qed

text \<open>The paths that a partition depends on.\<close>

definition realm :: "path \<Rightarrow> path set" where
  "realm dir = dirs_to dir \<union> range (\<lambda>name. dir @ [name])"

lemma dir_files_realm: "dir_files dir \<subseteq> realm dir"
  by (auto simp: realm_def dir_files_def files_of_def log_path_def index_path_def)

lemma has_dir_other_realm:
  assumes "only_touches ps w w'" "ps \<inter> realm dir = {}" "has_dir w dir"
  shows "has_dir w' dir"
  using has_dir_frame [OF assms(3,1)] assms(2) by (auto simp: realm_def)

lemma stored_partition_other:
  assumes "stored_partition bx mx w dir st" "only_touches ps w w'" "ps \<inter> realm dir = {}"
  shows "stored_partition bx mx w' dir st"
proof -
  have kept: "map_of (nodes w') (dir @ [name]) = map_of (nodes w) (dir @ [name])" for name
    using assms(2,3) by (auto simp: only_touches_def realm_def)
  have dirs: "has_dir w' dir" "has_dir w dir"
    using has_dir_other_realm [OF assms(2,3)] assms(1) by (simp_all add: stored_partition_def)
  then have dir: "is_dir w' dir = is_dir w dir"
    by (auto simp: has_dir_def)
  have "stored_segment bx dir mx w' b rs = stored_segment bx dir mx w b rs" for b rs
    unfolding stored_segment_def index_usable_def content_def log_path_def index_path_def kept butlast_snoc dir ..
  then show ?thesis
    using assms(1) dirs kept by (simp add: stored_partition_def)
qed

text \<open>What is in memory of a partition after its directory was opened.\<close>

definition restored :: "'q actor \<Rightarrow> world \<Rightarrow> path \<Rightarrow> string \<Rightarrow> u32 \<Rightarrow> stock \<Rightarrow> bool" where
  "restored actor w base topic pid st \<longleftrightarrow>
     ac_alive actor \<and> pt_topic (ac_partition actor) = topic \<and> pt_id (ac_partition actor) = pid \<and>
     pt_base_dir (ac_partition actor) = partition_dir base topic pid \<and> partition_holds (ac_partition actor) w (st_records st) \<and>
     partition_next_offset (ac_partition actor) = st_next st"

lemma restored_other:
  assumes "restored actor w base topic pid st" "only_touches ps w w'" "ps \<inter> realm (partition_dir base topic pid) = {}"
  shows "restored actor w' base topic pid st"
proof -
  have "dir_files (pt_base_dir (ac_partition actor)) \<inter> ps = {}" "has_dir w' (pt_base_dir (ac_partition actor))"
    using assms dir_files_realm [of "partition_dir base topic pid"] has_dir_other_realm [OF assms(2,3)]
    by (auto simp: restored_def partition_holds_def)
  then show ?thesis
    using assms(1) partition_holds_frame [OF _ assms(2)] by (simp add: restored_def)
qed

lemma partition_dirs_apart:
  assumes "t \<noteq> t' \<or> i \<noteq> i'"
  shows "dir_files (partition_dir base t i) \<inter> realm (partition_dir base t' i') = {}"
proof -
  have "partition_dir base t i \<noteq> partition_dir base t' i'"
    using assms by (auto simp: partition_dir_inj)
  then have "q \<notin> range (\<lambda>name. partition_dir base t' i' @ [name])" if "q \<in> dir_files (partition_dir base t i)" for q
    using dir_files_iff [OF that] by auto
  moreover have "q \<notin> dirs_to (partition_dir base t' i')" if "q \<in> dir_files (partition_dir base t i)" for q
    using dir_files_iff [OF that] dirs_to_length by fastforce
  ultimately show ?thesis
    by (auto simp: realm_def)
qed

context bytes_crate
begin

lemma stored_partition_opens:
  assumes "quiet w" "plain_topic topic" "stored_partition bx mx w (partition_dir base topic pid) st"
  shows "\<exists>p w'. partition_open_or_create bx topic pid base mx lev ((), w) = (Ok p, ((), w')) \<and>
    pt_topic p = topic \<and> pt_id p = pid \<and> pt_base_dir p = partition_dir base topic pid \<and>
    partition_holds p w' (st_records st) \<and> partition_next_offset p = st_next st \<and> only_touches (dir_files (partition_dir base topic pid)) w w'"
proof -
  let ?dir = "partition_dir base topic pid"
  obtain bases where b: "bases \<noteq> []" "length (st_records st) = length bases"
    "\<And>i. i < length bases \<Longrightarrow> stored_segment bx ?dir mx w (bases ! i) (st_records st ! i)"
    "\<And>i. Suc i < length bases \<Longrightarrow> st_records st ! i \<noteq> [] \<and> bases ! Suc i = bases ! i + of_nat (length (st_records st ! i))"
    "\<And>name. map_of (nodes w) (?dir @ [name]) \<noteq> None \<Longrightarrow> \<exists>b \<in> set bases. ?dir @ [name] \<in> files_of ?dir b"
    and nxt: "st_next st = last bases + of_nat (length (last (st_records st)))"
    using assms(3) unfolding stored_partition_def by blast
  have "map_of (nodes w) (log_path ?dir b) \<noteq> None" if "b \<in> set bases" for b
  proof -
    from that obtain rs where "stored_segment bx ?dir mx w b rs"
      using b(3) by (auto simp: in_set_conv_nth)
    then show ?thesis
      by (cases "map_of (nodes w) (log_path ?dir b)") (auto simp: stored_segment_def content_def)
  qed
  from stored_names [OF stored_bases_sorted [OF b(3,4)] this b(5)]
  have names: "sort (List.map_filter segment_name (names_in w ?dir)) = bases" by blast
  have "has_dir w ?dir"
    using assms(3) by (simp add: stored_partition_def)
  then obtain p w' where p: "p = \<lparr> pt_topic = topic, pt_id = pid, pt_base_dir = ?dir,
       pt_segments = map (\<lambda>i. loaded_segment ?dir (bases ! i) mx lev (st_records st ! i)) [0..<length bases],
       pt_max_segment_bytes = mx, pt_sync_level = lev \<rparr>"
    "partition_open_or_create bx topic pid base mx lev ((), w) = (Ok p, ((), w'))" "partition_holds p w' (st_records st)"
    "only_touches (dir_files ?dir) w w'"
    using partition_reopen [OF assms(1) partition_dir_join [OF assms(2), symmetric] _ names b(1-4) refl, of lev] by blast
  moreover have "st_records st \<noteq> []"
    using b(1,2) by auto
  then have "partition_next_offset p = st_next st"
    using b(1,2) by (simp add: p(1) nxt partition_next_offset_def last_map last_conv_nth)
  ultimately show ?thesis
    by (intro exI [of _ p] exI [of _ w']) simp
qed

lemma spawn_restores:
  assumes "quiet w" "plain_topic topic" "stored_partition bx (rg_max_segment_bytes rg) w (partition_dir (rg_base_dir rg) topic pid) st"
    "ch_new ch (rg_channel_capacity rg) = Some q"
  shows "\<exists>actor w'. spawn_partition bx ch rg topic pid (as, w) = (Ok (length as), (as @ [actor], w')) \<and>
    restored actor w' (rg_base_dir rg) topic pid st \<and> only_touches (dir_files (partition_dir (rg_base_dir rg) topic pid)) w w'"
proof -
  obtain p w' where p: "partition_open_or_create bx topic pid (rg_base_dir rg) (rg_max_segment_bytes rg) (rg_sync_level rg) ((), w) =
      (Ok p, ((), w'))" "pt_topic p = topic" "pt_id p = pid" "pt_base_dir p = partition_dir (rg_base_dir rg) topic pid"
    "partition_holds p w' (st_records st)" "partition_next_offset p = st_next st"
    "only_touches (dir_files (partition_dir (rg_base_dir rg) topic pid)) w w'"
    using stored_partition_opens [OF assms(1-3), of "rg_sync_level rg"] by (elim exE conjE) (rule that; assumption)
  let ?actor = "\<lparr> ac_partition = p, ac_mailbox = q, ac_alive = True \<rparr>"
  have "spawn_partition bx ch rg topic pid (as, w) = (Ok (length as), (as @ [?actor], w'))"
    by (simp add: spawn_partition_def bindp_def on_paths_def p(1) assms(4))
  moreover have "restored ?actor w' (rg_base_dir rg) topic pid st"
    using p(2-6) by (simp add: restored_def)
  ultimately show ?thesis
    using p(7) by blast
qed

end

section \<open>Loading the registry\<close>

context bytes_crate
begin

text \<open>The partitions of a topic, found by the numbers that name their directories.\<close>

lemma load_partitions_restores:
  assumes "quiet w" "plain_topic topic" "distinct ids" "ch_new ch (rg_channel_capacity rg) = Some q"
    "\<And>i. i \<in> set ids \<Longrightarrow> stored_partition bx (rg_max_segment_bytes rg) w (partition_dir (rg_base_dir rg) topic i) (held i)"
  shows "\<exists>pm as' w'. load_partitions bx ch rg topic (rg_base_dir rg @ [topic]) (map (\<lambda>i. show_nat (unat i)) ids) pmap (as, w) =
      (Ok pm, (as @ as', w')) \<and>
    only_touches (\<Union>i \<in> set ids. dir_files (partition_dir (rg_base_dir rg) topic i)) w w' \<and>
    (\<forall>i. if i \<in> set ids then \<exists>a < length (as @ as'). pm i = Some a \<and> restored ((as @ as') ! a) w' (rg_base_dir rg) topic i (held i)
         else pm i = pmap i)"
  using assms(1,3,5)
proof (induction ids arbitrary: as w pmap)
  case Nil
  then show ?case
    by (simp add: only_touches_refl)
next
  case (Cons i ids)
  let ?base = "rg_base_dir rg"
  let ?dir = "\<lambda>i. partition_dir ?base topic i"
  obtain actor w1 where sp: "spawn_partition bx ch rg topic i (as, w) = (Ok (length as), (as @ [actor], w1))"
    "restored actor w1 ?base topic i (held i)" "only_touches (dir_files (?dir i)) w w1"
    using spawn_restores [OF Cons.prems(1) assms(2) Cons.prems(3) assms(4), of i as] by auto
  have dist: "distinct ids"
    using Cons.prems(2) by simp
  have stored: "stored_partition bx (rg_max_segment_bytes rg) w1 (?dir j) (held j)" if "j \<in> set ids" for j
    using stored_partition_other [OF Cons.prems(3) sp(3) partition_dirs_apart] that Cons.prems(2) by auto
  obtain pm as' w' where rest: "load_partitions bx ch rg topic (?base @ [topic]) (map (\<lambda>i. show_nat (unat i)) ids)
      (pmap(i \<mapsto> length as)) (as @ [actor], w1) = (Ok pm, ((as @ [actor]) @ as', w'))"
    "only_touches (\<Union>i \<in> set ids. dir_files (?dir i)) w1 w'"
    "\<forall>j. if j \<in> set ids then \<exists>a < length ((as @ [actor]) @ as'). pm j = Some a \<and>
        restored (((as @ [actor]) @ as') ! a) w' ?base topic j (held j) else pm j = (pmap(i \<mapsto> length as)) j"
    using Cons.IH [OF only_touches_quiet [OF sp(3)] dist stored, where pmap = "pmap(i \<mapsto> length as)" and as = "as @ [actor]"]
    by blast
  have "is_dir w (?dir i)"
    using Cons.prems(3) [of i] by (auto simp: stored_partition_def has_dir_def)
  then have "load_partitions bx ch rg topic (?base @ [topic]) (map (\<lambda>i. show_nat (unat i)) (i # ids)) pmap (as, w) =
      (Ok pm, (as @ actor # as', w'))"
    using sp(1) rest(1) by (simp add: bindp_def partition_dir_def)
  moreover have "only_touches (\<Union>i \<in> set (i # ids). dir_files (?dir i)) w w'"
    using only_touches_trans [OF sp(3) rest(2)] by simp
  moreover have "restored actor w' ?base topic i (held i)"
    using restored_other [OF sp(2) rest(2)] partition_dirs_apart [of topic topic _ i ?base] Cons.prems(2) by fastforce
  then have "\<forall>j. if j \<in> set (i # ids) then \<exists>a < length (as @ actor # as'). pm j = Some a \<and>
      restored ((as @ actor # as') ! a) w' ?base topic j (held j) else pm j = pmap j"
    using rest(3) Cons.prems(2) by (auto simp: nth_append split: if_splits)
  ultimately show ?case by blast
qed

end

text \<open>
  A topic on disk: its directory holds a directory for each of its partitions and nothing else. The
  partitions are given by their records.
\<close>

definition stored_topic ::
    "bytes_ops \<Rightarrow> u64 \<Rightarrow> path \<Rightarrow> world \<Rightarrow> string \<Rightarrow> (u32 \<Rightarrow> stock option) \<Rightarrow> bool" where
  "stored_topic bx mx base w topic held \<longleftrightarrow>
     plain_topic topic \<and> is_dir w (base @ [topic]) \<and>
     (\<forall>name. map_of (nodes w) (base @ [topic, name]) \<noteq> None \<longleftrightarrow> (\<exists>i. name = show_nat (unat i) \<and> held i \<noteq> None)) \<and>
     (\<forall>i st. held i = Some st \<longrightarrow> stored_partition bx mx w (partition_dir base topic i) st)"

abbreviation topic_files :: "path \<Rightarrow> string \<Rightarrow> path set" where
  "topic_files base topic \<equiv> (\<Union>i. dir_files (partition_dir base topic i))"

lemma topic_files_length: "q \<in> topic_files base topic \<Longrightarrow> length q = length base + 3"
  using dir_files_iff by fastforce

lemma topic_files_apart:
  assumes "topic \<notin> T"
  shows "(\<Union>t \<in> T. topic_files base t) \<inter> realm (partition_dir base topic i) = {}"
proof -
  have "q \<notin> realm (partition_dir base topic i)" if "t \<in> T" "q \<in> dir_files (partition_dir base t j)" for q t j
    using partition_dirs_apart [of t topic j i base] that assms by blast
  then show ?thesis by blast
qed

lemma stored_topic_other:
  assumes "stored_topic bx mx base w topic held" "only_touches (topic_files base t) w w'" "topic \<noteq> t"
  shows "stored_topic bx mx base w' topic held"
proof -
  have kept: "map_of (nodes w') q = map_of (nodes w) q" if "length q \<noteq> length base + 3" for q
    using assms(2) topic_files_length that unfolding only_touches_def by blast
  have "stored_partition bx mx w' (partition_dir base topic i) st" if "held i = Some st" for i st
  proof (rule stored_partition_other [OF _ assms(2)])
    show "stored_partition bx mx w (partition_dir base topic i) st"
      using assms(1) that by (simp add: stored_topic_def)
    show "topic_files base t \<inter> realm (partition_dir base topic i) = {}"
      using topic_files_apart [of topic "{t}" base i] assms(3) by simp
  qed
  then show ?thesis
    using assms(1) kept by (simp add: stored_topic_def is_dir_def)
qed

text \<open>The partitions of a topic as the registry finds them after a start.\<close>

definition topic_restored ::
    "topics \<Rightarrow> 'q actor list \<Rightarrow> world \<Rightarrow> path \<Rightarrow> string \<Rightarrow> (u32 \<Rightarrow> stock option) \<Rightarrow> bool" where
  "topic_restored tm as w base topic held \<longleftrightarrow>
     (\<forall>i. case held i of
        None \<Rightarrow> find_sender tm topic i = None
      | Some st \<Rightarrow> \<exists>a < length as. find_sender tm topic i = Some a \<and> restored (as ! a) w base topic i st)"

lemma topic_restored_other:
  assumes "topic_restored tm as w base topic held" "only_touches ps w w'"
    "\<And>i. ps \<inter> realm (partition_dir base topic i) = {}"
  shows "topic_restored tm (as @ as') w' base topic held"
  unfolding topic_restored_def
proof
  fix i
  show "case held i of None \<Rightarrow> find_sender tm topic i = None
    | Some st \<Rightarrow> \<exists>a < length (as @ as'). find_sender tm topic i = Some a \<and> restored ((as @ as') ! a) w' base topic i st"
  proof (cases "held i")
    case (Some st)
    then obtain a where a: "a < length as" "find_sender tm topic i = Some a" "restored (as ! a) w base topic i st"
      using assms(1) [unfolded topic_restored_def, rule_format, of i] by auto
    then show ?thesis
      using restored_other [OF a(3) assms(2,3)] Some by (auto simp: nth_append intro!: exI [of _ a])
  qed (use assms(1) [unfolded topic_restored_def, rule_format, of i] in simp)
qed

context bytes_crate
begin

text \<open>The directories of a topic, listed in any order.\<close>

lemma stored_topic_ids:
  assumes "stored_topic bx mx base w topic held"
  shows "\<exists>ids. names_in w (base @ [topic]) = map (\<lambda>i. show_nat (unat i)) ids \<and> distinct ids \<and>
    (\<forall>i. i \<in> set ids \<longleftrightarrow> held i \<noteq> None)"
proof -
  let ?names = "names_in w (base @ [topic])"
  let ?ids = "map (\<lambda>name. the (parse_u32 name)) ?names"
  have names: "name \<in> set ?names \<longleftrightarrow> (\<exists>i. name = show_nat (unat i) \<and> held i \<noteq> None)" for name
    using assms by (simp add: set_names_in stored_topic_def)
  have num: "show_nat (unat (the (parse_u32 name))) = name" if "name \<in> set ?names" for name
    using that names by auto
  have "names_in w (base @ [topic]) = map (\<lambda>i. show_nat (unat i)) ?ids"
    using num by (simp add: map_idI)
  moreover have "inj_on (\<lambda>name. the (parse_u32 name)) (set ?names)"
    by (rule inj_onI) (metis num)
  then have "distinct ?ids"
    by (simp add: distinct_map distinct_names_in)
  moreover have "i \<in> set ?ids \<longleftrightarrow> held i \<noteq> None" for i
    using names by (force simp: image_iff)
  ultimately show ?thesis
    by (intro exI [of _ ?ids] conjI allI)
qed

text \<open>Loading one topic.\<close>

lemma load_topic_restores:
  assumes "quiet w" "stored_topic bx (rg_max_segment_bytes rg) (rg_base_dir rg) w topic held"
    "ch_new ch (rg_channel_capacity rg) = Some q"
  shows "\<exists>names pm as' w'. read_dir (rg_base_dir rg @ [topic]) ((), w) = (Ok names, ((), w)) \<and>
    load_partitions bx ch rg topic (rg_base_dir rg @ [topic]) names Map.empty (as, w) = (Ok pm, (as @ as', w')) \<and>
    only_touches (topic_files (rg_base_dir rg) topic) w w' \<and>
    (\<forall>tm. tm topic = Some pm \<longrightarrow> topic_restored tm (as @ as') w' (rg_base_dir rg) topic held)"
proof -
  obtain ids where ids: "names_in w (rg_base_dir rg @ [topic]) = map (\<lambda>i. show_nat (unat i)) ids" "distinct ids"
    "\<And>i. i \<in> set ids \<longleftrightarrow> held i \<noteq> None"
    using stored_topic_ids [OF assms(2)] by blast
  have topic: "plain_topic topic" "is_dir w (rg_base_dir rg @ [topic])"
    using assms(2) by (simp_all add: stored_topic_def)
  have "stored_partition bx (rg_max_segment_bytes rg) w (partition_dir (rg_base_dir rg) topic i) (the (held i))"
    if "i \<in> set ids" for i
    using assms(2) ids(3) that by (auto simp: stored_topic_def)
  from load_partitions_restores [OF assms(1) topic(1) ids(2) assms(3) this, where pmap = Map.empty and as = as]
  obtain pm as' w' where load: "load_partitions bx ch rg topic (rg_base_dir rg @ [topic]) (map (\<lambda>i. show_nat (unat i)) ids)
      Map.empty (as, w) = (Ok pm, (as @ as', w'))"
    "only_touches (\<Union>i \<in> set ids. dir_files (partition_dir (rg_base_dir rg) topic i)) w w'"
    "\<forall>i. if i \<in> set ids then \<exists>a < length (as @ as'). pm i = Some a \<and>
        restored ((as @ as') ! a) w' (rg_base_dir rg) topic i (the (held i)) else pm i = Map.empty i"
    by blast
  have "topic_restored tm (as @ as') w' (rg_base_dir rg) topic held" if tm: "tm topic = Some pm" for tm
    unfolding topic_restored_def
  proof
    fix i
    show "case held i of None \<Rightarrow> find_sender tm topic i = None
      | Some st \<Rightarrow> \<exists>a < length (as @ as'). find_sender tm topic i = Some a \<and>
          restored ((as @ as') ! a) w' (rg_base_dir rg) topic i st"
      using load(3) [rule_format, of i] tm ids(3) [of i] by (cases "held i") (simp_all add: find_sender_def)
  qed
  moreover have "only_touches (topic_files (rg_base_dir rg) topic) w w'"
    by (rule only_touches_mono [OF load(2)]) (simp add: UN_mono)
  ultimately show ?thesis
    using load(1) read_dir_names [OF assms(1) topic(2)] unfolding ids(1)
    by (intro exI [of _ "map (\<lambda>i. show_nat (unat i)) ids"] exI [of _ pm] exI [of _ as'] exI [of _ w'] conjI allI impI)
qed

lemma load_topics_restores:
  assumes "quiet w" "distinct ts" "ch_new ch (rg_channel_capacity rg) = Some q"
    "\<And>t. t \<in> set ts \<Longrightarrow> stored_topic bx (rg_max_segment_bytes rg) (rg_base_dir rg) w t (held t)"
  shows "\<exists>tm as' w'. load_topics bx ch rg ts tmap (as, w) = (Ok tm, (as @ as', w')) \<and>
    only_touches (\<Union>t \<in> set ts. topic_files (rg_base_dir rg) t) w w' \<and>
    (\<forall>t. if t \<in> set ts then topic_restored tm (as @ as') w' (rg_base_dir rg) t (held t) else tm t = tmap t)"
  using assms(1,2,4)
proof (induction ts arbitrary: as w tmap)
  case Nil
  then show ?case
    by (simp add: only_touches_refl)
next
  case (Cons t ts)
  let ?base = "rg_base_dir rg"
  have stored: "stored_topic bx (rg_max_segment_bytes rg) ?base w t (held t)"
    using Cons.prems(3) by simp
  obtain names pm as1 w1 where load: "read_dir (?base @ [t]) ((), w) = (Ok names, ((), w))"
    "load_partitions bx ch rg t (?base @ [t]) names Map.empty (as, w) = (Ok pm, (as @ as1, w1))"
    "only_touches (topic_files ?base t) w w1" "\<forall>tm. tm t = Some pm \<longrightarrow> topic_restored tm (as @ as1) w1 ?base t (held t)"
    using load_topic_restores [OF Cons.prems(1) stored assms(3), of as] by (elim exE conjE) (rule that; assumption)
  have rest: "stored_topic bx (rg_max_segment_bytes rg) ?base w1 u (held u)" if "u \<in> set ts" for u
    using stored_topic_other [OF Cons.prems(3) load(3)] that Cons.prems(2) by auto
  have dist: "t \<notin> set ts" "distinct ts"
    using Cons.prems(2) by simp_all
  obtain tm as2 w2 where more: "load_topics bx ch rg ts (tmap(t \<mapsto> pm)) (as @ as1, w1) = (Ok tm, ((as @ as1) @ as2, w2))"
    "only_touches (\<Union>t \<in> set ts. topic_files ?base t) w1 w2"
    "\<forall>u. if u \<in> set ts then topic_restored tm ((as @ as1) @ as2) w2 ?base u (held u) else tm u = (tmap(t \<mapsto> pm)) u"
    using Cons.IH [OF only_touches_quiet [OF load(3)] dist(2) rest, where tmap = "tmap(t \<mapsto> pm)" and as = "as @ as1"] by blast
  have "tm t = Some pm"
    using more(3) [rule_format, of t] dist(1) by simp
  then have first: "topic_restored tm ((as @ as1) @ as2) w2 ?base t (held t)"
    using load(4) topic_restored_other [OF _ more(2) topic_files_apart [OF dist(1)]] by blast
  have "is_dir w (?base @ [t])"
    using stored by (simp add: stored_topic_def)
  then have "load_topics bx ch rg (t # ts) tmap (as, w) = (Ok tm, (as @ as1 @ as2, w2))"
    using load(1,2) more(1) by (simp add: bindp_def on_paths_def)
  moreover have "only_touches (\<Union>t \<in> set (t # ts). topic_files ?base t) w w2"
    using only_touches_trans [OF load(3) more(2)] by simp
  moreover have "if u \<in> set (t # ts) then topic_restored tm (as @ as1 @ as2) w2 ?base u (held u) else tm u = tmap u" for u
    using first more(3) [rule_format, of u] by (cases "u = t") (simp_all split: if_splits)
  ultimately show ?case
    by (intro exI [of _ tm] exI [of _ "as1 @ as2"] exI [of _ w2] conjI allI)
qed

end

end
