(* ===== verification/Ruka_Restart.thy ===== *)
theory Ruka_Restart
  imports Ruka_Reload Ruka_Demo
begin

text \<open>
  A broker that was stopped, or lost its power, and is started again: what its data directory holds
  at any time, and what \<open>TopicRegistry::load\<close> makes of it.
\<close>

section \<open>A loss of power\<close>

text \<open>
  The name of a file or directory is itself forced to disk only by synchronising the directory that
  it is in, which nothing in the code does. A loss of power may therefore take names away as well, and with
  a directory everything below it.
\<close>

definition power_loss :: "(path \<Rightarrow> bool) \<Rightarrow> world \<Rightarrow> world" where
  "power_loss lost w =
     (let w = crash w in w \<lparr> nodes := filter (\<lambda>(p, n). \<not> list_ex (\<lambda>k. lost (take k p)) [0..<Suc (length p)]) (nodes w) \<rparr>)"

lemma map_of_filter_keys: "map_of (filter (\<lambda>(p, n). P p) xs) q = (if P q then map_of xs q else None)"
  by (induction xs) auto

lemma map_of_power_loss:
  "map_of (nodes (power_loss lost w)) q = (if \<exists>q'. prefix q' q \<and> lost q' then None else map_of (nodes (crash w)) q)"
proof -
  have "list_ex (\<lambda>k. lost (take k q)) [0..<Suc (length q)] \<longleftrightarrow> (\<exists>q'. prefix q' q \<and> lost q')"
  proof
    assume "list_ex (\<lambda>k. lost (take k q)) [0..<Suc (length q)]"
    then show "\<exists>q'. prefix q' q \<and> lost q'"
      using take_is_prefix by (auto simp: list_ex_iff)
  next
    assume "\<exists>q'. prefix q' q \<and> lost q'"
    then obtain q' where "prefix q' q" "lost q'" by blast
    then have "take (length q') q = q'" "length q' \<le> length q"
      by (auto simp: prefix_def)
    then show "list_ex (\<lambda>k. lost (take k q)) [0..<Suc (length q)]"
      using \<open>lost q'\<close> unfolding list_ex_iff by (intro bexI [of _ "length q'"]) (simp_all del: upt_Suc)
  qed
  then show ?thesis
    by (auto simp: power_loss_def Let_def map_of_filter_keys simp del: upt_Suc)
qed

lemma quiet_power_loss [simp]: "quiet (power_loss lost w)"
  by (simp add: power_loss_def Let_def crash_def quiet_def)

section \<open>From a running broker to its data directory\<close>

text \<open>
  A world with the same directories and the same names in, above and below a directory. Both the world
  itself and what a loss of power leaves of it, if it takes none of these names, are such images.
\<close>

definition along :: "path \<Rightarrow> path \<Rightarrow> bool" where
  "along base q \<longleftrightarrow> prefix base q \<or> prefix q base"

definition mirrors :: "path \<Rightarrow> world \<Rightarrow> world \<Rightarrow> bool" where
  "mirrors base w w' \<longleftrightarrow>
     quiet w' \<and> (\<forall>q. along base q \<longrightarrow> is_dir w' q = is_dir w q \<and>
       (map_of (nodes w') q = None \<longleftrightarrow> map_of (nodes w) q = None))"

lemma mirrorsD:
  assumes "mirrors base w w'"
  shows "quiet w'" "along base q \<Longrightarrow> is_dir w' q = is_dir w q"
    "along base q \<Longrightarrow> map_of (nodes w') q = None \<longleftrightarrow> map_of (nodes w) q = None"
  using assms by (simp_all add: mirrors_def)

lemma along_simps [simp]: "along base (base @ q)" "along base base"
  by (simp_all add: along_def)

lemma along_take: "along base q \<Longrightarrow> along base (take k q)"
  unfolding along_def using prefix_order.trans [OF take_is_prefix] prefix_same_cases [OF _ take_is_prefix] by blast

lemma along_partition_dir [simp]: "along base (partition_dir base t i)" "along base (partition_dir base t i @ q)"
  by (simp_all add: partition_dir_def)

lemma along_dirs_to: "q \<in> dirs_to base \<Longrightarrow> along base q"
  by (auto simp: dirs_to_def along_def take_is_prefix)

lemma stored_partition_ok:
  assumes "partition_ok p w rss" "unat mx < 2 ^ 63" "mirrors base w w'"
    "\<And>q. q \<in> dir_files (pt_base_dir p) \<Longrightarrow> content w' q = content w q"
    "\<And>name. map_of (nodes w) (pt_base_dir p @ [name]) \<noteq> None \<Longrightarrow> pt_base_dir p @ [name] \<in> dir_files (pt_base_dir p)"
    "bytes_crate bx" "prefix base (pt_base_dir p)"
  shows "stored_partition bx mx w' (pt_base_dir p) \<lparr> st_next = partition_next_offset p, st_records = rss \<rparr>"
proof -
  let ?dir = "pt_base_dir p"
  have along: "along base ?dir" "along base (?dir @ q)" for q
    using assms(7) by (auto simp: along_def)
  have holds: "partition_holds p w rss" and filed: "filed p w rss"
    using assms(1) by (simp_all add: partition_ok_def)
  have len: "length rss = length (pt_segments p)" "pt_segments p \<noteq> []" "has_dir w ?dir"
    using holds by (simp_all add: partition_holds_def)
  have "stored_segment bx ?dir mx w' (base_of p i) (rss ! i)" if i: "i < length rss" for i
  proof -
    have seg: "segment_holds (pt_segments p ! i) w (rss ! i)" "fpath (sg_log_file (pt_segments p ! i)) = log_path ?dir (base_of p i)"
      using holds i by (simp_all add: partition_holds_def)
    have files: "log_path ?dir (base_of p i) \<in> dir_files ?dir" "index_path ?dir (base_of p i) \<in> dir_files ?dir"
      by (auto simp: dir_files_def files_of_def)
    have "content w (index_path ?dir (base_of p i)) = Some (entries_bytes (entries_at 0 (rss ! i)))"
      using filed i by (simp add: filed_def segment_filed_def)
    then have "index_usable w' (index_path ?dir (base_of p i)) (rss ! i)"
      using assms(4) [OF files(2)] seg(1) by (intro index_usable_complete) (simp_all add: segment_holds_def)
    then show ?thesis
      using seg assms(2) assms(4) [OF files(1)] bytes_crate.torn_Nil [OF assms(6)]
      by (auto simp: stored_segment_def segment_holds_def recoverable_def intro!: exI [of _ "[]"])
  qed
  moreover have "rss ! i \<noteq> [] \<and> base_of p (Suc i) = base_of p i + of_nat (length (rss ! i))" if "Suc i < length rss" for i
    using holds that by (auto simp: partition_holds_def segment_holds_def)
  moreover have "\<exists>b \<in> sg_base_offset ` set (pt_segments p). ?dir @ [name] \<in> files_of ?dir b"
    if "map_of (nodes w') (?dir @ [name]) \<noteq> None" for name
  proof -
    have "map_of (nodes w) (?dir @ [name]) \<noteq> None"
      using that mirrorsD(3) [OF assms(3) along(2) [of "[name]"]] by argo
    then obtain i where "i < length rss" "?dir @ [name] \<in> files_of ?dir (base_of p i)"
      using filed assms(5) [of name] unfolding filed_def by blast
    then show ?thesis
      using len(1) by auto
  qed
  moreover have "has_dir w' ?dir"
    using len(3) mirrorsD(2) [OF assms(3) along_take [OF along(1)]] by (simp add: has_dir_def)
  moreover have "partition_next_offset p = last (map sg_base_offset (pt_segments p)) + of_nat (length (last rss))"
    using assms(1) len(2) by (simp add: partition_next_last [OF assms(1)] last_map partition_ok_def segment_ok_def segment_holds_def)
  ultimately show ?thesis
    unfolding stored_partition_def using len(1,2) by (intro conjI exI [of _ "map sg_base_offset (pt_segments p)"]) auto
qed

text \<open>What lies below the data directory.\<close>

lemma partition_paths:
  assumes "q \<in> dirs_to (partition_dir base t i) \<union> dir_files (partition_dir base t i)"
  shows "q = base @ [name] \<Longrightarrow> name = t"
    "q = base @ [topic, name] \<Longrightarrow> topic = t \<and> name = show_nat (unat i)"
    "q = partition_dir base topic j @ [name] \<Longrightarrow> topic = t \<and> j = i \<and> q \<in> dir_files (partition_dir base t i)"
proof -
  have short: "q = take (length q) (partition_dir base t i)" if "length q \<le> length base + 2"
    using assms that dir_files_iff by (fastforce simp: dirs_to_def)
  show "name = t" if "q = base @ [name]"
    using short that by (simp add: partition_dir_def)
  show "topic = t \<and> name = show_nat (unat i)" if "q = base @ [topic, name]"
    using short that by (simp add: partition_dir_def)
  assume q: "q = partition_dir base topic j @ [name]"
  then have "q \<notin> dirs_to (partition_dir base t i)"
    using dirs_to_length by fastforce
  then have files: "q \<in> dir_files (partition_dir base t i)"
    using assms by blast
  then have "partition_dir base topic j = partition_dir base t i"
    using dir_files_iff q by fastforce
  then show "topic = t \<and> j = i \<and> q \<in> dir_files (partition_dir base t i)"
    using files by (simp add: partition_dir_inj)
qed

lemma partition_dir_take:
  "take (length base + 1) (partition_dir base t i) = base @ [t]"
  "take (length base + 2) (partition_dir base t i) = partition_dir base t i"
  by (simp_all add: partition_dir_def)

abbreviation senders :: "'q broker \<Rightarrow> string \<Rightarrow> u32 \<Rightarrow> sender option" where
  "senders b \<equiv> find_sender (rg_topics (bk_registry b))"

lemma data_dir_node:
  assumes "broker_holds b logs" "strict_prefix (rg_base_dir (bk_registry b)) q" "map_of (nodes (bk_world b)) q \<noteq> None"
  shows "\<exists>t i a. senders b t i = Some a \<and> q \<in> dirs_to (home b t i) \<union> dir_files (home b t i)"
proof -
  have "tidy b" and reg: "registered b" and len: "length logs = length (bk_actors b)"
    using assms(1) by (simp_all add: broker_holds_def)
  then have "\<exists>(dir, lev) \<in> places b. q \<in> dirs_to dir \<union> dir_files dir"
    using assms(2,3) unfolding tidy_def by blast
  then obtain a where a: "a < length (bk_actors b)"
    "q \<in> dirs_to (pt_base_dir (ac_partition (bk_actors b ! a))) \<union> dir_files (pt_base_dir (ac_partition (bk_actors b ! a)))"
    by (auto simp: places_def in_set_conv_nth)
  moreover have "actor_holds b a (logs ! a)"
    using assms(1) a(1) len by (simp add: broker_holds_def)
  ultimately show ?thesis
    using reg by (auto simp: actor_holds_def registered_def)
qed

lemma sender_dir:
  assumes "broker_holds b logs" "senders b t i = Some a"
  shows "actor_holds b a (logs ! a)" "pt_base_dir (ac_partition (bk_actors b ! a)) = home b t i" "plain_topic t"
    "is_dir (bk_world b) (rg_base_dir (bk_registry b) @ [t])" "is_dir (bk_world b) (home b t i)"
proof -
  have a: "a < length logs" "pt_topic (ac_partition (bk_actors b ! a)) = t" "pt_id (ac_partition (bk_actors b ! a)) = i"
    using assms by (auto simp: broker_holds_def registered_def)
  show holds: "actor_holds b a (logs ! a)"
    using assms(1) a(1) by (simp add: broker_holds_def)
  show dir: "pt_base_dir (ac_partition (bk_actors b ! a)) = home b t i" "plain_topic t"
    using holds a(2,3) by (auto simp: actor_holds_def)
  have "has_dir (bk_world b) (home b t i)"
    using holds dir(1) by (auto simp: actor_holds_def partition_ok_def partition_holds_def)
  then have "is_dir (bk_world b) (take k (home b t i))" if "k \<le> length (rg_base_dir (bk_registry b)) + 2" for k
    using that by (simp add: has_dir_def)
  from this [of "length (rg_base_dir (bk_registry b)) + 1"] this [of "length (rg_base_dir (bk_registry b)) + 2"]
  show "is_dir (bk_world b) (rg_base_dir (bk_registry b) @ [t])" "is_dir (bk_world b) (home b t i)"
    unfolding home_def partition_dir_take by simp_all
qed

lemma mirrors_refl: "quiet w \<Longrightarrow> mirrors base w w"
  by (simp add: mirrors_def)

lemma power_loss_along:
  assumes "\<forall>q. along base q \<longrightarrow> \<not> lost q" "along base q"
  shows "map_of (nodes (power_loss lost w)) q = map_of (nodes (crash w)) q"
proof -
  have "along base q'" if "prefix q' q" for q'
    using along_take [OF assms(2), of "length q'"] that by (auto simp: prefix_def)
  then show ?thesis
    using assms(1) by (auto simp: map_of_power_loss)
qed

lemma mirrors_power_loss:
  assumes "\<forall>q. along base q \<longrightarrow> \<not> lost q"
  shows "mirrors base w (power_loss lost w)"
proof -
  have "map_of (nodes (crash w)) q = Some DirNode \<longleftrightarrow> map_of (nodes w) q = Some DirNode" for q
    by (cases "map_of (nodes w) q") (auto simp: map_of_crash split: node.split)
  then show ?thesis
    using power_loss_along [OF assms] by (simp add: mirrors_def is_dir_def map_of_crash)
qed

definition stock_of :: "'q broker \<Rightarrow> (sender \<Rightarrow> log_record list list) \<Rightarrow> sender \<Rightarrow> stock" where
  "stock_of b rec a =
     \<lparr> st_next = partition_next_offset (ac_partition (bk_actors b ! a)), st_records = rec a \<rparr>"

context bytes_crate
begin

text \<open>The records of the partitions of a broker, one list for each segment.\<close>

lemma broker_topics:
  assumes "broker_holds b logs" "mirrors (rg_base_dir (bk_registry b)) (bk_world b) w'" "unat mx < 2 ^ 63"
    "\<forall>a < length (bk_actors b). \<forall>q \<in> dir_files (pt_base_dir (ac_partition (bk_actors b ! a))). content w' q = content (bk_world b) q"
    "\<forall>a < length (bk_actors b). partition_ok (ac_partition (bk_actors b ! a)) (bk_world b) (rec a)"
    "senders b topic pid \<noteq> None"
  shows "stored_topic bx mx (rg_base_dir (bk_registry b)) w' topic (\<lambda>i. map_option (stock_of b rec) (senders b topic i))"
proof -
  let ?base = "rg_base_dir (bk_registry b)"
  note same = mirrorsD(2,3) [OF assms(2)]
  obtain a where a: "senders b topic pid = Some a"
    using assms(6) by blast
  have below: "strict_prefix ?base (?base @ q)" if "q \<noteq> []" for q
    using that by (simp add: strict_prefix_def)
  have "(\<exists>i. name = show_nat (unat i) \<and> senders b topic i \<noteq> None)" if node: "map_of (nodes w') (?base @ [topic, name]) \<noteq> None" for name
  proof -
    have "map_of (nodes (bk_world b)) (?base @ [topic, name]) \<noteq> None"
      using node same(2) [OF along_simps(1) [of _ "[topic, name]"]] by argo
    then obtain t i c where "senders b t i = Some c" "?base @ [topic, name] \<in> dirs_to (home b t i) \<union> dir_files (home b t i)"
      using data_dir_node [OF assms(1) below [of "[topic, name]"]] by blast
    then show ?thesis
      using partition_paths(2) [where base = ?base and t = t and i = i and topic = topic and name = name, OF _ refl]
      by (auto simp: home_def)
  qed
  moreover have "map_of (nodes w') (?base @ [topic, show_nat (unat i)]) \<noteq> None" if found: "senders b topic i \<noteq> None" for i
  proof -
    obtain c where "senders b topic i = Some c"
      using found by blast
    from sender_dir(5) [OF assms(1) this] show ?thesis
      using same(2) [OF along_simps(1)] by (auto simp: is_dir_def home_def partition_dir_def)
  qed
  moreover have "stored_partition bx mx w' (partition_dir ?base topic i) (stock_of b rec c)" if c: "senders b topic i = Some c" for i c
  proof -
    let ?p = "ac_partition (bk_actors b ! c)"
    have len: "c < length (bk_actors b)"
      using assms(1) c by (auto simp: broker_holds_def registered_def)
    note dir = sender_dir(2) [OF assms(1) c]
    have "pt_base_dir ?p @ [name] \<in> dir_files (pt_base_dir ?p)"
      if node: "map_of (nodes (bk_world b)) (pt_base_dir ?p @ [name]) \<noteq> None" for name
    proof -
      have "strict_prefix ?base (pt_base_dir ?p @ [name])"
        by (simp add: dir home_def partition_dir_def strict_prefix_def)
      then obtain t j d where "pt_base_dir ?p @ [name] \<in> dirs_to (home b t j) \<union> dir_files (home b t j)"
        using data_dir_node [OF assms(1)] node by blast
      then show ?thesis
        using partition_paths(3) [where base = ?base and t = t and i = j and topic = topic and j = i and name = name, OF _ refl]
        by (auto simp: dir home_def)
    qed
    then show ?thesis
      using stored_partition_ok [OF assms(5) [rule_format, OF len] assms(3,2) _ _ bytes_crate_axioms] assms(4) len
      by (simp add: dir home_def stock_of_def partition_dir_def)
  qed
  ultimately show ?thesis
    unfolding stored_topic_def using sender_dir(3,4) [OF assms(1) a] same(1) by auto
qed

end

section \<open>A restart finds what was there\<close>

text \<open>
  What the broker knows of a partition: the next offset, and what a read at an offset returns. A partition that
  does not exist has no answer.
\<close>

definition partition_view :: "bytes_ops \<Rightarrow> 'q broker \<Rightarrow> string \<Rightarrow> u32 \<Rightarrow> u64 \<Rightarrow> (u64 \<times> log_record option res) option" where
  "partition_view bx b topic pid off =
     map_option (\<lambda>a. (partition_next_offset (ac_partition (bk_actors b ! a)),
       fst (partition_read bx off (ac_partition (bk_actors b ! a), bk_world b)))) (senders b topic pid)"

lemma no_file_above:
  assumes "broker_holds b logs" "mirrors (rg_base_dir (bk_registry b)) (bk_world b) w'" "q \<in> dirs_to (rg_base_dir (bk_registry b))"
  shows "map_of (nodes w') q \<noteq> Some (FileNode x d)"
proof
  assume f: "map_of (nodes w') q = Some (FileNode x d)"
  have "q \<noteq> []"
    using assms(3) by (auto simp: dirs_to_def)
  then have "map_of (nodes (bk_world b)) q \<noteq> None" "map_of (nodes (bk_world b)) q \<noteq> Some DirNode"
    using f mirrorsD(2,3) [OF assms(2) along_dirs_to [OF assms(3)]] by (auto simp: is_dir_def)
  then obtain y e where "map_of (nodes (bk_world b)) q = Some (FileNode y e)"
    by (metis node.exhaust not_None_eq)
  then show False
    using assms(1,3) by (simp add: broker_holds_def tidy_def)
qed

lemma base_is_dir:
  assumes "broker_holds b logs" "mirrors (rg_base_dir (bk_registry b)) (bk_world b) w'"
  shows "path_exists w' (rg_base_dir (bk_registry b)) \<Longrightarrow> is_dir w' (rg_base_dir (bk_registry b))"
    "senders b t i = Some a \<Longrightarrow> path_exists w' (rg_base_dir (bk_registry b))"
proof -
  let ?base = "rg_base_dir (bk_registry b)"
  show "is_dir w' ?base" if "path_exists w' ?base"
  proof (cases "?base = []")
    case False
    then have "?base \<in> dirs_to ?base"
      by (auto simp: dirs_to_def intro!: exI [of _ "length ?base"])
    then show ?thesis
      using no_file_above [OF assms] that False by (auto simp: path_exists_def is_dir_def) (metis node.exhaust)
  qed (simp add: is_dir_def)
  assume "senders b t i = Some a"
  from sender_dir(1,2) [OF assms(1) this] have "has_dir (bk_world b) (home b t i)"
    by (auto simp: actor_holds_def partition_ok_def partition_holds_def)
  then have "is_dir (bk_world b) (take (length ?base) (home b t i))"
    by (simp add: has_dir_def)
  then show "path_exists w' ?base"
    using mirrorsD(2) [OF assms(2), of ?base] by (auto simp: path_exists_def is_dir_def home_def partition_dir_def)
qed

lemma data_dir_names:
  assumes "broker_holds b logs" "mirrors (rg_base_dir (bk_registry b)) (bk_world b) w'"
  shows "t \<in> set (names_in w' (rg_base_dir (bk_registry b))) \<longleftrightarrow> (\<exists>i. senders b t i \<noteq> None)"
proof -
  let ?base = "rg_base_dir (bk_registry b)"
  have "t \<in> set (names_in w' ?base) \<longleftrightarrow> map_of (nodes (bk_world b)) (?base @ [t]) \<noteq> None"
    using mirrorsD(3) [OF assms(2), of "?base @ [t]"] by (simp add: set_names_in)
  moreover have "\<exists>i. senders b t i \<noteq> None" if node: "map_of (nodes (bk_world b)) (?base @ [t]) \<noteq> None"
  proof -
    obtain u i a where "senders b u i = Some a" "?base @ [t] \<in> dirs_to (home b u i) \<union> dir_files (home b u i)"
      using data_dir_node [OF assms(1) _ node] by (auto simp: strict_prefix_def)
    then show ?thesis
      using partition_paths(1) [where base = ?base and t = u and i = i and name = t, OF _ refl] by (auto simp: home_def)
  qed
  moreover have "map_of (nodes (bk_world b)) (?base @ [t]) \<noteq> None" if "senders b t i \<noteq> None" for i
    using sender_dir(4) [OF assms(1), of t i] that by (auto simp: is_dir_def)
  ultimately show ?thesis by blast
qed

context bytes_crate
begin

lemma restored_view:
  assumes "restored (bk_actors b ! a) (bk_world b) base topic pid st" "quiet (bk_world b)" "senders b topic pid = Some a"
  shows "partition_view bx b topic pid off = Some (st_next st, Ok (record_at off (concat (st_records st))))"
proof -
  have holds: "partition_holds (ac_partition (bk_actors b ! a)) (bk_world b) (st_records st)"
    "partition_next_offset (ac_partition (bk_actors b ! a)) = st_next st"
    using assms(1) by (simp_all add: restored_def)
  show ?thesis
    using partition_read_log [OF holds(1) assms(2), of off] holds(2) assms(3) by (auto simp: partition_view_def)
qed

lemma restart_restores:
  assumes "broker_holds b logs" "mirrors (rg_base_dir (bk_registry b)) (bk_world b) w'" "unat (segment_max_bytes config) < 2 ^ 63"
    "ch_new ch (channel_capacity config) = Some q" "data_path config = rg_base_dir (bk_registry b)"
    "\<forall>a < length (bk_actors b). \<forall>q \<in> dir_files (pt_base_dir (ac_partition (bk_actors b ! a))). content w' q = content (bk_world b) q"
    "\<forall>a < length (bk_actors b). partition_ok (ac_partition (bk_actors b ! a)) (bk_world b) (rec a)"
  shows "\<exists>s. broker_start bx ch config w' = Ok (s :: ('q, 'f) system) \<and> quiet (bk_world (sy_broker s)) \<and>
    (\<forall>t. topic_restored (rg_topics (bk_registry (sy_broker s))) (bk_actors (sy_broker s)) (bk_world (sy_broker s))
       (data_path config) t (\<lambda>i. map_option (stock_of b rec) (senders b t i)))"
proof (cases "path_exists w' (data_path config)")
  case True
  let ?held = "\<lambda>t i. map_option (stock_of b rec) (senders b t i)"
  define rg where "rg = registry_new (data_path config) (segment_max_bytes config) (default_partitions config)
    (cfg_sync_level config) (channel_capacity config)"
  let ?ts = "names_in w' (data_path config)"
  have set: "rg_base_dir rg = data_path config" "rg_max_segment_bytes rg = segment_max_bytes config"
    "rg_channel_capacity rg = channel_capacity config"
    by (simp_all add: rg_def registry_new_def)
  have quiet: "quiet w'"
    using assms(2) by (rule mirrorsD)
  have names: "t \<in> set ?ts \<longleftrightarrow> (\<exists>i. senders b t i \<noteq> None)" for t
    unfolding assms(5) by (rule data_dir_names [OF assms(1,2)])
  then have "stored_topic bx (rg_max_segment_bytes rg) (rg_base_dir rg) w' t (?held t)" if "t \<in> set ?ts" for t
    using broker_topics [OF assms(1,2,3,6,7)] that unfolding set assms(5) by blast
  then obtain tm as' w2 where load: "load_topics bx ch rg ?ts Map.empty ([], w') = (Ok tm, ([] @ as', w2))"
    "only_touches (\<Union>t \<in> set ?ts. topic_files (rg_base_dir rg) t) w' w2"
    "\<forall>t. if t \<in> set ?ts then topic_restored tm ([] @ as') w2 (rg_base_dir rg) t (?held t) else tm t = Map.empty t"
    using load_topics_restores [OF quiet distinct_names_in assms(4) [folded set(3)], where held = ?held and as = "[]" and tmap = Map.empty]
    by blast
  have "topic_restored tm as' w2 (data_path config) t (?held t)" for t
    using load(3) [rule_format, of t] names [of t] unfolding set
    by (cases "t \<in> set ?ts") (auto simp: topic_restored_def find_sender_def)
  moreover have "read_dir (data_path config) ((), w') = (Ok ?ts, ((), w'))"
    using read_dir_names [OF quiet] base_is_dir(1) [OF assms(1,2)] True unfolding assms(5) by blast
  ultimately show ?thesis
    using True load(1) only_touches_quiet [OF load(2)]
    by (simp add: broker_start_def registry_load_def on_paths_def bindp_def flip: rg_def)
next
  case False
  then have none: "senders b t i = None" for t i
    using base_is_dir(2) [OF assms(1,2)] unfolding assms(5) by (cases "senders b t i") blast+
  obtain w2 where w2: "create_dir_all (data_path config) ((), w') = (Ok (), ((), w2))"
    "only_touches (dirs_to (data_path config)) w' w2"
    using create_dir_all_creates [OF mirrorsD(1) [OF assms(2)], of "data_path config"] no_file_above [OF assms(1,2)]
    unfolding assms(5) by blast
  let ?rg = "registry_new (data_path config) (segment_max_bytes config) (default_partitions config)
    (cfg_sync_level config) (channel_capacity config)"
  have "topic_restored (rg_topics ?rg) ([] :: 'q actor list) w2 (data_path config) t (\<lambda>i. map_option (stock_of b rec) (senders b t i))" for t
    unfolding topic_restored_def none by (simp add: find_sender_def registry_new_def)
  then show ?thesis
    using False w2(1) only_touches_quiet [OF w2(2)] by (simp add: broker_start_def registry_load_def on_paths_def bindp_def)
qed

end

text \<open>At the strictest synchronisation level the files of a partition lose nothing with the power.\<close>

lemma synced_content:
  assumes "partition_ok p w rss" "pt_sync_level p = SyncLogAndIndex" "q \<in> dir_files (pt_base_dir p)"
  shows "content (crash w) q = content w q"
proof (cases "map_of (nodes w) q")
  case None
  then show ?thesis
    unfolding content_crash by (simp add: content_def durable_def)
next
  case (Some n)
  have filed: "filed p w rss"
    using assms(1) by (simp add: partition_ok_def)
  then obtain i where "i < length rss" "q \<in> files_of (pt_base_dir p) (base_of p i)"
    using assms(3) Some unfolding filed_def by blast
  then show ?thesis
    using filed assms(2) by (simp add: filed_def segment_filed_def content_crash)
qed

text \<open>The settings of the registry stay those of the configuration.\<close>

lemma reaches_settings:
  assumes "reaches bx ch fm P config w (s :: ('q, 'f) system)"
  shows "rg_base_dir (bk_registry (sy_broker s)) = data_path config \<and> rg_sync_level (bk_registry (sy_broker s)) = cfg_sync_level config"
proof -
  obtain s0 es where s0: "fresh config w" "broker_start bx ch config w = Ok s0" "sys_run bx ch fm P s0 es s"
    using assms by (auto simp: reaches_def)
  obtain w' where "broker_start bx ch config w = Ok (\<lparr> sy_broker = \<lparr> bk_registry = registry_new (data_path config)
      (segment_max_bytes config) (default_partitions config) (cfg_sync_level config) (channel_capacity config),
      bk_actors = [], bk_replies = [], bk_world = w' \<rparr>, sy_conns = [] \<rparr> :: ('q, 'f) system)"
    using broker_start_empty [OF s0(1), of bx ch] by blast
  then have start: "rg_base_dir (bk_registry (sy_broker s0)) = data_path config" "rg_sync_level (bk_registry (sy_broker s0)) = cfg_sync_level config"
    using s0(2) by (auto simp: registry_new_def)
  show ?thesis
  proof (rule sys_run_keeps [OF s0(3)])
    fix s e t
    assume step: "sys_step bx ch fm s e t"
      and "rg_base_dir (bk_registry (sy_broker s)) = data_path config \<and> rg_sync_level (bk_registry (sy_broker s)) = cfg_sync_level config"
    then show "rg_base_dir (bk_registry (sy_broker t)) = data_path config \<and> rg_sync_level (bk_registry (sy_broker t)) = cfg_sync_level config"
      using same_settings_simps(1,3) [OF sys_step_settings [OF step]] by simp
  qed (simp add: start)
qed

context system_env
begin

lemma reaches_reload:
  assumes "reaches bx ch fm tame config w (s :: ('q, 'f) system)" "mirrors (data_path config) (bk_world (sy_broker s)) w'"
    "\<And>p rss q. partition_ok p (bk_world (sy_broker s)) rss \<Longrightarrow> pt_sync_level p = cfg_sync_level config \<Longrightarrow>
       prefix (data_path config) (pt_base_dir p) \<Longrightarrow> q \<in> dir_files (pt_base_dir p) \<Longrightarrow> content w' q = content (bk_world (sy_broker s)) q"
  shows "\<exists>s'. broker_start bx ch config w' = Ok (s' :: ('q, 'f) system) \<and>
    (\<forall>topic pid off. partition_view bx (sy_broker s') topic pid off = partition_view bx (sy_broker s) topic pid off)"
proof -
  let ?b = "sy_broker s"
  obtain logs ss where "serves bx ch items s logs ss"
    using reaches_serves(1) [OF assms(1)] by blast
  then have holds: "broker_holds ?b logs"
    by (simp add: serves_def sys_inv_def)
  note set = reaches_settings [OF assms(1)]
  have "fresh config w"
    using assms(1) by (simp add: reaches_def)
  then have mx: "unat (segment_max_bytes config) < 2 ^ 63" and cap: "0 < channel_capacity config" "channel_capacity config \<le> max_permits"
    by (simp_all add: fresh_def)
  obtain q where q: "ch_new ch (channel_capacity config) = Some q"
    using new_some [OF cap] by blast
  have "\<forall>a < length (bk_actors ?b). \<exists>rss. partition_ok (ac_partition (bk_actors ?b ! a)) (bk_world ?b) rss"
    using holds by (auto simp: broker_holds_def actor_holds_def)
  then obtain rec where rec: "\<forall>a < length (bk_actors ?b). partition_ok (ac_partition (bk_actors ?b ! a)) (bk_world ?b) (rec a)"
    by metis
  have level: "pt_sync_level (ac_partition (bk_actors ?b ! a)) = cfg_sync_level config" if "a < length (bk_actors ?b)" for a
    using tidy_level [of ?b "pt_base_dir (ac_partition (bk_actors ?b ! a))"] holds that set
    by (auto simp: broker_holds_def places_def)
  have below: "prefix (data_path config) (pt_base_dir (ac_partition (bk_actors ?b ! a)))" if "a < length (bk_actors ?b)" for a
    using holds that set by (auto simp: broker_holds_def actor_holds_def home_def partition_dir_def)
  have files: "\<forall>a < length (bk_actors ?b). \<forall>q \<in> dir_files (pt_base_dir (ac_partition (bk_actors ?b ! a))).
      content w' q = content (bk_world ?b) q"
    using assms(3) rec level below by blast
  obtain s' where s': "broker_start bx ch config w' = Ok (s' :: ('q, 'f) system)" "quiet (bk_world (sy_broker s'))"
    "\<And>t. topic_restored (rg_topics (bk_registry (sy_broker s'))) (bk_actors (sy_broker s')) (bk_world (sy_broker s'))
       (data_path config) t (\<lambda>i. map_option (stock_of ?b rec) (senders ?b t i))"
    using restart_restores [OF holds assms(2) [folded conjunct1 [OF set]] mx q conjunct1 [OF set, symmetric] files rec] by blast
  have "partition_view bx (sy_broker s') t i off = partition_view bx ?b t i off" for t i off
  proof (cases "senders ?b t i")
    case None
    then show ?thesis
      using s'(3) [of t, unfolded topic_restored_def, rule_format, of i] by (simp add: partition_view_def)
  next
    case (Some a)
    then obtain c where c: "senders (sy_broker s') t i = Some c"
      "restored (bk_actors (sy_broker s') ! c) (bk_world (sy_broker s')) (data_path config) t i (stock_of ?b rec a)"
      using s'(3) [of t, unfolded topic_restored_def, rule_format, of i] by auto
    have a: "a < length (bk_actors ?b)" "quiet (bk_world ?b)"
      using holds Some by (auto simp: broker_holds_def registered_def)
    have "partition_holds (ac_partition (bk_actors ?b ! a)) (bk_world ?b) (rec a)"
      using rec a(1) by (simp add: partition_ok_def)
    from partition_read_log [OF this a(2), of off] show ?thesis
      using restored_view [OF c(2) s'(2) c(1), of off] Some by (auto simp: partition_view_def stock_of_def)
  qed
  then show ?thesis
    using s'(1) by blast
qed

lemma reaches_restart:
  assumes "reaches bx ch fm tame config w (s :: ('q, 'f) system)"
  shows "\<exists>s'. broker_start bx ch config (bk_world (sy_broker s)) = Ok (s' :: ('q, 'f) system) \<and>
    (\<forall>topic pid off. partition_view bx (sy_broker s') topic pid off = partition_view bx (sy_broker s) topic pid off)"
proof -
  obtain logs ss where "serves bx ch items s logs ss"
    using reaches_serves(1) [OF assms] by blast
  then have "quiet (bk_world (sy_broker s))"
    by (simp add: serves_def sys_inv_def broker_holds_def)
  then show ?thesis
    using reaches_reload [OF assms mirrors_refl] by blast
qed

end

text \<open>The broker of the demonstration after its first request.\<close>

lemma demo_view:
  obtains b ts where "reaches be_ops list_chan demo_pipe tame broker_config_default empty_world
      (lone b ([], False, []) (Handling (Done demo_ack)))"
    "partition_view be_ops b demo_topic 0 0 = Some (1, Ok (Some (written_record ts 0 (as_bytes demo_message))))"
proof -
  obtain b rss ts where b: "reaches be_ops list_chan demo_pipe tame broker_config_default empty_world
      (lone b ([], False, []) (Handling (Done demo_ack)))"
    "find_sender (rg_topics (bk_registry b)) demo_topic 0 = Some 0"
    "partition_ok (ac_partition (bk_actors b ! 0)) (bk_world b) rss" "quiet (bk_world b)"
    "concat rss = [written_record ts 0 (as_bytes demo_message)]"
    by (rule demo_reached)
  have "partition_holds (ac_partition (bk_actors b ! 0)) (bk_world b) rss"
    using b(3) by (simp add: partition_ok_def)
  moreover have "partition_next_offset (ac_partition (bk_actors b ! 0)) = 1"
    using next_of_log [OF b(3,5)] by (simp add: written_record_def word_unat_eq_iff)
  ultimately have "partition_view be_ops b demo_topic 0 0 = Some (1, Ok (Some (written_record ts 0 (as_bytes demo_message))))"
    using be.partition_read_log [of "ac_partition (bk_actors b ! 0)" "bk_world b" rss 0] b(2,4,5)
    by (auto simp: partition_view_def record_at_def written_record_def)
  then show ?thesis
    by (rule that [OF b(1)])
qed

section \<open>Properties of a restart\<close>

text \<open>C3: A broker that is stopped and started again finds what it had. After any run from an empty data
  directory, whatever the synchronisation level, a start on the files of the stopped
  broker succeeds and knows exactly the same partitions, each with the same next offset,
  and a read at any offset of any partition returns what it returned before.\<close>

theorem restart_preserves_partitions:
  assumes "system_env bx ch items capacity fm unread finished written"
    "reaches bx ch fm tame config w (s :: ('q, 'f) system)"
  shows "\<exists>s'. broker_start bx ch config (bk_world (sy_broker s)) = Ok (s' :: ('q, 'f) system) \<and>
    (\<forall>topic pid off. partition_view bx (sy_broker s') topic pid off = partition_view bx (sy_broker s) topic pid off)"
  using assms by (rule system_env.reaches_restart)

theorem restart_preserves_partitions_witness:
  "\<exists>(w :: world) s' ts. broker_start be_ops list_chan broker_config_default w = Ok (s' :: (nat \<times> broker_command list, pipe) system) \<and>
    partition_view be_ops (sy_broker s') demo_topic 0 0 = Some (1, Ok (Some (written_record ts 0 (as_bytes demo_message))))"
proof -
  obtain b ts where b: "reaches be_ops list_chan demo_pipe tame broker_config_default empty_world
      (lone b ([], False, []) (Handling (Done demo_ack)))"
    "partition_view be_ops b demo_topic 0 0 = Some (1, Ok (Some (written_record ts 0 (as_bytes demo_message))))"
    by (rule demo_view)
  obtain s' where "broker_start be_ops list_chan broker_config_default (bk_world b) = Ok (s' :: (nat \<times> broker_command list, pipe) system)"
    "partition_view be_ops (sy_broker s') demo_topic 0 0 = partition_view be_ops b demo_topic 0 0"
    using restart_preserves_partitions [OF sample.system_env_axioms b(1)] by auto
  then show ?thesis
    unfolding b(2) by (intro exI conjI)
qed

text \<open>C4: With the synchronisation level that the broker has by default, a loss of power between two
  steps loses nothing, if it leaves the names of files and directories in place. Whatever
  state the broker has reached, a start on the files as they are on disk (the contents of the
  last synchronisation of each file) finds exactly the same partitions, next offsets and
  records as the broker had, provided that no name in, above or below the data directory is
  lost. This is an assumption on the file system: the code synchronises files but no directory.\<close>

theorem synced_broker_survives_power_loss:
  assumes "system_env bx ch items capacity fm unread finished written"
    "reaches bx ch fm tame config w (s :: ('q, 'f) system)" "cfg_sync_level config = SyncLogAndIndex"
    "\<forall>q. prefix (data_path config) q \<or> prefix q (data_path config) \<longrightarrow> \<not> lost q"
  shows "\<exists>s'. broker_start bx ch config (power_loss lost (bk_world (sy_broker s))) = Ok (s' :: ('q, 'f) system) \<and>
    (\<forall>topic pid off. partition_view bx (sy_broker s') topic pid off = partition_view bx (sy_broker s) topic pid off)"
proof (rule system_env.reaches_reload [OF assms(1,2)])
  have kept: "\<forall>q. along (data_path config) q \<longrightarrow> \<not> lost q"
    using assms(4) by (simp add: along_def)
  show "mirrors (data_path config) (bk_world (sy_broker s)) (power_loss lost (bk_world (sy_broker s)))"
    by (rule mirrors_power_loss [OF kept])
  fix p rss q
  assume p: "partition_ok p (bk_world (sy_broker s)) rss" "pt_sync_level p = cfg_sync_level config"
    "prefix (data_path config) (pt_base_dir p)" "q \<in> dir_files (pt_base_dir p)"
  then have "along (data_path config) q"
    using dir_files_iff [OF p(4)] prefixeq_butlast [of q] prefix_order.trans by (auto simp: along_def)
  then show "content (power_loss lost (bk_world (sy_broker s))) q = content (bk_world (sy_broker s)) q"
    using synced_content [OF p(1) _ p(4)] p(2) assms(3) power_loss_along [OF kept] by (simp add: content_def)
qed

lemma default_data_path: "data_path broker_config_default = [''data'']"
  by (simp add: broker_config_default_def path_join_def components_def)

theorem synced_broker_survives_power_loss_witness:
  defines "lost \<equiv> \<lambda>q. prefix [''tmp''] q"
  shows "\<exists>(w :: world) s' ts.
    broker_start be_ops list_chan broker_config_default (power_loss lost w) = Ok (s' :: (nat \<times> broker_command list, pipe) system) \<and>
    partition_view be_ops (sy_broker s') demo_topic 0 0 = Some (1, Ok (Some (written_record ts 0 (as_bytes demo_message))))"
proof -
  obtain b ts where b: "reaches be_ops list_chan demo_pipe tame broker_config_default empty_world
      (lone b ([], False, []) (Handling (Done demo_ack)))"
    "partition_view be_ops b demo_topic 0 0 = Some (1, Ok (Some (written_record ts 0 (as_bytes demo_message))))"
    by (rule demo_view)
  have level: "cfg_sync_level broker_config_default = SyncLogAndIndex"
    by (simp add: broker_config_default_def)
  have kept: "\<forall>q. prefix (data_path broker_config_default) q \<or> prefix q (data_path broker_config_default) \<longrightarrow> \<not> lost q"
    unfolding default_data_path lost_def by (auto simp: prefix_def append_eq_Cons_conv)
  obtain s' where "broker_start be_ops list_chan broker_config_default (power_loss lost (bk_world b)) = Ok (s' :: (nat \<times> broker_command list, pipe) system)"
    "partition_view be_ops (sy_broker s') demo_topic 0 0 = partition_view be_ops b demo_topic 0 0"
    using synced_broker_survives_power_loss [OF sample.system_env_axioms b(1) level kept] by auto
  then show ?thesis
    unfolding b(2) by (intro exI conjI)
qed



end
