(* ===== verification/Ruka_Server.thy ===== *)
theory Ruka_Server
  imports Ruka_Restart
begin

text \<open>
  The accept loop (\<open>network/server.rs\<close>) and the whole program (\<open>main.rs\<close>): it loads the registry, binds its
  address, serves connections until the shutdown signal comes, and ends. Binding a socket is an
  operation of \<open>tokio::net\<close> and a parameter.
\<close>

section \<open>The program\<close>


datatype ('q, 'f) program = Serving "('q, 'f) system" | Exited "unit res"


text \<open>
  The events of the loop of \<open>start_server\<close>. An \<open>accept\<close> gives a stream or fails; on the stream
  the no-delay option is set with success or not, and the task of the connection
  starts by asking for the address of the peer and ends at once when that fails. The wait for the
  signal ends when it comes or when it cannot be waited for. Between these events the tasks make
  their steps; with the end of \<open>main\<close> the runtime drops them wherever they are.
\<close>

datatype 'f server_event =
    Accepted 'f "unit res" "unit res"
  | AcceptFailed ruka_error
  | CtrlC "unit res"
  | Task "'f event"

fun from_listener :: "'f event \<Rightarrow> bool" where
  "from_listener (Accept f) = True"
| "from_listener e = False"

inductive start_server ::
    "bytes_ops \<Rightarrow> (broker_command, 'q) chan_ops \<Rightarrow> 'f framed_ops \<Rightarrow>
     ('q, 'f) program \<Rightarrow> 'f server_event \<Rightarrow> ('q, 'f) program \<Rightarrow> bool"
  for bx :: bytes_ops and ch :: "(broker_command, 'q) chan_ops" and fm :: "'f framed_ops" where
  accepted: "start_server bx ch fm (Serving s) (Accepted f nodelay (Ok ()))
    (Serving (s \<lparr> sy_conns := sy_conns s @ [\<lparr> cn_framed = f, cn_state = Reading \<rparr>] \<rparr>))"
| no_peer: "start_server bx ch fm (Serving s) (Accepted f nodelay (Err e)) (Serving s)"
| accept_failed: "start_server bx ch fm (Serving s) (AcceptFailed e) (Serving s)"
| ctrl_c: "start_server bx ch fm (Serving s) (CtrlC r) (Exited (Ok ()))"
| task: "sys_step bx ch fm s e t \<Longrightarrow> \<not> from_listener e \<Longrightarrow> start_server bx ch fm (Serving s) (Task e) (Serving t)"

inductive_cases exited_stepE: "start_server bx ch fm (Exited r) e p"

text \<open>Runs of the program in which the system satisfies a predicate as long as it is served.\<close>

inductive program_run ::
    "bytes_ops \<Rightarrow> (broker_command, 'q) chan_ops \<Rightarrow> 'f framed_ops \<Rightarrow> (('q, 'f) system \<Rightarrow> bool) \<Rightarrow>
     ('q, 'f) program \<Rightarrow> 'f server_event list \<Rightarrow> ('q, 'f) program \<Rightarrow> bool"
  for bx :: bytes_ops and ch :: "(broker_command, 'q) chan_ops" and fm :: "'f framed_ops"
    and P :: "('q, 'f) system \<Rightarrow> bool" where
  exited: "program_run bx ch fm P (Exited r) [] (Exited r)"
| serving: "P s \<Longrightarrow> program_run bx ch fm P (Serving s) [] (Serving s)"
| step: "P s \<Longrightarrow> start_server bx ch fm (Serving s) e p \<Longrightarrow> program_run bx ch fm P p es q \<Longrightarrow>
    program_run bx ch fm P (Serving s) (e # es) q"

inductive_cases serving_runE: "program_run bx ch fm P (Serving s) es p"

section \<open>The program as a run of the system\<close>







section \<open>What is in the mailboxes at a start\<close>



section \<open>Properties of the program\<close>



end
