(* ===== verification/Ruka_Bench.thy ===== *)
theory Ruka_Bench
  imports Ruka_Request "HOL-Library.Sublist"
begin

text \<open>
  The load generator \<^verbatim>\<open>examples/throughput_bench.rs\<close>: it sends batches without waiting for
  each answer and keeps a bounded number of them in flight. The connection is a parameter: what
  sending a frame gives and what the next frame is, as functions of what went over the wire so far.
  Timings and printing are left out.
\<close>

section \<open>The pipelined client\<close>

record bench_args =
  ba_broker :: string
  ba_topic :: string
  ba_partition :: u32
  ba_messages :: nat
  ba_batch_size :: nat
  ba_max_in_flight :: nat
  ba_payload_size :: nat

datatype wire_event = Sent frame | Received frame

text \<open>What waiting for the next frame comes to: no frame ever, the end of the stream, or an item.\<close>

datatype next_frame = Silence | Ended | Item "frame res"

record pipeline =
  pl_correlation_id :: u32
  pl_in_flight :: nat
  pl_replies_received :: nat
  pl_batches_sent :: nat
  pl_wire :: "wire_event list"

definition bench_request :: "bench_args \<Rightarrow> u32 \<Rightarrow> produce_batch_request" where
  "bench_request args correlation_id =
     \<lparr> pb_correlation_id = correlation_id, pb_topic = ba_topic args, pb_partition = ba_partition args,
       pb_payloads = replicate (ba_batch_size args) (replicate (ba_payload_size args) 0xAA) \<rparr>"

text \<open>The inner loop sends batches until the window is full or all of them are sent.\<close>

function pipeline_fill ::
    "bytes_ops \<Rightarrow> bench_args \<Rightarrow> nat \<Rightarrow> (wire_event list \<Rightarrow> frame \<Rightarrow> unit res) \<Rightarrow> pipeline \<Rightarrow> pipeline res" where
  "pipeline_fill bx args total_batches send pl =
     (if pl_in_flight pl < ba_max_in_flight args \<and> pl_batches_sent pl < total_batches
      then let correlation_id = pl_correlation_id pl + 1;
               frame = produce_batch_into_frame bx (bench_request args correlation_id)
           in obind (send (pl_wire pl) frame) (\<lambda>_.
              pipeline_fill bx args total_batches send
                (pl\<lparr> pl_correlation_id := correlation_id, pl_batches_sent := pl_batches_sent pl + 1,
                    pl_in_flight := pl_in_flight pl + 1, pl_wire := pl_wire pl @ [Sent frame] \<rparr>))
      else Ok pl)"
  by pat_completeness auto
termination
  by (relation "measure (\<lambda>(bx, args, total_batches, send, pl). total_batches - pl_batches_sent pl)") auto

declare pipeline_fill.simps [simp del]

lemma pipeline_fill_replies:
  "pipeline_fill bx args total_batches send pl = Ok pl' \<Longrightarrow> pl_replies_received pl' = pl_replies_received pl"
proof (induction bx args total_batches send pl rule: pipeline_fill.induct)
  case (1 bx args total_batches send pl)
  show ?case
    using 1(2) 1(1) [OF _ refl refl] unfolding pipeline_fill.simps [of bx args total_batches send pl]
    by (auto simp: Let_def obind_eq_Ok split: if_splits)
qed

text \<open>
  The outer loop waits for one reply in each round; no result means that it waits for ever. The
  count of batches in flight wraps when a frame comes that answers nothing.
\<close>

function pipeline_loop ::
    "bytes_ops \<Rightarrow> bench_args \<Rightarrow> nat \<Rightarrow> (wire_event list \<Rightarrow> frame \<Rightarrow> unit res) \<Rightarrow> (wire_event list \<Rightarrow> next_frame) \<Rightarrow>
     pipeline \<Rightarrow> pipeline res option" where
  "pipeline_loop bx args total_batches send next pl =
     (if pl_replies_received pl < total_batches
      then case pipeline_fill bx args total_batches send pl of
          Err e \<Rightarrow> Some (Err e)
        | Panic \<Rightarrow> Some Panic
        | Ok pl' \<Rightarrow>
            (case next (pl_wire pl') of
               Silence \<Rightarrow> None
             | Ended \<Rightarrow> Some Panic
             | Item (Err e) \<Rightarrow> Some (Err e)
             | Item Panic \<Rightarrow> Some Panic
             | Item (Ok frame) \<Rightarrow>
                 pipeline_loop bx args total_batches send next
                   (pl'\<lparr> pl_replies_received := pl_replies_received pl' + 1,
                        pl_in_flight := (if pl_in_flight pl' = 0 then 2 ^ 64 - 1 else pl_in_flight pl' - 1),
                        pl_wire := pl_wire pl' @ [Received frame] \<rparr>))
      else Some (Ok pl))"
  by pat_completeness auto
termination
  by (relation "measure (\<lambda>(bx, args, total_batches, send, next, pl). total_batches - pl_replies_received pl)")
    (auto dest: pipeline_fill_replies)

declare pipeline_loop.simps [simp del]

definition throughput_bench ::
    "bytes_ops \<Rightarrow> bench_args \<Rightarrow> (wire_event list \<Rightarrow> frame \<Rightarrow> unit res) \<Rightarrow> (wire_event list \<Rightarrow> next_frame) \<Rightarrow>
     pipeline res option" where
  "throughput_bench bx args send next =
     (if ba_batch_size args = 0 then Some Panic
      else pipeline_loop bx args (ba_messages args div ba_batch_size args) send next
        \<lparr> pl_correlation_id = 0, pl_in_flight = 0, pl_replies_received = 0, pl_batches_sent = 0, pl_wire = [] \<rparr>)"

section \<open>The window\<close>

fun sent_frames :: "wire_event list \<Rightarrow> frame list" where
  "sent_frames [] = []"
| "sent_frames (Sent f # wire) = f # sent_frames wire"
| "sent_frames (Received f # wire) = sent_frames wire"

fun received_frames :: "wire_event list \<Rightarrow> frame list" where
  "received_frames [] = []"
| "received_frames (Sent f # wire) = received_frames wire"
| "received_frames (Received f # wire) = f # received_frames wire"

lemma wire_frames_append [simp]:
  "sent_frames (wire @ wire') = sent_frames wire @ sent_frames wire'"
  "received_frames (wire @ wire') = received_frames wire @ received_frames wire'"
  by (induction wire rule: sent_frames.induct) simp_all

text \<open>A peer that takes every frame and answers each frame sent once, and nothing else.\<close>

definition answers_each :: "(wire_event list \<Rightarrow> frame \<Rightarrow> unit res) \<Rightarrow> (wire_event list \<Rightarrow> next_frame) \<Rightarrow> bool" where
  "answers_each send next \<longleftrightarrow> (\<forall>wire f. send wire f = Ok ()) \<and>
     (\<forall>wire. if length (received_frames wire) < length (sent_frames wire) then \<exists>f. next wire = Item (Ok f) else next wire = Silence)"

lemma answers_each_next:
  assumes "answers_each send next"
  shows "send wire f = Ok ()"
    "length (received_frames wire) < length (sent_frames wire) \<Longrightarrow> \<exists>f. next wire = Item (Ok f)"
    "length (sent_frames wire) \<le> length (received_frames wire) \<Longrightarrow> next wire = Silence"
  using assms unfolding answers_each_def by (simp, presburger, metis not_le)

definition bench_frames :: "bytes_ops \<Rightarrow> bench_args \<Rightarrow> nat \<Rightarrow> frame list" where
  "bench_frames bx args n = map (\<lambda>k. produce_batch_into_frame bx (bench_request args (of_nat (k + 1)))) [0..<n]"

lemma bench_frames_simps [simp]:
  "length (bench_frames bx args n) = n" "bench_frames bx args 0 = []"
  "bench_frames bx args (Suc n) = bench_frames bx args n @ [produce_batch_into_frame bx (bench_request args (of_nat n + 1))]"
  by (simp_all add: bench_frames_def add.commute)

definition within_window :: "nat \<Rightarrow> wire_event list \<Rightarrow> bool" where
  "within_window n wire \<longleftrightarrow>
     (\<forall>w. prefix w wire \<longrightarrow> length (sent_frames w) \<le> length (received_frames w) + n)"

lemma within_window_snoc [simp]:
  "within_window n (wire @ [e]) \<longleftrightarrow>
     within_window n wire \<and> length (sent_frames (wire @ [e])) \<le> length (received_frames (wire @ [e])) + n"
  by (auto simp: within_window_def)

definition pipeline_ok :: "bytes_ops \<Rightarrow> bench_args \<Rightarrow> nat \<Rightarrow> pipeline \<Rightarrow> bool" where
  "pipeline_ok bx args total_batches pl \<longleftrightarrow>
     pl_replies_received pl = length (received_frames (pl_wire pl)) \<and>
     pl_batches_sent pl = pl_in_flight pl + pl_replies_received pl \<and>
     pl_in_flight pl \<le> ba_max_in_flight args \<and> pl_batches_sent pl \<le> total_batches \<and>
     pl_correlation_id pl = of_nat (pl_batches_sent pl) \<and>
     sent_frames (pl_wire pl) = bench_frames bx args (pl_batches_sent pl) \<and>
     within_window (ba_max_in_flight args) (pl_wire pl)"

lemma pipeline_fill_ok:
  assumes "answers_each send next"
  shows "pipeline_ok bx args total_batches pl \<Longrightarrow>
    \<exists>pl'. pipeline_fill bx args total_batches send pl = Ok pl' \<and> pipeline_ok bx args total_batches pl' \<and>
      (pl_in_flight pl' = ba_max_in_flight args \<or> pl_batches_sent pl' = total_batches)"
  using assms
proof (induction bx args total_batches send pl rule: pipeline_fill.induct)
  case (1 bx args total_batches send pl)
  let ?frame = "produce_batch_into_frame bx (bench_request args (pl_correlation_id pl + 1))"
  let ?pl = "pl\<lparr> pl_correlation_id := pl_correlation_id pl + 1, pl_batches_sent := pl_batches_sent pl + 1,
    pl_in_flight := pl_in_flight pl + 1, pl_wire := pl_wire pl @ [Sent ?frame] \<rparr>"
  show ?case
  proof (cases "pl_in_flight pl < ba_max_in_flight args \<and> pl_batches_sent pl < total_batches")
    case True
    have "pipeline_ok bx args total_batches ?pl"
      using 1(2) True by (auto simp: pipeline_ok_def add.commute)
    moreover have "send (pl_wire pl) ?frame = Ok ()"
      by (rule answers_each_next(1) [OF 1(3)])
    ultimately show ?thesis
      using 1(1) [OF True refl refl] 1(3) True by (subst pipeline_fill.simps) (simp add: Let_def)
  next
    case False
    then show ?thesis
      using 1(2) by (subst pipeline_fill.simps) (auto simp: pipeline_ok_def)
  qed
qed

lemma pipeline_loop_ok:
  assumes "answers_each send next" "0 < ba_max_in_flight args"
  shows "pipeline_ok bx args total_batches pl \<Longrightarrow>
    \<exists>pl'. pipeline_loop bx args total_batches send next pl = Some (Ok pl') \<and> pipeline_ok bx args total_batches pl' \<and>
      total_batches \<le> pl_replies_received pl'"
  using assms
proof (induction bx args total_batches send "next" pl rule: pipeline_loop.induct)
  case (1 bx args total_batches send "next" pl)
  show ?case
  proof (cases "pl_replies_received pl < total_batches")
    case True
    obtain pl' where pl': "pipeline_fill bx args total_batches send pl = Ok pl'" "pipeline_ok bx args total_batches pl'"
      "pl_in_flight pl' = ba_max_in_flight args \<or> pl_batches_sent pl' = total_batches"
      using pipeline_fill_ok [OF 1(3,2)] by blast
    have flying: "0 < pl_in_flight pl'"
      using pl' 1(4) True pipeline_fill_replies [OF pl'(1)] by (auto simp: pipeline_ok_def)
    then obtain f where f: "next (pl_wire pl') = Item (Ok f)"
      using answers_each_next(2) [OF 1(3), of "pl_wire pl'"] pl'(2) by (auto simp: pipeline_ok_def)
    have "pipeline_ok bx args total_batches (pl'\<lparr> pl_replies_received := pl_replies_received pl' + 1,
        pl_in_flight := (if pl_in_flight pl' = 0 then 2 ^ 64 - 1 else pl_in_flight pl' - 1), pl_wire := pl_wire pl' @ [Received f] \<rparr>)"
      using pl'(2) flying by (auto simp: pipeline_ok_def)
    from 1(1) [OF True pl'(1) f refl this 1(3,4)] show ?thesis
      using True pl'(1) f by (subst pipeline_loop.simps) simp
  next
    case False
    then show ?thesis
      using 1(2) by (subst pipeline_loop.simps) simp
  qed
qed

text \<open>C31: The load generator against a server that answers each request. With room for at least one
  batch in flight it finishes; it has then sent exactly \<^emph>\<open>messages / batch_size\<close> batches, with
  correlation ids counting up from 1, has received as many replies, and at no moment were more
  batches unanswered than \<^emph>\<open>max_in_flight\<close> allows. With \<^emph>\<open>max_in_flight\<close> 0 and a batch to send
  it sends nothing and waits for ever.\<close>

theorem throughput_bench_completes:
  assumes "answers_each send next" "0 < ba_batch_size args"
  defines "total_batches \<equiv> ba_messages args div ba_batch_size args"
  shows "if ba_max_in_flight args = 0 \<and> 0 < total_batches then throughput_bench bx args send next = None
    else \<exists>pl. throughput_bench bx args send next = Some (Ok pl) \<and>
      sent_frames (pl_wire pl) = bench_frames bx args total_batches \<and>
      length (received_frames (pl_wire pl)) = total_batches \<and> within_window (ba_max_in_flight args) (pl_wire pl)"
proof -
  let ?pl = "\<lparr> pl_correlation_id = 0, pl_in_flight = 0, pl_replies_received = 0, pl_batches_sent = 0, pl_wire = [] \<rparr>"
  have run: "throughput_bench bx args send next = pipeline_loop bx args total_batches send next ?pl"
    using assms(2) by (simp add: throughput_bench_def total_batches_def)
  consider "ba_max_in_flight args = 0" "0 < total_batches" | "total_batches = 0" | "0 < ba_max_in_flight args"
    by blast
  then show ?thesis
  proof cases
    case 1
    then have "pipeline_fill bx args total_batches send ?pl = Ok ?pl"
      by (subst pipeline_fill.simps) simp
    then show ?thesis
      using 1 answers_each_next(3) [OF assms(1), of "[]"] by (simp add: run) (subst pipeline_loop.simps, simp)
  next
    case 2
    then show ?thesis
      by (simp add: run) (subst pipeline_loop.simps, simp add: within_window_def)
  next
    case 3
    have "pipeline_ok bx args total_batches ?pl"
      by (simp add: pipeline_ok_def within_window_def)
    from pipeline_loop_ok [OF assms(1) 3 this] obtain pl where pl: "throughput_bench bx args send next = Some (Ok pl)"
      "pipeline_ok bx args total_batches pl" "total_batches \<le> pl_replies_received pl"
      unfolding run by blast
    then have "pl_replies_received pl = total_batches" "pl_batches_sent pl = total_batches"
      by (auto simp: pipeline_ok_def)
    then show ?thesis
      using 3 pl(1,2) by (auto simp: pipeline_ok_def)
  qed
qed

theorem throughput_bench_completes_witness:
  defines "args \<equiv> \<lparr> ba_broker = ''127.0.0.1:9093'', ba_topic = ''t'', ba_partition = 0, ba_messages = 10,
      ba_batch_size = 2, ba_max_in_flight = 3, ba_payload_size = 4 \<rparr>"
    and "echo \<equiv> \<lambda>wire. if length (received_frames wire) < length (sent_frames wire)
      then Item (Ok (hd (sent_frames wire))) else Silence"
  shows "\<exists>pl. throughput_bench be_ops args (\<lambda>wire f. Ok ()) echo = Some (Ok pl) \<and>
    sent_frames (pl_wire pl) = bench_frames be_ops args 5 \<and> within_window 3 (pl_wire pl)"
proof -
  have "answers_each (\<lambda>wire f. Ok ()) echo"
    by (auto simp: answers_each_def echo_def)
  from throughput_bench_completes [OF this, of args be_ops] show ?thesis
    by (auto simp: args_def)
qed

end
