(* ===== verification/Ruka_Latency.thy ===== *)
theory Ruka_Latency
  imports Ruka_Bench
begin

text \<open>
  The clients that measure round trips: \<^verbatim>\<open>examples/benchmark.rs\<close> and the two workloads of
  \<^verbatim>\<open>examples/interview_bench.rs\<close>. They send one request and wait for its answer before the next one, or
  keep a window of batches in flight. The connection is a parameter as for the load generator, and
  so is the clock; of the statistics the percentiles are here, with the floating-point arithmetic of
  their indices. Averages, rates and the start of the broker process are left out.
\<close>

section \<open>Sequential round trips\<close>

definition NUM_MESSAGES :: nat where
  "NUM_MESSAGES = 100000"

definition benchmark_request :: "nat \<Rightarrow> produce_request" where
  "benchmark_request i =
     \<lparr> pr_correlation_id = of_nat i, pr_topic = ''benchmark-topic'', pr_partition = 0, pr_payload = replicate 256 0 \<rparr>"

text \<open>
  The loop of \<^verbatim>\<open>benchmark.rs\<close>: an error instead of an answer ends the loop but not the program, and the end of the
  stream is taken for an answer.
\<close>

fun benchmark_loop ::
    "(wire_event list \<Rightarrow> frame \<Rightarrow> unit res) \<Rightarrow> (wire_event list \<Rightarrow> next_frame) \<Rightarrow> nat list \<Rightarrow> wire_event list \<Rightarrow>
     wire_event list res option" where
  "benchmark_loop send next [] wire = Some (Ok wire)"
| "benchmark_loop send next (i # is) wire =
     (let frame = produce_into_frame (benchmark_request i) in
      case send wire frame of
        Err e \<Rightarrow> Some (Err e)
      | Panic \<Rightarrow> Some Panic
      | Ok u \<Rightarrow>
          (let wire = wire @ [Sent frame] in
           case next wire of
             Silence \<Rightarrow> None
           | Item (Err e) \<Rightarrow> Some (Ok wire)
           | Item Panic \<Rightarrow> Some Panic
           | Ended \<Rightarrow> benchmark_loop send next is wire
           | Item (Ok f) \<Rightarrow> benchmark_loop send next is (wire @ [Received f])))"

definition benchmark ::
    "(wire_event list \<Rightarrow> frame \<Rightarrow> unit res) \<Rightarrow> (wire_event list \<Rightarrow> next_frame) \<Rightarrow> wire_event list res option" where
  "benchmark send next = benchmark_loop send next [0..<NUM_MESSAGES] []"

text \<open>
  Numbers of type \<open>f64\<close> that are not negative, as multiples of a fixed power of two: rounding a
  natural number to 53 significant bits, to the nearest, ties to even.
\<close>

fun bit_length :: "nat \<Rightarrow> nat" where
  "bit_length n = (if n = 0 then 0 else Suc (bit_length (n div 2)))"

declare bit_length.simps [simp del]

definition round_f64 :: "nat \<Rightarrow> nat" where
  "round_f64 n =
     (let ulp = 2 ^ (bit_length n - 53); q = n div ulp; r = n mod ulp
      in (if ulp < 2 * r \<or> (2 * r = ulp \<and> odd q) then q + 1 else q) * ulp)"

text \<open>
  The index \<open>(count as f64 * p) as usize\<close> for a constant \<open>p\<close> that is \<open>m / 2 ^ 53\<close>, and the constants 0.50, 0.95 and 0.99 in this form.
\<close>

definition percentile_index :: "nat \<Rightarrow> nat \<Rightarrow> nat" where
  "percentile_index m count = round_f64 (round_f64 count * m) div 2 ^ 53"

definition P50 :: nat where
  "P50 = 4503599627370496"

definition P95 :: nat where
  "P95 = 8556839292003942"

definition P99 :: nat where
  "P99 = 8917127262193582"

definition percentile :: "nat \<Rightarrow> nat \<Rightarrow> nat list \<Rightarrow> nat res" where
  "percentile m count latencies_us =
     (let i = percentile_index m count in if i < length latencies_us then Ok (latencies_us ! i) else Panic)"

text \<open>
  The loops of \<open>run_latency_bench\<close>: all errors panic. What the clock shows for a round trip, in
  microseconds, is a function of what has gone over the wire when it ends.
\<close>

definition latency_request :: "nat \<Rightarrow> nat \<Rightarrow> produce_request" where
  "latency_request psize i =
     \<lparr> pr_correlation_id = of_nat i, pr_topic = ''bench_latency'', pr_partition = 0, pr_payload = replicate psize 0xBB \<rparr>"

fun latency_loop ::
    "nat \<Rightarrow> (wire_event list \<Rightarrow> frame \<Rightarrow> unit res) \<Rightarrow> (wire_event list \<Rightarrow> next_frame) \<Rightarrow> (wire_event list \<Rightarrow> nat) \<Rightarrow>
     nat list \<Rightarrow> wire_event list \<Rightarrow> nat list \<Rightarrow> (wire_event list \<times> nat list) res option" where
  "latency_loop psize send next elapsed [] wire latencies_us = Some (Ok (wire, latencies_us))"
| "latency_loop psize send next elapsed (i # is) wire latencies_us =
     (let frame = produce_into_frame (latency_request psize i) in
      case send wire frame of
        Ok u \<Rightarrow>
          (case next (wire @ [Sent frame]) of
             Silence \<Rightarrow> None
           | Item (Ok f) \<Rightarrow>
               (let wire = wire @ [Sent frame, Received f]
                in latency_loop psize send next elapsed is wire (latencies_us @ [round_f64 (elapsed wire)]))
           | _ \<Rightarrow> Some Panic)
      | _ \<Rightarrow> Some Panic)"

record latency_result =
  lt_workload :: string
  lt_requests :: nat
  lt_payload_size :: nat
  lt_p50_us :: nat
  lt_p95_us :: nat
  lt_p99_us :: nat

text \<open>
  The payload and the vector of times, which are limited to less than \<open>2 ^ 63\<close> bytes, a warm-up of
  1000 requests, whose times are dropped, the requests whose times are taken, and the
  percentiles. The average is left out.
\<close>

definition run_latency_bench ::
    "nat \<Rightarrow> nat \<Rightarrow> (wire_event list \<Rightarrow> frame \<Rightarrow> unit res) \<Rightarrow> (wire_event list \<Rightarrow> next_frame) \<Rightarrow> (wire_event list \<Rightarrow> nat) \<Rightarrow>
     (wire_event list \<times> latency_result) res option" where
  "run_latency_bench count psize send next elapsed =
     (if 2 ^ 63 \<le> psize \<or> 2 ^ 63 \<le> 8 * count then Some Panic
      else case latency_loop psize send next elapsed [0..<1000] [] [] of
        Some (Ok (wire, _)) \<Rightarrow>
          (case latency_loop psize send next elapsed (map (\<lambda>i. i + 1000) [0..<count]) wire [] of
             Some (Ok (wire, latencies_us)) \<Rightarrow>
               Some (let latencies_us = sort latencies_us in
                 obind (percentile P50 count latencies_us) (\<lambda>p50_us.
                 obind (percentile P95 count latencies_us) (\<lambda>p95_us.
                 obind (percentile P99 count latencies_us) (\<lambda>p99_us.
                 Ok (wire, \<lparr> lt_workload = ''Sequential Latency'', lt_requests = count, lt_payload_size = psize,
                   lt_p50_us = p50_us, lt_p95_us = p95_us, lt_p99_us = p99_us \<rparr>)))))
           | Some (Err e) \<Rightarrow> Some (Err e)
           | Some Panic \<Rightarrow> Some Panic
           | None \<Rightarrow> None)
      | Some (Err e) \<Rightarrow> Some (Err e)
      | Some Panic \<Rightarrow> Some Panic
      | None \<Rightarrow> None)"

section \<open>Pipelined batches\<close>

text \<open>
  The loops of \<open>run_throughput_bench\<close> are those of the load generator with every error turned into a panic.
\<close>

definition unwrapped :: "'a res \<Rightarrow> 'a res" where
  "unwrapped r = (case r of Ok x \<Rightarrow> Ok x | _ \<Rightarrow> Panic)"

definition run_throughput_bench ::
    "bytes_ops \<Rightarrow> nat \<Rightarrow> nat \<Rightarrow> nat \<Rightarrow> nat \<Rightarrow> (wire_event list \<Rightarrow> frame \<Rightarrow> unit res) \<Rightarrow> (wire_event list \<Rightarrow> next_frame) \<Rightarrow>
     pipeline res option" where
  "run_throughput_bench bx msgs psize batch pipeline_depth send next =
     throughput_bench bx
       \<lparr> ba_broker = [], ba_topic = ''bench_throughput'', ba_partition = 0, ba_messages = msgs, ba_batch_size = batch,
         ba_max_in_flight = pipeline_depth, ba_payload_size = psize \<rparr>
       (\<lambda>wire frame. unwrapped (send wire frame))
       (\<lambda>wire. case next wire of Item r \<Rightarrow> Item (unwrapped r) | n \<Rightarrow> n)"

section \<open>What the clients do\<close>

text \<open>One request and its answer after the other.\<close>

fun round_trips :: "frame list \<Rightarrow> wire_event list \<Rightarrow> bool" where
  "round_trips [] wire \<longleftrightarrow> wire = []"
| "round_trips (f # fs) (Sent g # Received r # wire) \<longleftrightarrow> g = f \<and> round_trips fs wire"
| "round_trips (f # fs) wire \<longleftrightarrow> False"

lemma round_trips_append:
  "round_trips fs v \<Longrightarrow> round_trips gs w \<Longrightarrow> round_trips (fs @ gs) (v @ w)"
  by (induction fs v rule: round_trips.induct) simp_all

lemma round_trips_frames:
  "round_trips fs wire \<Longrightarrow> sent_frames wire = fs \<and> length (received_frames wire) = length fs"
  by (induction fs wire rule: round_trips.induct) simp_all

lemma answers_one:
  assumes "answers_each send next" "round_trips fs wire"
  shows "send wire g = Ok ()" "\<exists>f. next (wire @ [Sent g]) = Item (Ok f)"
  using answers_each_next(1,2) [OF assms(1)] round_trips_frames [OF assms(2)] by simp_all

lemma round_trips_snoc: "round_trips fs wire \<Longrightarrow> round_trips (fs @ [g]) (wire @ [Sent g, Received f])"
  by (rule round_trips_append) simp_all

lemma benchmark_loop_ok:
  assumes "answers_each send next"
  shows "round_trips fs wire \<Longrightarrow> \<exists>wire'. benchmark_loop send next is wire = Some (Ok wire') \<and>
    round_trips (fs @ map (\<lambda>i. produce_into_frame (benchmark_request i)) is) wire'"
proof (induction "is" arbitrary: fs wire)
  case (Cons i "is")
  let ?g = "produce_into_frame (benchmark_request i)"
  note peer = answers_one [OF assms Cons.prems, of ?g]
  then obtain f where "next (wire @ [Sent ?g]) = Item (Ok f)" by blast
  then show ?case
    using peer(1) Cons.IH [OF round_trips_snoc [OF Cons.prems, of ?g f]] by (simp add: Let_def)
qed simp

lemma latency_loop_ok:
  assumes "answers_each send next"
  shows "round_trips fs wire \<Longrightarrow> \<exists>wire'.
    latency_loop psize send next elapsed is wire lats =
      Some (Ok (wire @ wire', lats @ map (\<lambda>k. round_f64 (elapsed (wire @ take (2 * Suc k) wire'))) [0..<length is])) \<and>
    round_trips (map (\<lambda>i. produce_into_frame (latency_request psize i)) is) wire'"
proof (induction "is" arbitrary: fs wire lats)
  case (Cons i "is")
  let ?g = "produce_into_frame (latency_request psize i)"
  note peer = answers_one [OF assms Cons.prems, of ?g]
  then obtain f where f: "next (wire @ [Sent ?g]) = Item (Ok f)" by blast
  let ?wire = "wire @ [Sent ?g, Received f]"
  obtain wire' where wire': "latency_loop psize send next elapsed is ?wire (lats @ [round_f64 (elapsed ?wire)]) =
      Some (Ok (?wire @ wire', (lats @ [round_f64 (elapsed ?wire)]) @
        map (\<lambda>k. round_f64 (elapsed (?wire @ take (2 * Suc k) wire'))) [0..<length is]))"
    "round_trips (map (\<lambda>i. produce_into_frame (latency_request psize i)) is) wire'"
    using Cons.IH [OF round_trips_snoc [OF Cons.prems, of ?g f]] by blast
  show ?case
    using peer(1) f wire'
    by (intro exI [of _ "[Sent ?g, Received f] @ wire'"])
      (simp add: Let_def upt_conv_Cons map_Suc_upt [symmetric] o_def del: upt_Suc)
qed simp

text \<open>Rounding changes a number by at most one part in \<open>2 ^ 53\<close>.\<close>

lemma bit_length_bound: "0 < n \<Longrightarrow> 2 ^ (bit_length n - 1) \<le> n"
proof (induction n rule: bit_length.induct)
  case (1 n)
  show ?case
  proof (cases "n div 2 = 0")
    case False
    then have "2 ^ (bit_length (n div 2) - 1) \<le> n div 2" "0 < bit_length (n div 2)"
      using 1 by (simp_all add: bit_length.simps [of "n div 2"])
    then have "2 * 2 ^ (bit_length (n div 2) - 1) \<le> n" "Suc (bit_length (n div 2) - 1) = bit_length (n div 2)"
      by linarith+
    then show ?thesis
      using 1(2) by (simp add: bit_length.simps [of n] flip: power_Suc)
  qed (use 1 in \<open>simp add: bit_length.simps\<close>)
qed

lemma bit_length_less: "n < 2 ^ k \<Longrightarrow> bit_length n \<le> k"
proof (induction k arbitrary: n)
  case (Suc k)
  then have "n div 2 < 2 ^ k" by simp
  from Suc.IH [OF this] show ?case
    by (simp add: bit_length.simps [of n])
qed (simp add: bit_length.simps)

lemma round_f64_exact: "n < 2 ^ 53 \<Longrightarrow> round_f64 n = n"
  using bit_length_less [of n 53] by (simp add: round_f64_def)

lemma round_f64_near:
  "2 * round_f64 n \<le> 2 * n + 2 ^ (bit_length n - 53)" "2 * n \<le> 2 * round_f64 n + 2 ^ (bit_length n - 53)"
proof -
  define u :: nat where "u = 2 ^ (bit_length n - 53)"
  define a r where "a = n div u * u" and "r = n mod u"
  have n: "n = a + r" and r: "r < u"
    by (simp_all only: a_def r_def div_mult_mod_eq) (simp add: u_def)
  define c where "c \<longleftrightarrow> u < 2 * r \<or> (2 * r = u \<and> odd (n div u))"
  have "round_f64 n = (if c then a + u else a)"
    by (simp add: round_f64_def Let_def u_def [symmetric] a_def r_def c_def)
  moreover have "c \<Longrightarrow> u \<le> 2 * r" "\<not> c \<Longrightarrow> 2 * r \<le> u"
    by (auto simp: c_def)
  ultimately have "2 * round_f64 n \<le> 2 * (a + r) + u \<and> 2 * (a + r) \<le> 2 * round_f64 n + u"
    using r by (cases c) simp_all
  then show "2 * round_f64 n \<le> 2 * n + 2 ^ (bit_length n - 53)" "2 * n \<le> 2 * round_f64 n + 2 ^ (bit_length n - 53)"
    unfolding n [symmetric] u_def by blast+
qed

lemma round_f64_bounds:
  "2 ^ 53 * round_f64 n \<le> (2 ^ 53 + 1) * n" "(2 ^ 53 - 1) * n \<le> 2 ^ 53 * round_f64 n"
proof -
  have "2 ^ 53 * round_f64 n \<le> (2 ^ 53 + 1) * n \<and> (2 ^ 53 - 1) * n \<le> 2 ^ 53 * round_f64 n"
  proof (cases "bit_length n \<le> 53")
    case True
    then have "round_f64 n = n"
      by (simp add: round_f64_def)
    then show ?thesis by simp
  next
    case False
    define u :: nat where "u = 2 ^ (bit_length n - 53)"
    have "n \<noteq> 0"
      using False by (metis bit_length.simps zero_le)
    then have "2 ^ (bit_length n - 1) \<le> n"
      using bit_length_bound by simp
    moreover have e: "bit_length n - 1 = 52 + (bit_length n - 53)"
      using False by simp
    ultimately have "2 ^ 52 * u \<le> n"
      unfolding e power_add u_def by blast
    then show ?thesis
      using round_f64_near [of n] by (simp add: u_def [symmetric])
  qed
  then show "2 ^ 53 * round_f64 n \<le> (2 ^ 53 + 1) * n" "(2 ^ 53 - 1) * n \<le> 2 ^ 53 * round_f64 n"
    by blast+
qed

lemma percentile_index_less:
  assumes "0 < count" "count < 2 ^ 53" "m < 2 ^ 53 - 1"
  shows "percentile_index m count < count"
proof -
  have "2 ^ 53 * round_f64 (count * m) \<le> (2 ^ 53 + 1) * (count * m)"
    by (rule round_f64_bounds(1))
  also have "\<dots> = count * ((2 ^ 53 + 1) * m)"
    by (simp only: ac_simps)
  also have "\<dots> < count * (2 ^ 53 * 2 ^ 53)"
    using assms(1,3) by (intro mult_strict_left_mono) simp_all
  finally have "round_f64 (count * m) < count * 2 ^ 53"
    by simp
  then show ?thesis
    by (simp add: percentile_index_def round_f64_exact [OF assms(2)] less_mult_imp_div_less)
qed

lemma percentile_index_mono:
  assumes "count < 2 ^ 53" "(2 ^ 53 + 1) * m \<le> (2 ^ 53 - 1) * n"
  shows "percentile_index m count \<le> percentile_index n count"
proof -
  have "2 ^ 53 * round_f64 (count * m) \<le> (2 ^ 53 + 1) * (count * m)"
    by (rule round_f64_bounds(1))
  also have "\<dots> = count * ((2 ^ 53 + 1) * m)"
    by (simp only: ac_simps)
  also have "\<dots> \<le> count * ((2 ^ 53 - 1) * n)"
    using assms(2) by (intro mult_left_mono) simp_all
  also have "\<dots> = (2 ^ 53 - 1) * (count * n)"
    by (simp only: ac_simps)
  also have "\<dots> \<le> 2 ^ 53 * round_f64 (count * n)"
    by (rule round_f64_bounds(2))
  finally have "round_f64 (count * m) \<le> round_f64 (count * n)"
    by simp
  then show ?thesis
    by (simp add: percentile_index_def round_f64_exact [OF assms(1)] div_le_mono)
qed

lemma percentile_index_half:
  assumes "count < 2 ^ 53"
  shows "percentile_index P50 count = count div 2"
proof -
  have "bit_length (2 * n) = Suc (bit_length n)" if "0 < n" for n
    using that by (simp add: bit_length.simps [of "2 * n"])
  then have len: "bit_length (2 ^ k * n) = k + bit_length n" if "0 < n" for k n
    using that by (induction k) (simp_all add: mult.assoc)
  have "round_f64 (2 ^ 52 * count) = 2 ^ 52 * count"
  proof (cases "count = 0")
    case False
    have e: "bit_length (2 ^ 52 * count) - 53 \<le> 52"
      using len [of count 52] bit_length_less [OF assms] False by simp
    then have "(2 :: nat) ^ (bit_length (2 ^ 52 * count) - 53) dvd 2 ^ 52 * count"
      by (intro dvd_mult2 le_imp_power_dvd)
    then show ?thesis
      by (simp add: round_f64_def Let_def del: power_numeral)
  qed (simp add: round_f64_def)
  then have "round_f64 (count * P50) = 2 ^ 52 * count"
    by (simp add: P50_def mult.commute)
  then show ?thesis
    by (simp add: percentile_index_def round_f64_exact [OF assms])
qed

lemma percentile_picks:
  assumes "0 < count" "count < 2 ^ 53" "length xs = count" "m < 2 ^ 53 - 1"
  shows "percentile m count xs = Ok (xs ! percentile_index m count)"
  using percentile_index_less [OF assms(1,2,4)] assms(3) by (simp add: percentile_def Let_def)

lemma percentiles_ordered:
  assumes "count < 2 ^ 53"
  shows "percentile_index P50 count \<le> percentile_index P95 count" "percentile_index P95 count \<le> percentile_index P99 count"
  by (rule percentile_index_mono [OF assms], simp add: P50_def P95_def P99_def)+

lemma upt_shift: "[0..<1000] @ map (\<lambda>i. i + 1000) [0..<count] = [0..<count + 1000]"
  using upt_add_eq_append [of 0 1000 count] by (simp add: map_add_upt add.commute)

lemma length_round_trips: "round_trips fs wire \<Longrightarrow> length wire = 2 * length fs"
  by (induction fs wire rule: round_trips.induct) simp_all

text \<open>The two loops of \<open>run_latency_bench\<close> one after the other.\<close>

lemma latency_loops_ok:
  assumes "answers_each send next"
  shows "\<exists>v l wire. latency_loop psize send next elapsed [0..<1000] [] [] = Some (Ok (v, l)) \<and>
    latency_loop psize send next elapsed (map (\<lambda>i. i + 1000) [0..<count]) v [] =
      Some (Ok (wire, map (\<lambda>k. round_f64 (elapsed (take (2 * (k + 1001)) wire))) [0..<count])) \<and>
    round_trips (map (\<lambda>i. produce_into_frame (latency_request psize i)) [0..<count + 1000]) wire"
proof -
  let ?frames = "map (\<lambda>i. produce_into_frame (latency_request psize i))"
  obtain v l where v: "latency_loop psize send next elapsed [0..<1000] [] [] = Some (Ok (v, l))"
    "round_trips (?frames [0..<1000]) v"
    using latency_loop_ok [OF assms, of "[]" "[]" psize elapsed "[0..<1000]" "[]"] by (auto simp del: upt_rec_numeral)
  let ?is = "map (\<lambda>i. i + 1000) [0..<count]"
  obtain w where w: "latency_loop psize send next elapsed ?is v [] =
      Some (Ok (v @ w, map (\<lambda>k. round_f64 (elapsed (v @ take (2 * Suc k) w))) [0..<length ?is]))"
    "round_trips (?frames ?is) w"
    using latency_loop_ok [OF assms v(2), of psize elapsed ?is "[]"] unfolding append_Nil by blast
  have len: "length v = 2000"
    using length_round_trips [OF v(2)] by (simp del: upt_rec_numeral)
  have "v @ take (2 * Suc k) w = take (2 * (k + 1001)) (v @ w)" for k
    by (simp add: len)
  moreover have "round_trips (?frames [0..<count + 1000]) (v @ w)"
    using round_trips_append [OF v(2) w(2)] unfolding map_append [symmetric] upt_shift .
  ultimately show ?thesis
    using v(1) w(1) by (intro exI [of _ v] exI [of _ l] exI [of _ "v @ w"]) (simp del: upt_rec_numeral)
qed

lemma run_latency_bench_eval:
  assumes "answers_each send next" "count < 2 ^ 53" "psize < 2 ^ 63"
  shows "\<exists>wire lats. run_latency_bench count psize send next elapsed =
      Some (obind (percentile P50 count (sort lats)) (\<lambda>p50. obind (percentile P95 count (sort lats)) (\<lambda>p95.
        obind (percentile P99 count (sort lats)) (\<lambda>p99. Ok (wire, \<lparr> lt_workload = ''Sequential Latency'',
          lt_requests = count, lt_payload_size = psize, lt_p50_us = p50, lt_p95_us = p95, lt_p99_us = p99 \<rparr>))))) \<and>
    round_trips (map (\<lambda>i. produce_into_frame (latency_request psize i)) [0..<count + 1000]) wire \<and>
    lats = map (\<lambda>k. round_f64 (elapsed (take (2 * (k + 1001)) wire))) [0..<count]"
proof -
  obtain v l wire lats where run: "latency_loop psize send next elapsed [0..<1000] [] [] = Some (Ok (v, l))"
    "latency_loop psize send next elapsed (map (\<lambda>i. i + 1000) [0..<count]) v [] = Some (Ok (wire, lats))"
    "round_trips (map (\<lambda>i. produce_into_frame (latency_request psize i)) [0..<count + 1000]) wire"
    "lats = map (\<lambda>k. round_f64 (elapsed (take (2 * (k + 1001)) wire))) [0..<count]"
    using latency_loops_ok [OF assms(1)] by blast
  have fits: "\<not> (2 ^ 63 \<le> psize \<or> 2 ^ 63 \<le> 8 * count)"
    using assms(2,3) by simp
  note eval = run_latency_bench_def [of count psize send "next" elapsed,
      unfolded if_not_P [OF fits] run(1) option.case outcome.case prod.case run(2) Let_def]
  show ?thesis
    by (intro exI conjI, rule eval, rule run(3), rule run(4))
qed

lemma run_latency_bench_reports:
  assumes "answers_each send next" "count < 2 ^ 53" "psize < 2 ^ 63" "count \<noteq> 0"
  shows "\<exists>wire lats r. run_latency_bench count psize send next elapsed = Some (Ok (wire, r)) \<and>
    round_trips (map (\<lambda>i. produce_into_frame (latency_request psize i)) [0..<count + 1000]) wire \<and>
    lats = map (\<lambda>k. round_f64 (elapsed (take (2 * (k + 1001)) wire))) [0..<count] \<and>
    lt_p50_us r = sort lats ! (count div 2) \<and> {lt_p50_us r, lt_p95_us r, lt_p99_us r} \<subseteq> set lats \<and>
    lt_p50_us r \<le> lt_p95_us r \<and> lt_p95_us r \<le> lt_p99_us r"
proof -
  obtain wire lats where eval: "run_latency_bench count psize send next elapsed =
      Some (obind (percentile P50 count (sort lats)) (\<lambda>p50. obind (percentile P95 count (sort lats)) (\<lambda>p95.
        obind (percentile P99 count (sort lats)) (\<lambda>p99. Ok (wire, \<lparr> lt_workload = ''Sequential Latency'',
          lt_requests = count, lt_payload_size = psize, lt_p50_us = p50, lt_p95_us = p95, lt_p99_us = p99 \<rparr>)))))"
    and trips: "round_trips (map (\<lambda>i. produce_into_frame (latency_request psize i)) [0..<count + 1000]) wire"
    and lats: "lats = map (\<lambda>k. round_f64 (elapsed (take (2 * (k + 1001)) wire))) [0..<count]"
    using run_latency_bench_eval [OF assms(1-3)] by blast
  let ?s = "sort lats" and ?i = "\<lambda>m. percentile_index m count"
  have len: "length ?s = count"
    by (simp add: lats)
  note pick = percentile_picks [OF _ assms(2) len] and less = percentile_index_less [OF _ assms(2)]
  have ms: "P50 < 2 ^ 53 - 1" "P95 < 2 ^ 53 - 1" "P99 < 2 ^ 53 - 1"
    by (simp_all add: P50_def P95_def P99_def)
  have call: "run_latency_bench count psize send next elapsed = Some (Ok (wire, \<lparr> lt_workload = ''Sequential Latency'',
      lt_requests = count, lt_payload_size = psize,
      lt_p50_us = ?s ! ?i P50, lt_p95_us = ?s ! ?i P95, lt_p99_us = ?s ! ?i P99 \<rparr>))"
    using assms(4) unfolding eval by (simp add: ms [THEN pick [rotated]])
  have "?s ! ?i m \<in> set lats" if "m < 2 ^ 53 - 1" for m
    using less [OF _ that] assms(4) len nth_mem [of "?i m" ?s] by simp
  then have sub: "{?s ! ?i P50, ?s ! ?i P95, ?s ! ?i P99} \<subseteq> set lats"
    using ms by blast
  have ord: "?s ! ?i P50 \<le> ?s ! ?i P95" "?s ! ?i P95 \<le> ?s ! ?i P99"
    using percentiles_ordered [OF assms(2)] less [OF _ ms(2)] less [OF _ ms(3)] assms(4) len
    by (intro sorted_nth_mono; simp)+
  show ?thesis
    by (intro exI conjI, rule call, rule trips, rule lats)
      (use sub ord in \<open>simp_all only: latency_result.select_convs percentile_index_half [OF assms(2)]\<close>)
qed

text \<open>C39: The clients that measure round trips, against a server that answers each request. The program
  benchmark.rs finishes after exactly 100000 round trips. The function run_latency_bench, for
  payloads of less than 2^63 bytes and fewer than 2^53 requests to measure, finishes when there is
  something to measure: it makes 1000 round trips more than it measures, each with the next
  correlation id and each request only when the one before it has been answered; the
  floating-point indices are in range; the reported percentiles are times measured for the
  requests after the first 1000, the first of them is the upper median, and they are in order. With
  nothing to measure it panics on the empty vector of times.\<close>

theorem latency_benches_complete:
  assumes "answers_each send next" "count < 2 ^ 53" "psize < 2 ^ 63"
  shows "(\<exists>wire. benchmark send next = Some (Ok wire) \<and>
      round_trips (map (\<lambda>i. produce_into_frame (benchmark_request i)) [0..<100000]) wire) \<and>
    (if count = 0 then run_latency_bench count psize send next elapsed = Some Panic
     else \<exists>wire lats r. run_latency_bench count psize send next elapsed = Some (Ok (wire, r)) \<and>
      round_trips (map (\<lambda>i. produce_into_frame (latency_request psize i)) [0..<count + 1000]) wire \<and>
      lats = map (\<lambda>k. round_f64 (elapsed (take (2 * (k + 1001)) wire))) [0..<count] \<and>
      lt_p50_us r = sort lats ! (count div 2) \<and> {lt_p50_us r, lt_p95_us r, lt_p99_us r} \<subseteq> set lats \<and>
      lt_p50_us r \<le> lt_p95_us r \<and> lt_p95_us r \<le> lt_p99_us r)"
proof
  show "\<exists>wire. benchmark send next = Some (Ok wire) \<and>
      round_trips (map (\<lambda>i. produce_into_frame (benchmark_request i)) [0..<100000]) wire"
    using benchmark_loop_ok [OF assms(1), of "[]" "[]" "[0..<NUM_MESSAGES]"] unfolding benchmark_def NUM_MESSAGES_def
    by (simp del: upt_rec_numeral)
  show "if count = 0 then run_latency_bench count psize send next elapsed = Some Panic
     else \<exists>wire lats r. run_latency_bench count psize send next elapsed = Some (Ok (wire, r)) \<and>
      round_trips (map (\<lambda>i. produce_into_frame (latency_request psize i)) [0..<count + 1000]) wire \<and>
      lats = map (\<lambda>k. round_f64 (elapsed (take (2 * (k + 1001)) wire))) [0..<count] \<and>
      lt_p50_us r = sort lats ! (count div 2) \<and> {lt_p50_us r, lt_p95_us r, lt_p99_us r} \<subseteq> set lats \<and>
      lt_p50_us r \<le> lt_p95_us r \<and> lt_p95_us r \<le> lt_p99_us r"
  proof (cases "count = 0")
    case True
    then show ?thesis
      using run_latency_bench_eval [OF assms] by (auto simp: percentile_def)
  next
    case False
    show ?thesis
      unfolding if_not_P [OF False] by (rule run_latency_bench_reports [OF assms False])
  qed
qed

theorem latency_benches_complete_witness:
  defines "echo \<equiv> \<lambda>wire. if length (received_frames wire) < length (sent_frames wire)
      then Item (Ok (hd (sent_frames wire))) else Silence"
  shows "run_latency_bench 0 16 (\<lambda>wire f. Ok ()) echo length = Some Panic \<and>
    (\<exists>wire lats r. run_latency_bench 3 16 (\<lambda>wire f. Ok ()) echo length = Some (Ok (wire, r)) \<and>
      round_trips (map (\<lambda>i. produce_into_frame (latency_request 16 i)) [0..<3 + 1000]) wire \<and>
      lats = map (\<lambda>k. round_f64 (length (take (2 * (k + 1001)) wire))) [0..<3] \<and>
      lt_p50_us r = sort lats ! 1 \<and> lt_p95_us r \<le> lt_p99_us r)"
proof -
  have "answers_each (\<lambda>wire f. Ok ()) echo"
    by (auto simp: answers_each_def echo_def)
  note bench = latency_benches_complete [OF this, of _ 16 length, THEN conjunct2]
  show ?thesis
    using bench [of 0] bench [of 3] by (simp del: upt_rec_numeral) blast
qed

end
