(* ===== verification/Ruka_Mmap.thy ===== *)
theory Ruka_Mmap
  imports Ruka_Segment_Inv
begin

text \<open>
  Reads through a memory map (\<open>network/zero_copy.rs\<close>). Mapping a range of a file is an operation of the
  library \<open>memmap2\<close> and a parameter; the locale states its documented behaviour, which does not
  speak of ranges that reach behind the end of the file.
\<close>

section \<open>Mapped ranges\<close>

type_synonym map_range = "file_handle \<Rightarrow> u64 \<Rightarrow> nat \<Rightarrow> world \<Rightarrow> bytes res"

text \<open>The bytes of the map are copied; an empty range is not mapped at all.\<close>

definition mmap_read_to_bytes :: "map_range \<Rightarrow> file_handle \<Rightarrow> u64 \<Rightarrow> nat \<Rightarrow> world \<Rightarrow> bytes res" where
  "mmap_read_to_bytes mp f offset len w =
     (if len = 0 then Ok [] else obind (mp f offset len w) (\<lambda>mmap. Ok mmap))"

locale memory_map =
  fixes mp :: map_range
  assumes map_inside: "quiet w \<Longrightarrow> content w (fpath f) = Some c \<Longrightarrow> 0 < len \<Longrightarrow> unat offset + len \<le> length c \<Longrightarrow>
    mp f offset len w = Ok (take len (drop (unat offset) c))"
begin

lemma mmap_read_inside:
  assumes "quiet w" "content w (fpath f) = Some c" "unat offset + len \<le> length c"
  shows "mmap_read_to_bytes mp f offset len w = Ok (take len (drop (unat offset) c))"
  using map_inside [OF assms(1,2) _ assms(3)] by (simp add: mmap_read_to_bytes_def)

text \<open>A read of the range that the index and the length of a record give is the record.\<close>

lemma mmap_read_record:
  assumes "segment_holds s w (rs @ r # ss)" "quiet w"
  shows "mmap_read_to_bytes mp (sg_log_file s) (of_nat (length (log_bytes rs))) (length (record_bytes r)) w = Ok (record_bytes r)"
proof -
  have log: "content w (fpath (sg_log_file s)) = Some (log_bytes rs @ record_bytes r @ log_bytes ss)"
    "length (log_bytes rs) < 2 ^ 64"
    using assms(1) by (simp_all add: segment_holds_def log_bytes_def)
  then have "unat (of_nat (length (log_bytes rs)) :: u64) = length (log_bytes rs)"
    by (intro unat_of_nat_u64)
  then show ?thesis
    using mmap_read_inside [OF assms(2) log(1), of "of_nat (length (log_bytes rs))" "length (record_bytes r)"] by simp
qed

end

text \<open>A map that fails behind the end of the file.\<close>

definition read_range :: map_range where
  "read_range f offset len w =
     (case content w (fpath f) of
        Some c \<Rightarrow> if unat offset + len \<le> length c then Ok (take len (drop (unat offset) c))
          else Err (Io (Io_Error OtherKind ''memory map length overflows''))
      | None \<Rightarrow> Err (Io (Io_Error NotFound ''No such file or directory'')))"

interpretation whole_map: memory_map read_range
  by unfold_locales (simp add: read_range_def)

end
