(* ===== verification/Spec2Isabelle.thy ===== *)
theory Spec2Isabelle
  imports Ruka_System_Props Ruka_Server Ruka_Latency Ruka_Mmap
begin

text \<open>
  A verification of Ruka, a message broker in the style of Kafka (\<^verbatim>\<open>src/\<close>).

  \<^bold>\<open>The program.\<close> Clients connect over TCP and send frames. A frame carries a request to append one
  payload or a batch of payloads to a partition of a topic, or to fetch records from an offset
  on. Each connection is a task that reads a frame, lets a handler serve it and writes the
  response. A handler finds the partition in the topic registry, or creates it, and sends a
  command over a bounded channel to the one task that owns the partition, the partition actor; a
  oneshot channel brings the reply back. A partition is a directory with a sequence of segments;
  a segment is an append-only log file of records with an index file beside it.

  \<^bold>\<open>Theories, in the order of the layers.\<close>

  \<^item> \<open>Ruka_Prelude\<close>: machine integers as words, byte strings, results (\<open>Ok\<close>, \<open>Err\<close>, \<open>Panic\<close>), programs
    that pass a state and may fail, big-endian integers. \<open>Ruka_Text\<close>: UTF-8 checking, decimal
    printing and parsing, splitting of file names. \<open>Ruka_Search\<close>: \<^verbatim>\<open>slice::binary_search_by_key\<close> with
    the contract of a search in a sorted list as a locale. \<open>Ruka_Fs\<close>: \<^verbatim>\<open>std::fs\<close>; a world of files
    and directories, in which each operation may meet an injected failure or a short read or write, and
    in which unsynced bytes can be lost in a crash.
  \<^item> \<open>Ruka_Bytes\<close>, \<open>Ruka_Channel\<close> and the first part of \<open>Ruka_Connection\<close>: the interfaces of the libraries
    \<^verbatim>\<open>bytes\<close>, \<^verbatim>\<open>tokio::sync::mpsc\<close> and \<^verbatim>\<open>tokio_util::codec::Framed\<close>. Each is a record of operations that the
    model takes as a parameter and a locale with the documented laws, and each locale is interpreted
    on concrete operations.
  \<^item> \<open>Ruka_Types\<close> (\<^verbatim>\<open>error.rs\<close>, \<^verbatim>\<open>protocol/types.rs\<close>, \<^verbatim>\<open>config.rs\<close>), \<open>Ruka_Frame\<close> (\<^verbatim>\<open>protocol/frame.rs\<close>,
    \<^verbatim>\<open>protocol/codec.rs\<close>), \<open>Ruka_Request\<close> and \<open>Ruka_Response\<close> (\<^verbatim>\<open>protocol/request.rs\<close>,
    \<^verbatim>\<open>protocol/response.rs\<close>).
  \<^item> \<open>Ruka_Record\<close> and \<open>Ruka_Segment\<close> (\<^verbatim>\<open>storage/segment.rs\<close>), \<open>Ruka_Index\<close> (\<^verbatim>\<open>storage/index.rs\<close>) and
    \<open>Ruka_Partition\<close> (\<^verbatim>\<open>storage/partition.rs\<close>) hold the storage engine. \<open>Ruka_Log\<close> has the abstract view:
    the list of records of a log, and \<open>append_log\<close>, the contract of something that records can be appended
    to and read from. \<open>Ruka_Segment_Inv\<close> and \<open>Ruka_Partition_Inv\<close> have the invariants,
    \<open>Ruka_Segment_Props\<close>, \<open>Ruka_Recovery\<close>, \<open>Ruka_Partition_Batch\<close>, \<open>Ruka_Partition_Props\<close> and \<open>Ruka_Open\<close>
    the properties.
  \<^item> \<open>Ruka_Broker\<close> (\<^verbatim>\<open>broker/writer.rs\<close>, \<^verbatim>\<open>storage/topic.rs\<close>, \<^verbatim>\<open>broker/handler.rs\<close>): commands, registry,
    partition actors and handlers. A handler is a tree of the operations it awaits. \<open>Ruka_Connection\<close>
    (\<^verbatim>\<open>network/connection.rs\<close>): connections, the start of the broker, and the step relation of the whole
    system.
  \<^item> \<open>Ruka_Broker_Steps\<close>, \<open>Ruka_Broker_Inv\<close>, \<open>Ruka_System\<close>: what one step does to the broker and to
    the logs. \<open>Ruka_Stages\<close>: the stages of a request as a small state machine, a device of the proofs that the
    handlers are shown to follow. \<open>Ruka_Serving\<close>: the invariant that ties connections, mailboxes, replies and logs together.
    \<open>Ruka_Live\<close>: the start on an empty data directory, progress, and a measure of the work that is
    left. \<open>Ruka_Client\<close> (\<^verbatim>\<open>examples/client.rs\<close>), \<open>Ruka_Answers\<close>, \<open>Ruka_Demo\<close> (a run worked out in full),
    \<open>Ruka_Exchange\<close> (requests and responses as both ends of a connection see them) and \<open>Ruka_System_Props\<close>.
    \<open>Ruka_Reload\<close> and \<open>Ruka_Restart\<close>: the start on a data directory that a broker
    left behind. \<open>Ruka_Server\<close> (\<^verbatim>\<open>network/server.rs\<close>, \<^verbatim>\<open>main.rs\<close>): the accept loop and the whole program.
  \<^item> \<open>Ruka_Bench\<close> (\<^verbatim>\<open>examples/throughput_bench.rs\<close>), \<open>Ruka_Latency\<close> (\<^verbatim>\<open>examples/benchmark.rs\<close>,
    \<^verbatim>\<open>examples/interview_bench.rs\<close>) and \<open>Ruka_Mmap\<close> (\<^verbatim>\<open>network/zero_copy.rs\<close>) stand alone.

  \<^bold>\<open>Correspondence.\<close> A struct is a record whose fields carry a two-letter prefix, an enum is a datatype, a
  method is a definition with the name of its type in front (\<open>segment_append\<close>, \<open>partition_read_batch\<close>). A
  method with a mutable receiver passes the pair of the object and the world and returns both, also on
  its error branches. The question mark operator is \<open>bindp\<close> or \<open>obind\<close>. Loops are recursive functions, all of
  them total: each comes with a termination proof, and no fuel is used. The sender of a partition's
  channel is the position of its actor in the list of actors; a oneshot channel is a position in the list
  of replies.

  \<^bold>\<open>Steps of the system.\<close> A connection takes one step between two awaited operations: it reads a frame,
  looks into the registry, creates a partition, makes a oneshot channel, sends a command, takes the reply,
  writes the response. An actor takes one step for each command. Creating a partition is one step because
  the code holds the write lock of the registry; handling a command is one step because only
  the actor uses its partition and no two partitions share a file, which is proved. New connections,
  incoming bytes, the end of a stream and changes of the clock are steps of the environment. All
  interleavings of these steps are runs.

  \<^bold>\<open>What is shown.\<close>

  \<^item> The whole broker, in every run from a start on an empty data directory: an acknowledged payload can
    be read at its offset in every later state; the demo client gets back what it stored, through the
    encoder of the broker and its own decoder, as long as the response fits a frame; a
    response has the kind, the correlation id and the partition of its request; when the broker can take
    no further step by itself, every request has been answered, and it comes to that point after a number of
    steps that its state bounds; a partition has exactly one actor. In every state that it
    reaches the broker can be stopped and started again and then has the same partitions, next offsets and
    records, and with the default synchronisation level the same holds after a loss of power that takes no
    names of files and directories away.
  \<^item> Partitions and segments: appends, batch appends, rotation, reads and batch reads on every
    branch in terms of the list of records, for partitions whose active segment was created by the running
    process (a loaded one writes at its cursor, see below); reopening of a partition; recovery of a segment
    from its log after a crash; and that a record written with the synced level survives a crash.
    Segment and partition are instances of \<open>append_log\<close>.
  \<^item> The wire: records, frames, requests and responses round trip; a decoder waits for the rest of a
    frame, never panics on any input, and accepts exactly the frames that are described. A frame of 26 bytes can
    make the process abort when it asks for more memory than there is.
  \<^item> The index: it refines a map, its floor lookup finds the greatest entry below an offset, and loading reads what was
    written.
  \<^item> The load generator: it sends every batch once and keeps its window. The clients that measure round trips
    send each request after the answer to the one before, and the percentiles of the latency run are in range and in
    order, with the rounding of \<open>f64\<close>, unless there is nothing to measure. A read through a memory map gives the bytes of a
    record.
  \<^item> Behaviours that look unintended have theorems too: a read after a restart lets the next append overwrite
    records, a batch read can skip records at the end of a segment, a batch append can fail after
    it stored a part, after a failed synchronisation the next append is acknowledged and reads back as the refused
    record, a shortened index hides records, a record with overlong fields makes recovery panic, the encoder
    writes frames that every decoder refuses, a loss of power that takes the names of unsynced directories away loses
    every acknowledged record, and a request dispatched to an actor is forgotten when the program is shut down.

  \<^bold>\<open>Assumptions and bounds.\<close> Integers have the width of the code and wrap, as in a release build; \<open>usize\<close> is a
  natural number on a machine of 64 bits, wrapped where the code can overflow it. The storage theorems
  ask for logs of fewer than \<open>2 ^ 63\<close> bytes and, where several operations follow each other, for a world
  without failures (\<open>quiet\<close>); failing operations are part of the definitions. The theorems about runs of the
  broker ask for \<open>tame\<close> states: topic names are plain file names (a name with a slash or one of the dot
  names leads out of the data directory) and offsets are below \<open>2 ^ 63\<close>. They start on an empty data directory, since
  the segments that a restart loads lose records as described above, and with a channel capacity of at least 1,
  without which the first request panics. A loss of power
  happens between two steps; it keeps of each file what was last synced (\<open>crash\<close>), and of the names of files and
  directories, which the code never syncs, those that a parameter of \<open>power_loss\<close> says. Within
  an operation the theorems about single segments speak of torn writes. All time readings while one command is handled are
  the same; between commands the clock moves freely. A response is taken to be written as a whole, with success or an error;
  errors of reading a socket and the back-pressure of its write buffer are left out. Allocations succeed, except in
  \<open>request_from_frame_in\<close>, where a client chooses their size. When the program ends, its tasks stop between two of
  their steps.

  \<^bold>\<open>Not modelled.\<close> Parsing of the command line is generated by \<^verbatim>\<open>clap\<close>. Binding the listening socket is a
  parameter. Log output is left out everywhere. Of the benchmarks the request loops are modelled, not the
  start of a broker process, the averages and rates, and the report files; what the clock shows is a parameter. The module files hold no code, and the tests are not part of the program.
\<close>

end
